(* ===== verification/Prelude.thy ===== *)
theory Prelude
  imports Main "HOL-Library.Word" "HOL-Library.Monad_Syntax" "HOL-Library.Sublist"
begin

text \<open>
  Shared vocabulary of the development: the machine integer types of the C sources, the
  bounds-checked model of \<^verbatim>\<open>memcpy\<close>, fixed-size chunks of a byte block (an array slot
  of \<^verbatim>\<open>element_size\<close> bytes), the power-of-two test the sources use, and the generic
  lemmas on words, lists and options that the component theories rely on.

  A C function that can touch memory out of bounds returns an \<open>option\<close>: \<open>None\<close> is
  undefined behaviour (a heap overrun), never an ordinary error return. Ordinary error
  returns (\<^verbatim>\<open>-1\<close>, \<^verbatim>\<open>-EAGAIN\<close>, \<^verbatim>\<open>NULL\<close>) are values.
\<close>

unbundle bit_operations_syntax

section \<open>Types\<close>

type_synonym u8 = "8 word"
type_synonym u32 = "32 word"
type_synonym u64 = "64 word"

text \<open>\<^verbatim>\<open>size_t\<close> is 64 bits wide on the targets of the repository (LP64).\<close>

type_synonym size_t = "64 word"
type_synonym block = "u8 list"

named_theorems chunk_simps \<open>reading one slot out of an updated byte block\<close>
named_theorems word_dist \<open>distances between wrapping counters\<close>

section \<open>Definitions\<close>

text \<open>
  \<open>memcpy dst d src s n\<close> copies \<open>n\<close> bytes from offset \<open>s\<close> of the block \<open>src\<close> to offset
  \<open>d\<close> of the block \<open>dst\<close>; leaving either block is undefined behaviour.
\<close>

definition memcpy :: "block \<Rightarrow> nat \<Rightarrow> block \<Rightarrow> nat \<Rightarrow> nat \<Rightarrow> block option" where
  "memcpy dst d src s n =
     (if d + n \<le> length dst \<and> s + n \<le> length src
      then Some (take d dst @ take n (drop s src) @ drop (d + n) dst)
      else None)"

definition chunk :: "nat \<Rightarrow> block \<Rightarrow> nat \<Rightarrow> block" where
  "chunk es bs k = take es (drop (k * es) bs)"

definition chunks :: "nat \<Rightarrow> block \<Rightarrow> nat \<Rightarrow> block list" where
  "chunks es bs n = map (chunk es bs) [0..<n]"

text \<open>The power-of-two test as the code writes it: \<^verbatim>\<open>c != 0 && (c & (c - 1)) == 0\<close>.\<close>

definition is_pow2 :: "'w::len word \<Rightarrow> bool" where
  "is_pow2 c \<longleftrightarrow> c \<noteq> 0 \<and> c AND (c - 1) = 0"

text \<open>
  What a ring holds between a start counter and a number of elements: the slots visited by
  the counter, in order. \<open>slotf\<close> turns a counter into an array index.
\<close>

definition ring_window :: "('w::len word \<Rightarrow> nat) \<Rightarrow> (nat \<Rightarrow> 'e) \<Rightarrow> 'w word \<Rightarrow> nat \<Rightarrow> 'e list" where
  "ring_window slotf f t n = map (\<lambda>i. f (slotf (t + of_nat i))) [0..<n]"

section \<open>Block copies and chunks\<close>

lemma length_memcpy: "memcpy dst d src s n = Some b \<Longrightarrow> length b = length dst"
  by (auto simp: memcpy_def split: if_splits)

lemma memcpy_in_bounds:
  "d + n \<le> length dst \<Longrightarrow> s + n \<le> length src \<Longrightarrow>
     memcpy dst d src s n = Some (take d dst @ take n (drop s src) @ drop (d + n) dst)"
  by (simp add: memcpy_def)

lemma memcpy_eq_None: "memcpy dst d src s n = None \<longleftrightarrow> length dst < d + n \<or> length src < s + n"
  by (auto simp: memcpy_def)

lemma length_chunk [simp]: "Suc k * es \<le> length bs \<Longrightarrow> length (chunk es bs k) = es"
  by (simp add: chunk_def)

lemma chunk_0 [simp]: "chunk es bs 0 = take es bs"
  by (simp add: chunk_def)

lemma length_chunks [simp]: "length (chunks es bs n) = n"
  by (simp add: chunks_def)

lemma nth_chunks [simp]: "i < n \<Longrightarrow> chunks es bs n ! i = chunk es bs i"
  by (simp add: chunks_def)

lemma mult_chunk_le: "(a::nat) + n \<le> k \<Longrightarrow> a * es + n * es \<le> k * es"
  by (metis add_mult_distrib mult_le_mono1)

text \<open>
  A copy of \<open>n\<close> whole chunks onto chunk \<open>a\<close> changes exactly the chunks \<open>a \<le> k < a + n\<close>.
\<close>

lemma chunk_memcpy [chunk_simps]:
  assumes m: "memcpy dst (a * es) src (b * es) (n * es) = Some r"
  shows "chunk es r k = (if a \<le> k \<and> k < a + n then chunk es src (b + (k - a)) else chunk es dst k)"
proof -
  have r: "r = take (a * es) dst @ take (n * es) (drop (b * es) src) @ drop (a * es + n * es) dst"
    and ld: "a * es + n * es \<le> length dst" and ls: "b * es + n * es \<le> length src"
    using m by (auto simp: memcpy_def split: if_splits)
  consider (low) "k < a" | (mid) "a \<le> k" "k < a + n" | (high) "a + n \<le> k" by linarith
  then show ?thesis
  proof cases
    case low
    then have "k * es + es \<le> a * es"
      using mult_chunk_le [of k 1 a es] by simp
    with low ld show ?thesis
      by (auto simp: r chunk_def intro!: nth_equalityI simp: nth_append)
  next
    case mid
    then obtain j where k: "k = a + j" and j: "j < n" by (metis le_iff_add nat_add_left_cancel_less)
    from j have "j * es + es \<le> n * es"
      using mult_chunk_le [of j 1 n es] by simp
    with mid ld ls show ?thesis
      by (auto simp: r chunk_def k algebra_simps intro!: nth_equalityI simp: nth_append)
  next
    case high
    then obtain j where k: "k = a + n + j" by (metis le_iff_add)
    with high ld ls show ?thesis
      by (auto simp: r chunk_def k algebra_simps intro!: nth_equalityI simp: nth_append)
  qed
qed

lemma take_concat_chunks:
  "n * es \<le> length bs \<Longrightarrow> concat (chunks es bs n) = take (n * es) bs"
proof (induction n)
  case 0
  then show ?case by (simp add: chunks_def)
next
  case (Suc n)
  then have "concat (chunks es bs n) = take (n * es) bs" by simp
  then show ?case
    by (simp add: chunks_def chunk_def take_add [of "n * es" es] add.commute [of es])
qed

lemma chunk_concat:
  "\<forall>x \<in> set xs. length x = es \<Longrightarrow> k < length xs \<Longrightarrow> chunk es (concat xs) k = xs ! k"
proof (induction xs arbitrary: k)
  case (Cons x xs)
  then show ?case by (cases k) (simp_all add: chunk_def)
qed simp

lemma chunk_drop: "chunk es (drop (a * es) bs) i = chunk es bs (a + i)"
  by (simp add: chunk_def algebra_simps)

lemma concat_chunk_run:
  assumes "(a + n) * es \<le> length bs"
  shows "concat (map (\<lambda>i. chunk es bs (a + i)) [0..<n]) = take (n * es) (drop (a * es) bs)"
proof -
  have "concat (chunks es (drop (a * es) bs) n) = take (n * es) (drop (a * es) bs)"
    using assms by (intro take_concat_chunks) (simp add: algebra_simps)
  moreover have "(\<lambda>i. chunk es bs (a + i)) = chunk es (drop (a * es) bs)"
    by (rule ext) (simp add: chunk_drop)
  ultimately show ?thesis by (simp add: chunks_def)
qed

text \<open>
  A batch that starts in slot \<open>idx\<close> of a ring of \<open>cap\<close> slots and straddles its end is two
  copies. Chunk \<open>i\<close> of the source lands in slot \<open>(idx + i) mod cap\<close>, and nothing else changes.
\<close>

lemma wrap_index:
  fixes cap :: nat
  assumes "idx < cap" "i < cap"
  shows "(idx + i) mod cap = (if idx + i < cap then idx + i else idx + i - cap)"
  using assms by (auto simp: mod_if)

lemma two_part_copy:
  assumes idx: "idx < cap" and k: "k \<le> cap"
    and f: "f = min k (cap - idx)"
    and c1: "memcpy buf (idx * es) e (0 * es) (f * es) = Some b1"
    and c2: "memcpy b1 (0 * es) e (f * es) ((k - f) * es) = Some b2"
  shows "i < k \<Longrightarrow> chunk es b2 ((idx + i) mod cap) = chunk es e i"
    and "(\<And>i. i < k \<Longrightarrow> j \<noteq> (idx + i) mod cap) \<Longrightarrow> chunk es b2 j = chunk es buf j"
proof -
  have ch: "chunk es b2 j =
      (if j < k - f then chunk es e (f + j)
       else if idx \<le> j \<and> j < idx + f then chunk es e (j - idx) else chunk es buf j)" for j
    using chunk_memcpy [OF c1, of j] chunk_memcpy [OF c2, of j] by auto
  show "chunk es b2 ((idx + i) mod cap) = chunk es e i" if "i < k"
    using that idx k by (auto simp: ch f wrap_index min_def)
  assume out: "\<And>i. i < k \<Longrightarrow> j \<noteq> (idx + i) mod cap"
  have "\<not> j < k - f"
  proof
    assume "j < k - f"
    with idx k have "f + j < k" "(idx + (f + j)) mod cap = j"
      by (auto simp: f min_def split: if_splits)
    with out show False by metis
  qed
  moreover have "\<not> (idx \<le> j \<and> j < idx + f)"
  proof
    assume "idx \<le> j \<and> j < idx + f"
    with idx k have "j - idx < k" "(idx + (j - idx)) mod cap = j" by (auto simp: f)
    with out show False by metis
  qed
  ultimately show "chunk es b2 j = chunk es buf j" by (auto simp: ch)
qed

section \<open>Power-of-two capacities\<close>

lemma nat_pow2_test: "0 < n \<Longrightarrow> n AND (n - 1) = 0 \<Longrightarrow> \<exists>k. n = 2 ^ k" for n :: nat
proof (induction n rule: less_induct)
  case (less n)
  show ?case
  proof (cases "even n")
    case True
    then obtain m where m: "n = 2 * m" by (elim evenE)
    with less.prems have m0: "0 < m" by simp
    then have "n - 1 = 2 * (m - 1) + 1" by (simp add: m)
    then have "2 * (m AND (m - 1)) = n AND (n - 1)"
      by (simp add: m and_rec [of "2 * m"])
    then have "m AND (m - 1) = 0" using less.prems by simp
    with less.IH [of m] m m0 obtain k where "m = 2 ^ k" by auto
    then show ?thesis by (intro exI [of _ "Suc k"]) (simp add: m)
  next
    case False
    then obtain m where m: "n = 2 * m + 1" by (elim oddE)
    have "2 * m = n AND (n - 1)"
      by (simp add: m and_rec [of "Suc (2 * m)"])
    then show ?thesis using less.prems m by (intro exI [of _ 0]) simp
  qed
qed

lemma unat_minus_1: "c \<noteq> 0 \<Longrightarrow> unat (c - 1) = unat c - 1" for c :: "'w::len word"
  by (metis unat_minus_one)

lemma is_pow2_unat:
  fixes c :: "'w::len word"
  assumes "is_pow2 c"
  obtains k where "k < LENGTH('w)" "unat c = 2 ^ k"
proof -
  have nz: "c \<noteq> 0" and z: "c AND (c - 1) = 0" using assms by (auto simp: is_pow2_def)
  have "unat c AND (unat c - 1) = unat (c AND (c - 1))"
    by (simp add: unsigned_and_eq unat_minus_1 nz)
  with z nz obtain k where k: "unat c = 2 ^ k"
    using nat_pow2_test [of "unat c"] by (auto simp: unat_gt_0)
  have "unat c < 2 ^ LENGTH('w)" by (rule unsigned_less)
  with k have "k < LENGTH('w)" by (simp add: nat_power_less_imp_less)
  with k show ?thesis by (rule that [rotated])
qed

lemma is_pow2_pos: "is_pow2 c \<Longrightarrow> 0 < unat c"
  by (auto simp: is_pow2_def unat_gt_0)

lemma is_pow2_le_half: "is_pow2 (c::'w::len word) \<Longrightarrow> 2 * unat c \<le> 2 ^ LENGTH('w)"
  by (erule is_pow2_unat) (metis Suc_leI power_Suc power_increasing one_le_numeral)

lemma is_pow2_dvd: "is_pow2 (c::'w::len word) \<Longrightarrow> unat c dvd 2 ^ LENGTH('w)"
  by (erule is_pow2_unat) (simp add: le_imp_power_dvd)

text \<open>Masking with \<^verbatim>\<open>capacity - 1\<close> is the remainder modulo the capacity.\<close>

lemma and_mask_is_mod:
  fixes i c :: "'w::len word"
  assumes "is_pow2 c"
  shows "unat (i AND (c - 1)) = unat i mod unat c"
proof -
  from assms obtain k where k: "k < LENGTH('w)" "unat c = 2 ^ k" by (rule is_pow2_unat)
  have nz: "c \<noteq> 0" using assms by (simp add: is_pow2_def)
  have "unat (c - 1) = mask k" using k nz by (simp add: unat_minus_1 mask_eq_exp_minus_1)
  then show ?thesis using k
    by (simp add: unsigned_and_eq take_bit_eq_mod flip: take_bit_eq_mask)
qed

section \<open>Distances between wrapping counters\<close>

lemma unat_dist_Suc [word_dist]:
  "unat (h - t) + 1 < 2 ^ LENGTH('w) \<Longrightarrow> unat (h + 1 - t) = unat (h - t) + 1"
  for h t :: "'w::len word"
proof -
  assume a: "unat (h - t) + 1 < 2 ^ LENGTH('w)"
  have "h + 1 - t = (h - t) + 1" by simp
  with a show ?thesis by (simp only: unat_plus_if') simp
qed

lemma unat_dist_add [word_dist]:
  "unat (h - t) + unat n < 2 ^ LENGTH('w) \<Longrightarrow> unat (h + n - t) = unat (h - t) + unat n"
  for h t n :: "'w::len word"
proof -
  assume a: "unat (h - t) + unat n < 2 ^ LENGTH('w)"
  have "h + n - t = (h - t) + n" by simp
  with a show ?thesis by (simp only: unat_plus_if') simp
qed

lemma unat_dist_sub [word_dist]:
  "unat n \<le> unat (h - t) \<Longrightarrow> unat (h - (t + n)) = unat (h - t) - unat n"
  for h t n :: "'w::len word"
proof -
  assume a: "unat n \<le> unat (h - t)"
  have "h - (t + n) = (h - t) - n" by simp
  with a show ?thesis by (simp only: unat_sub_if') simp
qed

lemma unat_dist_0 [word_dist]: "unat (h - t) = 0 \<longleftrightarrow> h = t" for h t :: "'w::len word"
  by (simp add: unat_eq_0)

text \<open>A counter that has not reached its target comes nearer with each increment.\<close>

lemma pending_decreases:
  fixes h t :: "'w::len word"
  assumes "h \<noteq> t"
  shows "unat (t - (h + 1)) < unat (t - h)"
proof -
  have "unat (t - h) \<noteq> 0" using assms by (simp add: unat_eq_0)
  then show ?thesis using unat_dist_sub [of 1 t h] by simp
qed

lemma unat_of_nat_le:
  fixes n :: "'w::len word"
  assumes "m \<le> unat n"
  shows "unat (of_nat m :: 'w word) = m"
proof -
  have "unat n < 2 ^ LENGTH('w)" by (rule unsigned_less)
  with assms have "m < 2 ^ LENGTH('w)" by (rule le_less_trans)
  then show ?thesis by (simp add: unat_of_nat)
qed

lemma word_dist_of_nat: "t + of_nat (unat (h - t)) = h" for h t :: "'w::len word"
  by simp

section \<open>Counting in an updated list\<close>

lemma filter_update_count:
  "t < length xs \<Longrightarrow>
     length (filter P (xs[t := v])) + of_bool (P (xs ! t)) = length (filter P xs) + of_bool (P v)"
proof (induction xs arbitrary: t)
  case Nil
  then show ?case by simp
next
  case (Cons x xs)
  show ?case
  proof (cases t)
    case (Suc n)
    with Cons.IH [of n] Cons.prems show ?thesis by simp
  qed simp
qed

section \<open>Windows of a ring\<close>

lemma length_ring_window [simp]: "length (ring_window s f t n) = n"
  by (simp add: ring_window_def)

lemma nth_ring_window [simp]: "i < n \<Longrightarrow> ring_window s f t n ! i = f (s (t + of_nat i))"
  by (simp add: ring_window_def)

lemma ring_window_0 [simp]: "ring_window s f t 0 = []"
  by (simp add: ring_window_def)

lemma ring_window_Suc: "ring_window s f t (Suc n) = f (s t) # ring_window s f (t + 1) n"
  by (auto simp: nth_Cons' add.assoc intro!: nth_equalityI split: nat.splits)

lemma ring_window_drop:
  "k \<le> n \<Longrightarrow> ring_window s f (t + of_nat k) (n - k) = drop k (ring_window s f t n)"
  by (auto simp: add.assoc intro!: nth_equalityI)

lemma ring_window_take: "k \<le> n \<Longrightarrow> ring_window s f t k = take k (ring_window s f t n)"
  by (auto intro!: nth_equalityI)

end
