(* ===== verification/Test_Program.thy ===== *)
theory Test_Program
  imports Prelude
begin

text \<open>
  What the two test programs share. A failed assertion leaves the process with status 1. An access outside
  an object or through a null pointer, or an exception that is not caught, is \<open>Crashed\<close>. A schedule that ends
  before the threads of a concurrent test have left their loops is \<open>Unfinished\<close>.
\<close>

section \<open>Definitions\<close>

datatype 'a test = Ok 'a | Exited int | Crashed | Unfinished

fun and_then :: "'a test \<Rightarrow> ('a \<Rightarrow> 'b test) \<Rightarrow> 'b test" where
  "and_then (Ok a) k = k a"
| "and_then (Exited c) k = Exited c"
| "and_then Crashed k = Crashed"
| "and_then Unfinished k = Unfinished"

definition call :: "'a option \<Rightarrow> ('a \<Rightarrow> 'b test) \<Rightarrow> 'b test" where
  "call x k = (case x of None \<Rightarrow> Crashed | Some a \<Rightarrow> k a)"

text \<open>\<^verbatim>\<open>ASSERT_TRUE\<close> and \<^verbatim>\<open>ASSERT_EQ\<close>.\<close>

definition ASSERT :: "bool \<Rightarrow> 'a test \<Rightarrow> 'a test" where
  "ASSERT c k = (if c then k else Exited 1)"

section \<open>Tests that pass\<close>

text \<open>
  A test that passes with a result that satisfies \<open>Q\<close>. There is one rule for each statement of a test; the
  rules for the calls, which say what they return and what the queue holds afterwards, are with the tests.
\<close>

definition passes :: "'a test \<Rightarrow> ('a \<Rightarrow> bool) \<Rightarrow> bool" where
  "passes m Q \<longleftrightarrow> (\<exists>a. m = Ok a \<and> Q a)"

lemma passes_Ok: "Q a \<Longrightarrow> passes (Ok a) Q"
  by (simp add: passes_def)

lemma passes_mono: "passes m Q \<Longrightarrow> (\<And>a. Q a \<Longrightarrow> R a) \<Longrightarrow> passes m R"
  by (auto simp: passes_def)

lemma passes_ASSERT: "c \<Longrightarrow> passes k Q \<Longrightarrow> passes (ASSERT c k) Q"
  by (simp add: ASSERT_def)

lemma passes_then: "passes m R \<Longrightarrow> (\<And>a. R a \<Longrightarrow> passes (k a) Q) \<Longrightarrow> passes (and_then m k) Q"
  by (auto simp: passes_def)

end
