(* ===== verification/Ring_Interfaces.thy ===== *)
theory Ring_Interfaces
  imports Prelude
begin

text \<open>
  The two contracts the ring buffers of the repository share.

  \<open>ring_index\<close> is the contract of an index computation (\<^verbatim>\<open>idx & mask\<close> in
  \<^verbatim>\<open>spsc_ring.c\<close>, \<^verbatim>\<open>nic.c\<close> and \<^verbatim>\<open>dma_engine.c\<close>, \<^verbatim>\<open>idx % capacity_\<close> in
  \<^verbatim>\<open>mpmc_queue.hpp\<close>): counters less than one capacity apart use different slots. What a
  write does to the window of live elements is proved once, inside the locale.

  \<open>bounded_fifo\<close> is the contract of a queue: an invariant, the list of queued elements,
  and what push and pop do to that list. The lemma \<open>run_refines\<close> lifts it to arbitrary
  sequences of operations: the queue cannot be told apart from a bounded list.
\<close>

section \<open>Definitions\<close>

datatype 'e fifo_op = Push 'e | Pop

text \<open>The observable result of one operation; a failed push or pop is an ordinary value.\<close>

datatype 'e fifo_res = Pushed bool | Popped "'e option"

text \<open>The specification: a list of at most \<open>cap\<close> elements.\<close>

fun spec_step :: "nat \<Rightarrow> 'e list \<Rightarrow> 'e fifo_op \<Rightarrow> 'e fifo_res \<times> 'e list" where
  "spec_step cap xs (Push x) = (if length xs < cap then (Pushed True, xs @ [x]) else (Pushed False, xs))"
| "spec_step cap xs Pop = (case xs of [] \<Rightarrow> (Popped None, []) | y # ys \<Rightarrow> (Popped (Some y), ys))"

fun spec_run :: "nat \<Rightarrow> 'e list \<Rightarrow> 'e fifo_op list \<Rightarrow> 'e fifo_res list \<times> 'e list" where
  "spec_run cap xs [] = ([], xs)"
| "spec_run cap xs (p # ps) =
     (let (r, ys) = spec_step cap xs p; (rs, zs) = spec_run cap ys ps in (r # rs, zs))"

text \<open>The same run on an implementation; \<open>None\<close> is undefined behaviour.\<close>

fun impl_step ::
  "('q \<Rightarrow> 'e \<Rightarrow> (bool \<times> 'q) option) \<Rightarrow> ('q \<Rightarrow> ('e option \<times> 'q) option) \<Rightarrow> 'q \<Rightarrow> 'e fifo_op \<Rightarrow>
     ('e fifo_res \<times> 'q) option" where
  "impl_step push pop q (Push x) = (case push q x of None \<Rightarrow> None | Some (b, q') \<Rightarrow> Some (Pushed b, q'))"
| "impl_step push pop q Pop = (case pop q of None \<Rightarrow> None | Some (y, q') \<Rightarrow> Some (Popped y, q'))"

fun impl_run ::
  "('q \<Rightarrow> 'e \<Rightarrow> (bool \<times> 'q) option) \<Rightarrow> ('q \<Rightarrow> ('e option \<times> 'q) option) \<Rightarrow> 'q \<Rightarrow> 'e fifo_op list \<Rightarrow>
     ('e fifo_res list \<times> 'q) option" where
  "impl_run push pop q [] = Some ([], q)"
| "impl_run push pop q (p # ps) =
     (case impl_step push pop q p of None \<Rightarrow> None
      | Some (r, q') \<Rightarrow> (case impl_run push pop q' ps of None \<Rightarrow> None
                        | Some (rs, q'') \<Rightarrow> Some (r # rs, q'')))"

fun op_ok :: "('e \<Rightarrow> bool) \<Rightarrow> 'e fifo_op \<Rightarrow> bool" where
  "op_ok ok (Push x) = ok x"
| "op_ok ok Pop = True"

section \<open>Index computations\<close>

locale ring_index =
  fixes slot :: "'r \<Rightarrow> 'w::len word \<Rightarrow> nat"
    and cap :: "'r \<Rightarrow> nat"
    and ok :: "'r \<Rightarrow> 'w word \<Rightarrow> bool"
  assumes slot_less: "ok r t \<Longrightarrow> slot r c < cap r"
    and slot_inj: "ok r t \<Longrightarrow> i < cap r \<Longrightarrow> j < cap r \<Longrightarrow>
      slot r (t + of_nat i) = slot r (t + of_nat j) \<Longrightarrow> i = j"
begin

text \<open>Writing one slot just behind the window appends one element.\<close>

lemma window_push:
  assumes "ok r t" "n < cap r"
    and "g (slot r (t + of_nat n)) = x"
    and "\<And>k. k \<noteq> slot r (t + of_nat n) \<Longrightarrow> g k = f k"
  shows "ring_window (slot r) g t (Suc n) = ring_window (slot r) f t n @ [x]"
proof (rule nth_equalityI)
  fix i assume "i < length (ring_window (slot r) g t (Suc n))"
  then have i: "i < Suc n" by simp
  show "ring_window (slot r) g t (Suc n) ! i = (ring_window (slot r) f t n @ [x]) ! i"
  proof (cases "i = n")
    case False
    with i assms(2) have "slot r (t + of_nat i) \<noteq> slot r (t + of_nat n)"
      using slot_inj [OF assms(1), of i n] by auto
    with False i assms show ?thesis by (simp add: nth_append)
  qed (use assms in \<open>simp add: nth_append\<close>)
qed simp

text \<open>
  Writing the \<open>length xs\<close> slots behind the window appends \<open>xs\<close>, when window and batch
  together fit the ring.
\<close>

lemma window_push_n:
  assumes "ok r t" "n + length xs \<le> cap r"
    and new: "\<And>i. i < length xs \<Longrightarrow> g (slot r (t + of_nat (n + i))) = xs ! i"
    and old: "\<And>k. (\<And>i. i < length xs \<Longrightarrow> k \<noteq> slot r (t + of_nat (n + i))) \<Longrightarrow> g k = f k"
  shows "ring_window (slot r) g t (n + length xs) = ring_window (slot r) f t n @ xs"
proof (rule nth_equalityI)
  fix i assume "i < length (ring_window (slot r) g t (n + length xs))"
  then have i: "i < n + length xs" by simp
  show "ring_window (slot r) g t (n + length xs) ! i = (ring_window (slot r) f t n @ xs) ! i"
  proof (cases "i < n")
    case True
    have "slot r (t + of_nat i) \<noteq> slot r (t + of_nat (n + j))" if "j < length xs" for j
      using slot_inj [OF assms(1), of i "n + j"] True that assms(2) by auto
    with True i old show ?thesis by (simp add: nth_append)
  next
    case False
    then obtain j where "i = n + j" by (metis le_iff_add not_less)
    with i new show ?thesis by (simp add: nth_append)
  qed
qed simp

end

text \<open>
  Masking with \<^verbatim>\<open>capacity - 1\<close>: correct for every counter value, across the wrap-around of
  the counter, exactly because the capacity is a power of two.
\<close>

lemma mod_window_inj_le:
  fixes a N :: nat
  assumes "i \<le> j" "j < N" "(a + i) mod N = (a + j) mod N"
  shows "i = j"
proof -
  have "N dvd (a + j) - (a + i)"
    using assms mod_eq_dvd_iff_nat [of "a + i" "a + j" N] by simp
  with assms show ?thesis by (auto dest: dvd_imp_le)
qed

lemma mod_window_inj:
  "i < N \<Longrightarrow> j < N \<Longrightarrow> (a + i) mod N = (a + j) mod N \<Longrightarrow> i = j" for a N :: nat
  using mod_window_inj_le [of i j N a] mod_window_inj_le [of j i N a] by (cases "i \<le> j") auto

lemma unat_plus_mod_dvd:
  fixes t :: "'w::len word"
  assumes "N dvd 2 ^ LENGTH('w)"
  shows "unat (t + of_nat i) mod N = (unat t + i) mod N"
proof -
  have "unat (t + of_nat i) = (unat t + i) mod 2 ^ LENGTH('w)"
    by (simp add: unat_word_ariths unat_of_nat mod_simps)
  then show ?thesis using assms by (simp add: mod_mod_cancel)
qed

interpretation mask_ring: ring_index "\<lambda>c i. unat (i AND (c - 1))" unat "\<lambda>c t. is_pow2 c"
proof unfold_locales
  fix c t i :: "'w::len word" assume "is_pow2 c"
  then show "unat (i AND (c - 1)) < unat c"
    by (simp add: and_mask_is_mod is_pow2_pos)
next
  fix c t :: "'w::len word" and i j
  assume p: "is_pow2 c" and b: "i < unat c" "j < unat c"
    and e: "unat ((t + of_nat i) AND (c - 1)) = unat ((t + of_nat j) AND (c - 1))"
  from e p have "(unat t + i) mod unat c = (unat t + j) mod unat c"
    by (simp add: and_mask_is_mod unat_plus_mod_dvd is_pow2_dvd)
  with b show "i = j" by (rule mod_window_inj)
qed

section \<open>Bounded queues\<close>

locale bounded_fifo =
  fixes inv :: "'q \<Rightarrow> bool"
    and elems :: "'q \<Rightarrow> 'e list"
    and room :: "'q \<Rightarrow> nat"
    and fits :: "'q \<Rightarrow> 'e \<Rightarrow> bool"
    and push :: "'q \<Rightarrow> 'e \<Rightarrow> (bool \<times> 'q) option"
    and pop :: "'q \<Rightarrow> ('e option \<times> 'q) option"
  assumes push_room: "inv q \<Longrightarrow> fits q x \<Longrightarrow> length (elems q) < room q \<Longrightarrow>
      \<exists>q'. push q x = Some (True, q') \<and> inv q' \<and> elems q' = elems q @ [x] \<and>
           room q' = room q \<and> fits q' = fits q"
    and push_full: "inv q \<Longrightarrow> fits q x \<Longrightarrow> room q \<le> length (elems q) \<Longrightarrow>
      \<exists>q'. push q x = Some (False, q') \<and> inv q' \<and> elems q' = elems q \<and>
           room q' = room q \<and> fits q' = fits q"
    and pop_some: "inv q \<Longrightarrow> elems q = y # ys \<Longrightarrow>
      \<exists>q'. pop q = Some (Some y, q') \<and> inv q' \<and> elems q' = ys \<and>
           room q' = room q \<and> fits q' = fits q"
    and pop_empty: "inv q \<Longrightarrow> elems q = [] \<Longrightarrow>
      \<exists>q'. pop q = Some (None, q') \<and> inv q' \<and> elems q' = [] \<and>
           room q' = room q \<and> fits q' = fits q"
begin

lemma step_refines:
  assumes "inv q" "op_ok (fits q) p"
  shows "\<exists>q'. impl_step push pop q p = Some (fst (spec_step (room q) (elems q) p), q') \<and> inv q' \<and>
           elems q' = snd (spec_step (room q) (elems q) p) \<and> room q' = room q \<and> fits q' = fits q"
proof (cases p)
  case (Push x)
  with assms show ?thesis
    using push_room [of q x] push_full [of q x] by (cases "length (elems q) < room q") auto
next
  case Pop
  with assms show ?thesis
    using pop_some [of q] pop_empty [of q] by (cases "elems q") auto
qed

theorem run_refines:
  "inv q \<Longrightarrow> \<forall>p \<in> set ps. op_ok (fits q) p \<Longrightarrow>
     \<exists>q'. impl_run push pop q ps = Some (fst (spec_run (room q) (elems q) ps), q') \<and> inv q' \<and>
          elems q' = snd (spec_run (room q) (elems q) ps) \<and> room q' = room q"
proof (induction ps arbitrary: q)
  case Nil
  then show ?case by simp
next
  case (Cons p ps)
  from Cons.prems obtain q1 where q1:
      "impl_step push pop q p = Some (fst (spec_step (room q) (elems q) p), q1)" "inv q1"
      "elems q1 = snd (spec_step (room q) (elems q) p)" "room q1 = room q" "fits q1 = fits q"
    using step_refines [of q p] by auto
  with Cons.prems obtain q2 where
      "impl_run push pop q1 ps = Some (fst (spec_run (room q) (elems q1) ps), q2)" "inv q2"
      "elems q2 = snd (spec_run (room q) (elems q1) ps)" "room q2 = room q"
    using Cons.IH [of q1] by auto
  with q1 show ?case by (auto simp: case_prod_beta Let_def)
qed

end

text \<open>A specification queue never holds more than its capacity.\<close>

lemma spec_run_bounded:
  "length xs \<le> cap \<Longrightarrow> length (snd (spec_run cap xs ps)) \<le> cap"
proof (induction ps arbitrary: xs)
  case Nil
  then show ?case by simp
next
  case (Cons p ps)
  have "length (snd (spec_step cap xs p)) \<le> cap"
    using Cons.prems by (cases p) (auto split: list.splits)
  with Cons.IH show ?case by (simp add: case_prod_beta Let_def)
qed

end
