(* ===== verification/Spsc_Ring.thy ===== *)
theory Spsc_Ring
  imports Ring_Interfaces
begin

text \<open>
  The single-producer single-consumer ring of \<^verbatim>\<open>01-spsc-ring-buffer-c/spsc_ring.c\<close>, one call
  at a time: the record has the fields of \<^verbatim>\<open>struct spsc_ring\<close>, the functions have the
  statements of the C functions in their order, with 64-bit wrapping counters and every
  \<^verbatim>\<open>memcpy\<close> bounds-checked (\<open>None\<close> is a heap overrun). The atomic loads and stores are
  plain here, since no other thread runs during a call; \<open>Spsc_Concurrent\<close> interleaves them.

  \<^verbatim>\<open>malloc\<close> and \<^verbatim>\<open>aligned_alloc\<close> are arguments of \<open>spsc_ring_create\<close>, because their
  outcome is not determined by the call. Pointers into \<^verbatim>\<open>buf\<close> are offsets into the block.
\<close>

section \<open>Definitions\<close>

record spsc_ring =
  sr_capacity :: size_t
  sr_mask :: size_t
  sr_element_size :: size_t
  sr_buf :: block
  sr_head :: u64
  sr_cached_tail :: u64
  sr_tail :: u64
  sr_cached_head :: u64

subsection \<open>Allocation\<close>

datatype heap_block = Ring_Block | Buf_Block
datatype heap_event = Alloc heap_block nat | Free heap_block

text \<open>The blocks still allocated after a sequence of heap events.\<close>

fun live :: "heap_block list \<Rightarrow> heap_event list \<Rightarrow> heap_block list" where
  "live bs [] = bs"
| "live bs (Alloc b n # es) = live (b # bs) es"
| "live bs (Free b # es) = live (remove1 b bs) es"

text \<open>
  \<^verbatim>\<open>sizeof(spsc_ring_t)\<close>: one 64-byte line for the read-only fields and one for each of
  \<^verbatim>\<open>head\<close>, \<^verbatim>\<open>cached_tail\<close>, \<^verbatim>\<open>tail\<close> and \<^verbatim>\<open>cached_head\<close>.
\<close>

definition sizeof_spsc_ring :: size_t where
  "sizeof_spsc_ring = 5 * 64"

definition struct_sz :: "size_t \<Rightarrow> size_t" where
  "struct_sz sz = (sz + 63) AND NOT 63"

definition spsc_ring_create ::
  "(nat \<Rightarrow> bool) \<Rightarrow> (nat \<Rightarrow> block option) \<Rightarrow> size_t \<Rightarrow> size_t \<Rightarrow>
     spsc_ring option \<times> heap_event list" where
  "spsc_ring_create aligned_alloc malloc capacity elem_size =
     (if capacity = 0 \<or> (capacity AND (capacity - 1)) \<noteq> 0 \<or> elem_size = 0 then (None, [])
      else
        let sz = unat (struct_sz sizeof_spsc_ring); bsz = unat (capacity * elem_size) in
        if \<not> aligned_alloc sz then (None, [])
        else
          (case malloc bsz of
             None \<Rightarrow> (None, [Alloc Ring_Block sz, Free Ring_Block])
           | Some b \<Rightarrow>
               (Some \<lparr> sr_capacity = capacity, sr_mask = capacity - 1,
                       sr_element_size = elem_size, sr_buf = b, sr_head = 0,
                       sr_cached_tail = 0, sr_tail = 0, sr_cached_head = 0 \<rparr>,
                [Alloc Ring_Block sz, Alloc Buf_Block bsz])))"

definition spsc_ring_destroy :: "spsc_ring \<Rightarrow> heap_event list" where
  "spsc_ring_destroy r = [Free Buf_Block, Free Ring_Block]"

definition spsc_address_of_index :: "spsc_ring \<Rightarrow> u64 \<Rightarrow> nat" where
  "spsc_address_of_index r idx = unat ((idx AND sr_mask r) * sr_element_size r)"

subsection \<open>Single elements\<close>

definition spsc_ring_push :: "spsc_ring \<Rightarrow> block \<Rightarrow> (int \<times> spsc_ring) option" where
  "spsc_ring_push r e =
     (let head = sr_head r;
          (full, r) =
            (if head - sr_cached_tail r \<ge> sr_capacity r
             then let r = r\<lparr>sr_cached_tail := sr_tail r\<rparr>
                  in (head - sr_cached_tail r \<ge> sr_capacity r, r)
             else (False, r))
      in if full then Some (-1, r)
         else do {
           b \<leftarrow> memcpy (sr_buf r) (spsc_address_of_index r head) e 0 (unat (sr_element_size r));
           Some (0, r\<lparr>sr_buf := b, sr_head := head + 1\<rparr>)
         })"

definition spsc_ring_pop :: "spsc_ring \<Rightarrow> block \<Rightarrow> (int \<times> block \<times> spsc_ring) option" where
  "spsc_ring_pop r e =
     (let tail = sr_tail r;
          (empty, r) =
            (if tail = sr_cached_head r
             then let r = r\<lparr>sr_cached_head := sr_head r\<rparr> in (tail = sr_cached_head r, r)
             else (False, r))
      in if empty then Some (-1, e, r)
         else do {
           e' \<leftarrow> memcpy e 0 (sr_buf r) (spsc_address_of_index r tail) (unat (sr_element_size r));
           Some (0, e', r\<lparr>sr_tail := tail + 1\<rparr>)
         })"

subsection \<open>Batches\<close>

text \<open>
  The copy of a batch into and out of the ring, shared by every batch size: from slot
  \<^verbatim>\<open>idx\<close> to the end of the buffer, and the rest from the start of the buffer.
\<close>

definition spsc_first :: "spsc_ring \<Rightarrow> u64 \<Rightarrow> size_t \<Rightarrow> size_t" where
  "spsc_first r i n =
     (let first = sr_capacity r - (i AND sr_mask r) in if first > n then n else first)"

definition spsc_copy_in :: "spsc_ring \<Rightarrow> block \<Rightarrow> size_t \<Rightarrow> block option" where
  "spsc_copy_in r e n =
     (let idx = sr_head r AND sr_mask r; first = spsc_first r (sr_head r) n;
          es = sr_element_size r
      in do {
        b \<leftarrow> memcpy (sr_buf r) (unat (idx * es)) e 0 (unat (first * es));
        (if n > first then memcpy b 0 e (unat (first * es)) (unat ((n - first) * es)) else Some b)
      })"

definition spsc_copy_out :: "spsc_ring \<Rightarrow> block \<Rightarrow> size_t \<Rightarrow> block option" where
  "spsc_copy_out r e n =
     (let idx = sr_tail r AND sr_mask r; first = spsc_first r (sr_tail r) n;
          es = sr_element_size r
      in do {
        e \<leftarrow> memcpy e 0 (sr_buf r) (unat (idx * es)) (unat (first * es));
        (if n > first then memcpy e (unat (first * es)) (sr_buf r) 0 (unat ((n - first) * es))
         else Some e)
      })"

definition spsc_ring_push_n :: "spsc_ring \<Rightarrow> block \<Rightarrow> size_t \<Rightarrow> (size_t \<times> spsc_ring) option" where
  "spsc_ring_push_n r e n =
     (let head = sr_head r;
          remaining = sr_capacity r - (head - sr_cached_tail r);
          (n, r) =
            (if remaining < n
             then let r = r\<lparr>sr_cached_tail := sr_tail r\<rparr>;
                      remaining = sr_capacity r - (head - sr_cached_tail r)
                  in (if remaining < n then remaining else n, r)
             else (n, r))
      in if n = 0 then Some (0, r)
         else do {
           b \<leftarrow> spsc_copy_in r e n;
           Some (n, r\<lparr>sr_buf := b, sr_head := head + n\<rparr>)
         })"

definition spsc_ring_pop_n ::
  "spsc_ring \<Rightarrow> block \<Rightarrow> size_t \<Rightarrow> (size_t \<times> block \<times> spsc_ring) option" where
  "spsc_ring_pop_n r e n =
     (let tail = sr_tail r;
          avail = sr_cached_head r - tail;
          (n, r) =
            (if avail < n
             then let r = r\<lparr>sr_cached_head := sr_head r\<rparr>;
                      avail = sr_cached_head r - tail
                  in (if avail < n then avail else n, r)
             else (n, r))
      in if n = 0 then Some (0, e, r)
         else do {
           e \<leftarrow> spsc_copy_out r e n;
           Some (n, e, r\<lparr>sr_tail := tail + n\<rparr>)
         })"

subsection \<open>Snapshots\<close>

definition spsc_ring_size :: "spsc_ring \<Rightarrow> size_t" where
  "spsc_ring_size r = sr_head r - sr_tail r"

definition spsc_ring_capacity :: "spsc_ring \<Rightarrow> size_t" where
  "spsc_ring_capacity r = sr_capacity r"

definition spsc_ring_empty :: "spsc_ring \<Rightarrow> bool" where
  "spsc_ring_empty r \<longleftrightarrow> spsc_ring_size r = 0"

definition spsc_ring_full :: "spsc_ring \<Rightarrow> bool" where
  "spsc_ring_full r \<longleftrightarrow> spsc_ring_size r = sr_capacity r"

subsection \<open>Specification: invariant and queued elements\<close>

text \<open>
  The counters are compared by their distance, so the invariant does not mention whether
  they have wrapped around: \<^verbatim>\<open>tail\<close> is at most one capacity behind \<^verbatim>\<open>head\<close>, the producer's
  \<^verbatim>\<open>cached_tail\<close> is at or behind \<^verbatim>\<open>tail\<close>, the consumer's \<^verbatim>\<open>cached_head\<close> lies between
  \<^verbatim>\<open>tail\<close> and \<^verbatim>\<open>head\<close>.
\<close>

definition spsc_inv :: "spsc_ring \<Rightarrow> bool" where
  "spsc_inv r \<longleftrightarrow>
     is_pow2 (sr_capacity r) \<and> sr_mask r = sr_capacity r - 1 \<and> sr_element_size r \<noteq> 0 \<and>
     length (sr_buf r) = unat (sr_capacity r) * unat (sr_element_size r) \<and>
     length (sr_buf r) < 2 ^ 64 \<and>
     unat (sr_head r - sr_tail r) \<le> unat (sr_head r - sr_cached_tail r) \<and>
     unat (sr_head r - sr_cached_tail r) \<le> unat (sr_capacity r) \<and>
     unat (sr_cached_head r - sr_tail r) \<le> unat (sr_head r - sr_tail r)"

abbreviation spsc_slot :: "spsc_ring \<Rightarrow> u64 \<Rightarrow> nat" where
  "spsc_slot r i \<equiv> unat (i AND (sr_capacity r - 1))"

definition spsc_elems :: "spsc_ring \<Rightarrow> block list" where
  "spsc_elems r =
     ring_window (spsc_slot r) (chunk (unat (sr_element_size r)) (sr_buf r)) (sr_tail r)
       (unat (sr_head r - sr_tail r))"

text \<open>The operations seen as those of a bounded queue of elements.\<close>

definition spsc_push_op :: "spsc_ring \<Rightarrow> block \<Rightarrow> (bool \<times> spsc_ring) option" where
  "spsc_push_op r e = do { (c, r') \<leftarrow> spsc_ring_push r e; Some (c = 0, r') }"

definition spsc_pop_op :: "spsc_ring \<Rightarrow> (block option \<times> spsc_ring) option" where
  "spsc_pop_op r = do {
     (c, e, r') \<leftarrow> spsc_ring_pop r (replicate (unat (sr_element_size r)) 0);
     Some (if c = 0 then Some e else None, r') }"

lemma live_append: "live bs (xs @ ys) = live (live bs xs) ys"
  by (induction bs xs rule: live.induct) simp_all

section \<open>Offsets\<close>

lemma spsc_inv_slot_less: "spsc_inv r \<Longrightarrow> spsc_slot r i < unat (sr_capacity r)"
  by (rule mask_ring.slot_less) (simp add: spsc_inv_def)

lemma unat_mult_in_block:
  fixes a b :: "'w::len word"
  assumes "unat a * unat b < 2 ^ LENGTH('w)"
  shows "unat (a * b) = unat a * unat b"
  using assms by (simp add: unat_word_ariths)

lemma spsc_chunk_bound:
  assumes "spsc_inv r" "k \<le> unat (sr_capacity r)"
  shows "k * unat (sr_element_size r) \<le> length (sr_buf r)"
  using assms by (simp add: spsc_inv_def)

lemma unat_mult_es:
  assumes "spsc_inv r" "unat k \<le> unat (sr_capacity r)"
  shows "unat (k * sr_element_size r) = unat k * unat (sr_element_size r)"
proof (rule unat_mult_in_block)
  have "unat k * unat (sr_element_size r) \<le> length (sr_buf r)"
    using assms by (rule spsc_chunk_bound)
  also have "\<dots> < 2 ^ LENGTH(64)" using assms by (simp add: spsc_inv_def)
  finally show "unat k * unat (sr_element_size r) < 2 ^ LENGTH(64)" .
qed

lemma spsc_address:
  assumes "spsc_inv r"
  shows "spsc_address_of_index r i = spsc_slot r i * unat (sr_element_size r)"
  using assms unat_mult_es [OF assms, of "i AND sr_mask r"] spsc_inv_slot_less [OF assms, of i]
  by (simp add: spsc_address_of_index_def spsc_inv_def)

section \<open>Publishing and consuming slots\<close>

lemma spsc_inv_cap_half: "spsc_inv r \<Longrightarrow> 2 * unat (sr_capacity r) \<le> 2 ^ 64"
  using is_pow2_le_half [of "sr_capacity r"] by (simp add: spsc_inv_def)

lemma spsc_inv_cap_pos: "spsc_inv r \<Longrightarrow> 0 < unat (sr_capacity r)"
  by (simp add: spsc_inv_def is_pow2_pos)

lemma length_spsc_elems: "length (spsc_elems r) = unat (sr_head r - sr_tail r)"
  by (simp add: spsc_elems_def)

lemma spsc_elems_le_capacity: "spsc_inv r \<Longrightarrow> length (spsc_elems r) \<le> unat (sr_capacity r)"
  by (simp add: spsc_elems_def spsc_inv_def)

text \<open>Refreshing a cached counter changes neither the invariant nor the queued elements.\<close>

lemma spsc_refresh_tail:
  assumes "spsc_inv r"
  shows "spsc_inv (r\<lparr>sr_cached_tail := sr_tail r\<rparr>)"
    and "spsc_elems (r\<lparr>sr_cached_tail := sr_tail r\<rparr>) = spsc_elems r"
  using assms by (auto simp: spsc_inv_def spsc_elems_def)

lemma spsc_refresh_head:
  assumes "spsc_inv r"
  shows "spsc_inv (r\<lparr>sr_cached_head := sr_head r\<rparr>)"
    and "spsc_elems (r\<lparr>sr_cached_head := sr_head r\<rparr>) = spsc_elems r"
  using assms by (auto simp: spsc_inv_def spsc_elems_def)

text \<open>
  Advancing \<^verbatim>\<open>head\<close> by \<open>n\<close> after writing the next \<open>n\<close> slots appends their contents. The
  producer knows only \<^verbatim>\<open>cached_tail\<close>; that its check passed is enough.
\<close>

lemma spsc_publish:
  assumes inv: "spsc_inv r" and n: "unat n = length xs"
    and room: "unat (sr_head r - sr_cached_tail r) + length xs \<le> unat (sr_capacity r)"
    and len: "length b = length (sr_buf r)"
    and new: "\<And>i. i < length xs \<Longrightarrow>
      chunk (unat (sr_element_size r)) b (spsc_slot r (sr_head r + of_nat i)) = xs ! i"
    and old: "\<And>k. (\<And>i. i < length xs \<Longrightarrow> k \<noteq> spsc_slot r (sr_head r + of_nat i)) \<Longrightarrow>
      chunk (unat (sr_element_size r)) b k = chunk (unat (sr_element_size r)) (sr_buf r) k"
  shows "spsc_inv (r\<lparr>sr_buf := b, sr_head := sr_head r + n\<rparr>)"
    and "spsc_elems (r\<lparr>sr_buf := b, sr_head := sr_head r + n\<rparr>) = spsc_elems r @ xs"
proof -
  let ?d = "unat (sr_head r - sr_tail r)"
  have pow: "is_pow2 (sr_capacity r)" using inv by (simp add: spsc_inv_def)
  have dt: "?d \<le> unat (sr_head r - sr_cached_tail r)" using inv by (simp add: spsc_inv_def)
  have half: "2 * unat (sr_capacity r) \<le> 2 ^ 64" using inv by (rule spsc_inv_cap_half)
  have pos: "0 < unat (sr_capacity r)" using inv by (rule spsc_inv_cap_pos)
  have d1: "unat (sr_head r + n - sr_tail r) = ?d + length xs"
    using dt room half pos by (subst unat_dist_add) (auto simp: n)
  have d2: "unat (sr_head r + n - sr_cached_tail r) = unat (sr_head r - sr_cached_tail r) + length xs"
    using room half pos by (subst unat_dist_add) (auto simp: n)
  show "spsc_inv (r\<lparr>sr_buf := b, sr_head := sr_head r + n\<rparr>)"
    using inv room dt by (simp add: spsc_inv_def d1 d2 len)
  have w: "sr_tail r + of_nat (?d + i) = sr_head r + of_nat i" for i
    by simp
  show "spsc_elems (r\<lparr>sr_buf := b, sr_head := sr_head r + n\<rparr>) = spsc_elems r @ xs"
    unfolding spsc_elems_def
    using mask_ring.window_push_n [OF pow, of ?d xs "chunk (unat (sr_element_size r)) b" "sr_tail r"
        "chunk (unat (sr_element_size r)) (sr_buf r)"] new old room dt
    by (simp add: d1 w)
qed

text \<open>Advancing \<^verbatim>\<open>tail\<close> by \<open>n\<close> drops the first \<open>n\<close> elements.\<close>

lemma spsc_consume:
  assumes inv: "spsc_inv r" and n: "unat n \<le> unat (sr_cached_head r - sr_tail r)"
  shows "spsc_inv (r\<lparr>sr_tail := sr_tail r + n\<rparr>)"
    and "spsc_elems (r\<lparr>sr_tail := sr_tail r + n\<rparr>) = drop (unat n) (spsc_elems r)"
proof -
  have le: "unat n \<le> unat (sr_head r - sr_tail r)"
    using inv n by (simp add: spsc_inv_def)
  show "spsc_inv (r\<lparr>sr_tail := sr_tail r + n\<rparr>)"
    using inv n le by (auto simp: spsc_inv_def unat_dist_sub)
  show "spsc_elems (r\<lparr>sr_tail := sr_tail r + n\<rparr>) = drop (unat n) (spsc_elems r)"
    using le by (simp add: spsc_elems_def unat_dist_sub flip: ring_window_drop)
qed

lemma nth_spsc_elems:
  "i < unat (sr_head r - sr_tail r) \<Longrightarrow>
     spsc_elems r ! i =
       chunk (unat (sr_element_size r)) (sr_buf r) (spsc_slot r (sr_tail r + of_nat i))"
  by (simp add: spsc_elems_def)

section \<open>Single elements\<close>

lemma spsc_push_write:
  assumes inv: "spsc_inv r" and e: "unat (sr_element_size r) \<le> length e"
    and room: "unat (sr_head r - sr_cached_tail r) < unat (sr_capacity r)"
  obtains b where
    "memcpy (sr_buf r) (spsc_address_of_index r (sr_head r)) e 0 (unat (sr_element_size r)) = Some b"
    "spsc_inv (r\<lparr>sr_buf := b, sr_head := sr_head r + 1\<rparr>)"
    "spsc_elems (r\<lparr>sr_buf := b, sr_head := sr_head r + 1\<rparr>) =
       spsc_elems r @ [take (unat (sr_element_size r)) e]"
proof -
  let ?es = "unat (sr_element_size r)" and ?s = "spsc_slot r (sr_head r)"
  have "?s * ?es + 1 * ?es \<le> unat (sr_capacity r) * ?es"
    using spsc_inv_slot_less [OF inv, of "sr_head r"] by (intro mult_chunk_le) simp
  then obtain b where b: "memcpy (sr_buf r) (?s * ?es) e (0 * ?es) (1 * ?es) = Some b"
    using inv e by (simp add: memcpy_def spsc_inv_def)
  note ch = chunk_memcpy [OF b] and len = length_memcpy [OF b]
  have "spsc_inv (r\<lparr>sr_buf := b, sr_head := sr_head r + 1\<rparr>)"
    using room by (intro spsc_publish [OF inv, where xs = "[take ?es e]"])
      (auto simp: len ch)
  moreover have "spsc_elems (r\<lparr>sr_buf := b, sr_head := sr_head r + 1\<rparr>) = spsc_elems r @ [take ?es e]"
    using room by (intro spsc_publish [OF inv]) (auto simp: len ch)
  ultimately show ?thesis using b by (intro that) (simp_all add: spsc_address [OF inv])
qed

text \<open>The two-stage full check decides exactly whether the ring is full.\<close>

lemma spsc_push_cases:
  assumes inv: "spsc_inv r"
  obtains (full) "length (spsc_elems r) = unat (sr_capacity r)"
      "spsc_ring_push r e = Some (-1, r\<lparr>sr_cached_tail := sr_tail r\<rparr>)"
  | (room) r1 where "length (spsc_elems r) < unat (sr_capacity r)"
      "r1 = r \<or> r1 = r\<lparr>sr_cached_tail := sr_tail r\<rparr>"
      "unat (sr_head r1 - sr_cached_tail r1) < unat (sr_capacity r1)"
      "spsc_ring_push r e =
         do { b \<leftarrow> memcpy (sr_buf r1) (spsc_address_of_index r1 (sr_head r1)) e 0
                     (unat (sr_element_size r1));
              Some (0, r1\<lparr>sr_buf := b, sr_head := sr_head r1 + 1\<rparr>) }"
proof (cases "sr_head r - sr_cached_tail r \<ge> sr_capacity r")
  case looks_full: True
  show ?thesis
  proof (cases "sr_head r - sr_tail r \<ge> sr_capacity r")
    case True
    with inv have "length (spsc_elems r) = unat (sr_capacity r)"
      using spsc_elems_le_capacity [OF inv] by (simp add: length_spsc_elems word_le_nat_alt)
    with looks_full True show ?thesis by (intro full) (simp_all add: spsc_ring_push_def Let_def)
  next
    case False
    with looks_full show ?thesis
      by (intro room [of "r\<lparr>sr_cached_tail := sr_tail r\<rparr>"])
        (simp_all add: spsc_ring_push_def length_spsc_elems word_le_nat_alt Let_def)
  qed
next
  case False
  then have "length (spsc_elems r) < unat (sr_capacity r)"
    using inv by (simp add: length_spsc_elems spsc_inv_def word_le_nat_alt)
  with False show ?thesis
    by (intro room [of r]) (simp_all add: spsc_ring_push_def word_le_nat_alt Let_def)
qed

lemma spsc_push_refines:
  assumes inv: "spsc_inv r" and e: "unat (sr_element_size r) \<le> length e"
  shows "\<exists>r'. spsc_inv r' \<and> sr_capacity r' = sr_capacity r \<and> sr_element_size r' = sr_element_size r \<and>
     (if length (spsc_elems r) < unat (sr_capacity r)
      then spsc_ring_push r e = Some (0, r') \<and>
           spsc_elems r' = spsc_elems r @ [take (unat (sr_element_size r)) e]
      else spsc_ring_push r e = Some (-1, r') \<and> spsc_elems r' = spsc_elems r)"
  using inv
proof (cases rule: spsc_push_cases [where e = e])
  case full
  with inv spsc_refresh_tail [OF inv] show ?thesis
    by (intro exI [of _ "r\<lparr>sr_cached_tail := sr_tail r\<rparr>"]) simp
next
  case (room r1)
  have inv1: "spsc_inv r1" "spsc_elems r1 = spsc_elems r"
    "sr_capacity r1 = sr_capacity r" "sr_element_size r1 = sr_element_size r"
    using room(2) inv spsc_refresh_tail [OF inv] by auto
  from e inv1 have e1: "unat (sr_element_size r1) \<le> length e" by simp
  obtain b where b:
    "memcpy (sr_buf r1) (spsc_address_of_index r1 (sr_head r1)) e 0 (unat (sr_element_size r1)) = Some b"
    "spsc_inv (r1\<lparr>sr_buf := b, sr_head := sr_head r1 + 1\<rparr>)"
    "spsc_elems (r1\<lparr>sr_buf := b, sr_head := sr_head r1 + 1\<rparr>) =
       spsc_elems r1 @ [take (unat (sr_element_size r1)) e]"
    by (rule spsc_push_write [OF inv1(1) e1 room(3)])
  with room inv1 show ?thesis
    by (intro exI [of _ "r1\<lparr>sr_buf := b, sr_head := sr_head r1 + 1\<rparr>"]) simp
qed

lemma spsc_pop_read:
  assumes inv: "spsc_inv r" and e: "unat (sr_element_size r) \<le> length e"
    and ne: "sr_tail r \<noteq> sr_cached_head r"
  shows "memcpy e 0 (sr_buf r) (spsc_address_of_index r (sr_tail r)) (unat (sr_element_size r)) =
           Some (hd (spsc_elems r) @ drop (unat (sr_element_size r)) e)"
    and "spsc_inv (r\<lparr>sr_tail := sr_tail r + 1\<rparr>)"
    and "spsc_elems r \<noteq> []"
    and "spsc_elems (r\<lparr>sr_tail := sr_tail r + 1\<rparr>) = tl (spsc_elems r)"
proof -
  let ?es = "unat (sr_element_size r)" and ?s = "spsc_slot r (sr_tail r)"
  have "unat (sr_cached_head r - sr_tail r) \<noteq> 0"
    using ne by (simp add: unat_eq_0)
  then have one: "unat (1::u64) \<le> unat (sr_cached_head r - sr_tail r)" by simp
  have pos: "0 < unat (sr_head r - sr_tail r)"
    using inv one by (simp add: spsc_inv_def)
  have "?s * ?es + 1 * ?es \<le> unat (sr_capacity r) * ?es"
    using spsc_inv_slot_less [OF inv, of "sr_tail r"] by (intro mult_chunk_le) simp
  moreover have "hd (spsc_elems r) = chunk ?es (sr_buf r) ?s"
    using pos nth_spsc_elems [of 0 r] by (simp add: hd_conv_nth flip: length_greater_0_conv length_spsc_elems)
  ultimately show "memcpy e 0 (sr_buf r) (spsc_address_of_index r (sr_tail r)) ?es =
      Some (hd (spsc_elems r) @ drop ?es e)"
    using inv e by (simp add: memcpy_def spsc_address chunk_def spsc_inv_def)
  show "spsc_inv (r\<lparr>sr_tail := sr_tail r + 1\<rparr>)"
    by (rule spsc_consume [OF inv one])
  show "spsc_elems r \<noteq> []" using pos by (simp flip: length_greater_0_conv add: length_spsc_elems)
  show "spsc_elems (r\<lparr>sr_tail := sr_tail r + 1\<rparr>) = tl (spsc_elems r)"
    using spsc_consume(2) [OF inv one] by (simp add: drop_Suc)
qed

lemma spsc_pop_refines:
  assumes inv: "spsc_inv r" and e: "unat (sr_element_size r) \<le> length e"
  shows "\<exists>r'. spsc_inv r' \<and> sr_capacity r' = sr_capacity r \<and> sr_element_size r' = sr_element_size r \<and>
     (case spsc_elems r of
        [] \<Rightarrow> spsc_ring_pop r e = Some (-1, e, r') \<and> spsc_elems r' = []
      | y # ys \<Rightarrow> spsc_ring_pop r e = Some (0, y @ drop (unat (sr_element_size r)) e, r') \<and>
                  spsc_elems r' = ys)"
proof (cases "sr_head r = sr_tail r")
  case True
  with inv have ch: "sr_cached_head r = sr_tail r" by (simp add: spsc_inv_def unat_eq_0)
  from True have "spsc_elems r = []" by (simp add: spsc_elems_def)
  with True ch inv spsc_refresh_head [OF inv] show ?thesis
    by (intro exI [of _ "r\<lparr>sr_cached_head := sr_head r\<rparr>"]) (simp add: spsc_ring_pop_def Let_def)
next
  case False
  define r1 where "r1 = (if sr_tail r = sr_cached_head r then r\<lparr>sr_cached_head := sr_head r\<rparr> else r)"
  have r1: "spsc_inv r1" "spsc_elems r1 = spsc_elems r" "sr_tail r1 \<noteq> sr_cached_head r1"
    "sr_capacity r1 = sr_capacity r" "sr_element_size r1 = sr_element_size r"
    using False inv spsc_refresh_head [OF inv] by (auto simp: r1_def)
  from e r1 have e1: "unat (sr_element_size r1) \<le> length e" by simp
  note rd = spsc_pop_read [OF r1(1) e1 r1(3)]
  have "spsc_ring_pop r e = Some (0, hd (spsc_elems r) @ drop (unat (sr_element_size r)) e,
      r1\<lparr>sr_tail := sr_tail r1 + 1\<rparr>)"
    using False rd(1) r1(2,5) by (auto simp: spsc_ring_pop_def Let_def r1_def split: if_splits)
  then show ?thesis
    using rd r1 by (intro exI [of _ "r1\<lparr>sr_tail := sr_tail r1 + 1\<rparr>"]) (auto split: list.splits)
qed

section \<open>Batches\<close>

lemma spsc_slot_offset:
  assumes "spsc_inv r"
  shows "spsc_slot r (h + of_nat i) = (spsc_slot r h + i) mod unat (sr_capacity r)"
proof -
  have p: "is_pow2 (sr_capacity r)" using assms by (simp add: spsc_inv_def)
  then show ?thesis
    using unat_plus_mod_dvd [OF is_pow2_dvd [OF p], of h i] by (simp add: and_mask_is_mod mod_simps)
qed

text \<open>The size of the first copy: up to the end of the buffer, at most \<open>n\<close> elements.\<close>

lemma spsc_first_part:
  assumes "spsc_inv r"
  shows "unat (spsc_first r i n) = min (unat n) (unat (sr_capacity r) - spsc_slot r i)"
  using assms spsc_inv_slot_less [OF assms, of i]
  by (auto simp: spsc_first_def spsc_inv_def Let_def word_less_nat_alt unat_sub_if')

text \<open>
  The conditional second \<^verbatim>\<open>memcpy\<close> of the batch functions can be read as unconditional: with
  nothing left to copy it would change nothing.
\<close>

lemma memcpy_zero: "d \<le> length dst \<Longrightarrow> s \<le> length src \<Longrightarrow> memcpy dst d src s 0 = Some dst"
  by (simp add: memcpy_def)

lemma second_copy_uniform:
  fixes n f es :: size_t
  assumes "d \<le> length dst" "s \<le> length src" "f \<le> n"
  shows "(if n > f then memcpy dst d src s (unat ((n - f) * es)) else Some dst) =
         memcpy dst d src s (unat ((n - f) * es))"
  using assms by (auto simp: memcpy_zero)

text \<open>The sizes and offsets of both copies, as numbers of bytes.\<close>

lemma spsc_batch_offsets:
  fixes i :: u64
  assumes inv: "spsc_inv r" and n: "unat n \<le> unat (sr_capacity r)"
  defines "es \<equiv> unat (sr_element_size r)" and "f \<equiv> unat (spsc_first r i n)"
  shows "unat ((i AND sr_mask r) * sr_element_size r) = spsc_slot r i * es"
    and "unat (spsc_first r i n * sr_element_size r) = f * es"
    and "unat ((n - spsc_first r i n) * sr_element_size r) = (unat n - f) * es"
    and "spsc_first r i n \<le> n" and "f \<le> unat n"
    and "spsc_slot r i * es + f * es \<le> length (sr_buf r)"
    and "(unat n - f) * es \<le> length (sr_buf r)"
proof -
  have mask: "sr_mask r = sr_capacity r - 1" using inv by (simp add: spsc_inv_def)
  have s: "spsc_slot r i < unat (sr_capacity r)" using inv by (rule spsc_inv_slot_less)
  have f: "f = min (unat n) (unat (sr_capacity r) - spsc_slot r i)"
    using inv by (simp add: f_def spsc_first_part)
  then show fn: "f \<le> unat n" by simp
  then show le: "spsc_first r i n \<le> n" by (simp add: f_def word_le_nat_alt)
  show "unat ((i AND sr_mask r) * sr_element_size r) = spsc_slot r i * es"
    using s unat_mult_es [OF inv, of "i AND sr_mask r"] by (simp add: mask es_def)
  show "unat (spsc_first r i n * sr_element_size r) = f * es"
    using fn n unat_mult_es [OF inv, of "spsc_first r i n"] by (simp add: f_def es_def)
  show "unat ((n - spsc_first r i n) * sr_element_size r) = (unat n - f) * es"
    using le n unat_mult_es [OF inv, of "n - spsc_first r i n"] by (simp add: unat_sub f_def es_def)
  have "spsc_slot r i * es + f * es \<le> unat (sr_capacity r) * es"
    using s f by (intro mult_chunk_le) simp
  then show "spsc_slot r i * es + f * es \<le> length (sr_buf r)"
    using inv by (simp add: spsc_inv_def es_def)
  have "(unat n - f) * es \<le> unat (sr_capacity r) * es" using n by (intro mult_le_mono1) simp
  then show "(unat n - f) * es \<le> length (sr_buf r)"
    using inv by (simp add: spsc_inv_def es_def)
qed

lemma spsc_copy_in_writes:
  assumes inv: "spsc_inv r" and n: "unat n \<le> unat (sr_capacity r)"
    and e: "unat n * unat (sr_element_size r) \<le> length e"
  obtains b where "spsc_copy_in r e n = Some b" "length b = length (sr_buf r)"
    "\<And>i. i < unat n \<Longrightarrow> chunk (unat (sr_element_size r)) b (spsc_slot r (sr_head r + of_nat i)) =
        chunk (unat (sr_element_size r)) e i"
    "\<And>k. (\<And>i. i < unat n \<Longrightarrow> k \<noteq> spsc_slot r (sr_head r + of_nat i)) \<Longrightarrow>
       chunk (unat (sr_element_size r)) b k = chunk (unat (sr_element_size r)) (sr_buf r) k"
proof -
  let ?es = "unat (sr_element_size r)" and ?s = "spsc_slot r (sr_head r)"
    and ?f = "unat (spsc_first r (sr_head r) n)"
  note off = spsc_batch_offsets [OF inv n, of "sr_head r"]
  have fe: "?f * ?es + (unat n - ?f) * ?es \<le> length e"
    using e mult_chunk_le [of ?f "unat n - ?f" "unat n" ?es] off(5) by simp
  with off(6) obtain b1 where b1: "memcpy (sr_buf r) (?s * ?es) e (0 * ?es) (?f * ?es) = Some b1"
    by (simp add: memcpy_def)
  with fe off(7) obtain b where b: "memcpy b1 (0 * ?es) e (?f * ?es) ((unat n - ?f) * ?es) = Some b"
    using length_memcpy [OF b1] by (simp add: memcpy_def)
  have "spsc_copy_in r e n = Some b"
    using b1 b fe second_copy_uniform [of 0 b1 "?f * ?es" e "spsc_first r (sr_head r) n" n "sr_element_size r"]
    by (simp add: spsc_copy_in_def Let_def off(1-4) split: if_splits)
  moreover have "length b = length (sr_buf r)" using length_memcpy [OF b] length_memcpy [OF b1] by simp
  moreover note two_part_copy [OF spsc_inv_slot_less [OF inv] n spsc_first_part [OF inv] b1 b]
  ultimately show ?thesis
    by (intro that [of b]) (simp_all add: spsc_slot_offset [OF inv])
qed

text \<open>The number of elements a batch push accepts is the free space, at most \<open>n\<close>.\<close>

lemma spsc_push_n_count:
  assumes inv: "spsc_inv r"
  obtains r1 m where "r1 = r \<or> r1 = r\<lparr>sr_cached_tail := sr_tail r\<rparr>"
    "unat m = min (unat n) (unat (sr_capacity r) - length (spsc_elems r))"
    "unat (sr_head r1 - sr_cached_tail r1) + unat m \<le> unat (sr_capacity r1)"
    "spsc_ring_push_n r e n =
       (if m = 0 then Some (0, r1)
        else do { b \<leftarrow> spsc_copy_in r1 e m; Some (m, r1\<lparr>sr_buf := b, sr_head := sr_head r1 + m\<rparr>) })"
proof -
  let ?cap = "unat (sr_capacity r)"
  have le: "unat (sr_head r - sr_cached_tail r) \<le> ?cap"
    "unat (sr_head r - sr_tail r) \<le> unat (sr_head r - sr_cached_tail r)"
    using inv by (auto simp: spsc_inv_def)
  have sub: "unat (sr_capacity r - (sr_head r - x)) = ?cap - unat (sr_head r - x)"
    if "unat (sr_head r - x) \<le> ?cap" for x
    using that by (simp add: unat_sub word_le_nat_alt)
  show ?thesis
  proof (cases "sr_capacity r - (sr_head r - sr_cached_tail r) < n")
    case False
    then have "unat n + unat (sr_head r - sr_cached_tail r) \<le> ?cap"
      using le by (simp add: word_less_nat_alt sub)
    with False le show ?thesis
      by (intro that [of r n]) (simp_all add: spsc_ring_push_n_def Let_def length_spsc_elems)
  next
    case True
    define m where "m = (if sr_capacity r - (sr_head r - sr_tail r) < n
      then sr_capacity r - (sr_head r - sr_tail r) else n)"
    have "unat m = min (unat n) (?cap - unat (sr_head r - sr_tail r))"
      using le by (auto simp: m_def word_less_nat_alt sub)
    moreover have "spsc_ring_push_n r e n =
       (if m = 0 then Some (0, r\<lparr>sr_cached_tail := sr_tail r\<rparr>)
        else do { b \<leftarrow> spsc_copy_in (r\<lparr>sr_cached_tail := sr_tail r\<rparr>) e m;
                  Some (m, r\<lparr>sr_cached_tail := sr_tail r, sr_buf := b, sr_head := sr_head r + m\<rparr>) })"
      using True by (cases "sr_capacity r - (sr_head r - sr_tail r) < n")
        (simp_all add: spsc_ring_push_n_def Let_def m_def)
    ultimately show ?thesis using le
      by (intro that [of "r\<lparr>sr_cached_tail := sr_tail r\<rparr>" m]) (simp_all add: length_spsc_elems)
  qed
qed

lemma spsc_push_n_refines:
  assumes inv: "spsc_inv r" and e: "unat n * unat (sr_element_size r) \<le> length e"
    and m: "m = min (unat n) (unat (sr_capacity r) - length (spsc_elems r))"
  shows "\<exists>r'. spsc_ring_push_n r e n = Some (of_nat m, r') \<and> spsc_inv r' \<and>
     sr_capacity r' = sr_capacity r \<and> sr_element_size r' = sr_element_size r \<and>
     spsc_elems r' = spsc_elems r @ chunks (unat (sr_element_size r)) e m"
proof -
  obtain r1 k where r1: "r1 = r \<or> r1 = r\<lparr>sr_cached_tail := sr_tail r\<rparr>" 
    and "unat k = min (unat n) (unat (sr_capacity r) - length (spsc_elems r))"
    and room: "unat (sr_head r1 - sr_cached_tail r1) + unat k \<le> unat (sr_capacity r1)"
    and eq: "spsc_ring_push_n r e n =
       (if k = 0 then Some (0, r1)
        else do { b \<leftarrow> spsc_copy_in r1 e k; Some (k, r1\<lparr>sr_buf := b, sr_head := sr_head r1 + k\<rparr>) })"
    by (rule spsc_push_n_count [OF inv])
  then have k: "unat k = m" using m by simp
  have r1': "spsc_inv r1" "spsc_elems r1 = spsc_elems r" "sr_capacity r1 = sr_capacity r"
    "sr_element_size r1 = sr_element_size r"
    using r1 inv spsc_refresh_tail [OF inv] by auto
  have km: "k = of_nat m" by (simp flip: k)
  have "unat k * unat (sr_element_size r1) \<le> length e"
    using e k m r1'(4) by (metis le_trans min.cobounded1 mult_le_mono1)
  then obtain b where b: "spsc_copy_in r1 e k = Some b" "length b = length (sr_buf r1)"
    and new: "\<And>i. i < unat k \<Longrightarrow>
       chunk (unat (sr_element_size r1)) b (spsc_slot r1 (sr_head r1 + of_nat i)) =
         chunk (unat (sr_element_size r1)) e i"
    and old: "\<And>j. (\<And>i. i < unat k \<Longrightarrow> j \<noteq> spsc_slot r1 (sr_head r1 + of_nat i)) \<Longrightarrow>
       chunk (unat (sr_element_size r1)) b j = chunk (unat (sr_element_size r1)) (sr_buf r1) j"
    using spsc_copy_in_writes [OF r1'(1), of k e] room by auto
  let ?r = "r1\<lparr>sr_buf := b, sr_head := sr_head r1 + k\<rparr>"
  have "spsc_inv ?r" "spsc_elems ?r = spsc_elems r1 @ chunks (unat (sr_element_size r1)) e (unat k)"
    using spsc_publish [OF r1'(1), of k "chunks (unat (sr_element_size r1)) e (unat k)" b] room b(2) new old
    by simp_all
  with eq b(1) r1' k km show ?thesis
    by (cases "k = 0") (auto simp: chunks_def)
qed

section \<open>Batch pops\<close>

lemma spsc_copy_out_reads:
  assumes inv: "spsc_inv r" and n: "unat n \<le> unat (sr_head r - sr_tail r)"
    and e: "unat n * unat (sr_element_size r) \<le> length e"
  shows "spsc_copy_out r e n =
     Some (concat (take (unat n) (spsc_elems r)) @ drop (unat n * unat (sr_element_size r)) e)"
proof -
  let ?es = "unat (sr_element_size r)" and ?s = "spsc_slot r (sr_tail r)"
    and ?f = "unat (spsc_first r (sr_tail r) n)" and ?cap = "unat (sr_capacity r)"
  have nc: "unat n \<le> ?cap" using n inv by (simp add: spsc_inv_def)
  note off = spsc_batch_offsets [OF inv nc, of "sr_tail r"]
  have f: "?f = min (unat n) (?cap - ?s)" by (rule spsc_first_part [OF inv])
  have s: "?s < ?cap" by (rule spsc_inv_slot_less [OF inv])
  have fe: "?f * ?es + (unat n - ?f) * ?es = unat n * ?es" using off(5) by (simp flip: add_mult_distrib)
  have chunks: "take (unat n) (spsc_elems r) =
      map (\<lambda>i. chunk ?es (sr_buf r) (?s + i)) [0..<?f] @
      map (\<lambda>i. chunk ?es (sr_buf r) (0 + i)) [0..<unat n - ?f]"
  proof (rule nth_equalityI)
    fix i assume "i < length (take (unat n) (spsc_elems r))"
    then have "i < unat n" by simp
    with n nc s f show "take (unat n) (spsc_elems r) ! i =
       (map (\<lambda>i. chunk ?es (sr_buf r) (?s + i)) [0..<?f] @
        map (\<lambda>i. chunk ?es (sr_buf r) (0 + i)) [0..<unat n - ?f]) ! i"
      by (auto simp: nth_append nth_spsc_elems spsc_slot_offset [OF inv] wrap_index min_def
          add.commute [of i ?s] split: if_splits)
  qed (use n off(5) in \<open>simp add: length_spsc_elems\<close>)
  have "concat (take (unat n) (spsc_elems r)) =
      take (?f * ?es) (drop (?s * ?es) (sr_buf r)) @ take ((unat n - ?f) * ?es) (sr_buf r)"
    unfolding chunks concat_append using off(6,7)
    by (subst concat_chunk_run, simp add: algebra_simps)+ simp
  then show ?thesis
    using off e fe second_copy_uniform [of "?f * ?es" e 0 "sr_buf r" "spsc_first r (sr_tail r) n" n "sr_element_size r"]
    by (simp add: spsc_copy_out_def Let_def memcpy_def)
qed

lemma spsc_pop_n_count:
  assumes inv: "spsc_inv r"
  obtains r1 m where "r1 = r \<or> r1 = r\<lparr>sr_cached_head := sr_head r\<rparr>"
    "unat m = min (unat n) (length (spsc_elems r))"
    "unat m \<le> unat (sr_cached_head r1 - sr_tail r1)"
    "spsc_ring_pop_n r e n =
       (if m = 0 then Some (0, e, r1)
        else do { e' \<leftarrow> spsc_copy_out r1 e m; Some (m, e', r1\<lparr>sr_tail := sr_tail r1 + m\<rparr>) })"
proof (cases "sr_cached_head r - sr_tail r < n")
  case False
  with inv have "unat n = min (unat n) (length (spsc_elems r))"
    by (auto simp: word_less_nat_alt length_spsc_elems spsc_inv_def)
  with False show ?thesis
    by (intro that [of r n]) (simp_all add: spsc_ring_pop_n_def Let_def word_less_nat_alt)
next
  case True
  define m where "m = (if sr_head r - sr_tail r < n then sr_head r - sr_tail r else n)"
  have "unat m = min (unat n) (length (spsc_elems r))"
    by (auto simp: m_def word_less_nat_alt length_spsc_elems)
  moreover have "spsc_ring_pop_n r e n =
     (if m = 0 then Some (0, e, r\<lparr>sr_cached_head := sr_head r\<rparr>)
      else do { e' \<leftarrow> spsc_copy_out (r\<lparr>sr_cached_head := sr_head r\<rparr>) e m;
                Some (m, e', r\<lparr>sr_cached_head := sr_head r, sr_tail := sr_tail r + m\<rparr>) })"
    using True by (cases "sr_head r - sr_tail r < n") (simp_all add: spsc_ring_pop_n_def Let_def m_def)
  ultimately show ?thesis
    by (intro that [of "r\<lparr>sr_cached_head := sr_head r\<rparr>" m]) (simp_all add: length_spsc_elems)
qed

lemma spsc_pop_n_refines:
  assumes inv: "spsc_inv r" and e: "unat n * unat (sr_element_size r) \<le> length e"
    and m: "m = min (unat n) (length (spsc_elems r))"
  shows "\<exists>r'. spsc_ring_pop_n r e n =
       Some (of_nat m, concat (take m (spsc_elems r)) @ drop (m * unat (sr_element_size r)) e, r') \<and>
     spsc_inv r' \<and> sr_capacity r' = sr_capacity r \<and> sr_element_size r' = sr_element_size r \<and>
     spsc_elems r' = drop m (spsc_elems r)"
proof -
  obtain r1 k where r1: "r1 = r \<or> r1 = r\<lparr>sr_cached_head := sr_head r\<rparr>"
    and "unat k = min (unat n) (length (spsc_elems r))"
    and avail: "unat k \<le> unat (sr_cached_head r1 - sr_tail r1)"
    and eq: "spsc_ring_pop_n r e n =
       (if k = 0 then Some (0, e, r1)
        else do { e' \<leftarrow> spsc_copy_out r1 e k; Some (k, e', r1\<lparr>sr_tail := sr_tail r1 + k\<rparr>) })"
    by (rule spsc_pop_n_count [OF inv])
  then have k: "unat k = m" using m by simp
  have r1': "spsc_inv r1" "spsc_elems r1 = spsc_elems r" "sr_capacity r1 = sr_capacity r"
    "sr_element_size r1 = sr_element_size r"
    using r1 inv spsc_refresh_head [OF inv] by auto
  have km: "k = of_nat m" by (simp flip: k)
  have "unat k * unat (sr_element_size r1) \<le> length e"
    using e k m r1'(4) by (metis le_trans min.cobounded1 mult_le_mono1)
  moreover have "unat k \<le> unat (sr_head r1 - sr_tail r1)"
    using avail r1'(1) by (simp add: spsc_inv_def)
  ultimately have "spsc_copy_out r1 e k =
      Some (concat (take m (spsc_elems r)) @ drop (m * unat (sr_element_size r)) e)"
    using spsc_copy_out_reads [OF r1'(1), of k e] k r1' by simp
  moreover note spsc_consume [OF r1'(1) avail]
  ultimately show ?thesis using eq r1' k km by (cases "k = 0") auto
qed

section \<open>The ring as a bounded queue\<close>

interpretation spsc_fifo: bounded_fifo spsc_inv spsc_elems "\<lambda>r. unat (sr_capacity r)"
  "\<lambda>r (e::block). length e = unat (sr_element_size r)" spsc_push_op spsc_pop_op
proof unfold_locales
  fix r and e :: block assume "spsc_inv r" "length e = unat (sr_element_size r)"
    "length (spsc_elems r) < unat (sr_capacity r)"
  then show "\<exists>q'. spsc_push_op r e = Some (True, q') \<and> spsc_inv q' \<and> spsc_elems q' = spsc_elems r @ [e] \<and>
      unat (sr_capacity q') = unat (sr_capacity r) \<and>
      (\<lambda>e::block. length e = unat (sr_element_size q')) = (\<lambda>e. length e = unat (sr_element_size r))"
    using spsc_push_refines [of r e] by (auto simp: spsc_push_op_def)
next
  fix r and e :: block assume "spsc_inv r" "length e = unat (sr_element_size r)"
    "unat (sr_capacity r) \<le> length (spsc_elems r)"
  then show "\<exists>q'. spsc_push_op r e = Some (False, q') \<and> spsc_inv q' \<and> spsc_elems q' = spsc_elems r \<and>
      unat (sr_capacity q') = unat (sr_capacity r) \<and>
      (\<lambda>e::block. length e = unat (sr_element_size q')) = (\<lambda>e. length e = unat (sr_element_size r))"
    using spsc_push_refines [of r e] by (auto simp: spsc_push_op_def)
next
  fix r and y :: block and ys assume "spsc_inv r" "spsc_elems r = y # ys"
  then show "\<exists>q'. spsc_pop_op r = Some (Some y, q') \<and> spsc_inv q' \<and> spsc_elems q' = ys \<and>
      unat (sr_capacity q') = unat (sr_capacity r) \<and>
      (\<lambda>e::block. length e = unat (sr_element_size q')) = (\<lambda>e. length e = unat (sr_element_size r))"
    using spsc_pop_refines [of r "replicate (unat (sr_element_size r)) 0"]
    by (auto simp: spsc_pop_op_def)
next
  fix r assume "spsc_inv r" "spsc_elems r = []"
  then show "\<exists>q'. spsc_pop_op r = Some (None, q') \<and> spsc_inv q' \<and> spsc_elems q' = [] \<and>
      unat (sr_capacity q') = unat (sr_capacity r) \<and>
      (\<lambda>e::block. length e = unat (sr_element_size q')) = (\<lambda>e. length e = unat (sr_element_size r))"
    using spsc_pop_refines [of r "replicate (unat (sr_element_size r)) 0"]
    by (auto simp: spsc_pop_op_def)
qed

end
