(* ===== verification/Spsc_Properties.thy ===== *)
theory Spsc_Properties
  imports Spsc_Ring
begin

text \<open>
  What a caller of \<^verbatim>\<open>spsc_ring.h\<close> may rely on when calls do not overlap: every call sequence
  behaves like a bounded list of elements, each call on each of its branches, batches against
  single calls, the arguments \<^verbatim>\<open>create\<close> accepts and what it allocates.
\<close>

section \<open>Definitions\<close>

text \<open>
  What the ring relies on \<^verbatim>\<open>malloc\<close> for: a block of the requested size.
\<close>

definition malloc_sized :: "(nat \<Rightarrow> block option) \<Rightarrow> bool" where
  "malloc_sized malloc \<longleftrightarrow> (\<forall>n b. malloc n = Some b \<longrightarrow> length b = n)"

text \<open>The reference for a batch: one push per element until one is refused.\<close>

fun spsc_push_each :: "spsc_ring \<Rightarrow> block list \<Rightarrow> (nat \<times> spsc_ring) option" where
  "spsc_push_each r [] = Some (0, r)"
| "spsc_push_each r (e # es) =
     (case spsc_ring_push r e of
        None \<Rightarrow> None
      | Some (c, r') \<Rightarrow>
          if c \<noteq> 0 then Some (0, r')
          else (case spsc_push_each r' es of None \<Rightarrow> None | Some (k, r'') \<Rightarrow> Some (Suc k, r'')))"

text \<open>
  A ring for the witnesses: four slots of two bytes, one element queued, and both counters at
  the end of the 64-bit range, so that the next operations wrap them around.
\<close>

definition wrap_ring :: spsc_ring where
  "wrap_ring = \<lparr> sr_capacity = 4, sr_mask = 3, sr_element_size = 2,
     sr_buf = [10, 11, 12, 13, 14, 15, 16, 17], sr_head = -1, sr_cached_tail = -4,
     sr_tail = -2, sr_cached_head = -1 \<rparr>"

section \<open>Supporting lemmas\<close>

lemma spsc_create_Some:
  assumes "spsc_ring_create aa malloc cap es = (Some r, evs)"
  obtains b where "malloc (unat (cap * es)) = Some b" "is_pow2 cap" "es \<noteq> 0"
    "r = \<lparr> sr_capacity = cap, sr_mask = cap - 1, sr_element_size = es, sr_buf = b, sr_head = 0,
           sr_cached_tail = 0, sr_tail = 0, sr_cached_head = 0 \<rparr>"
    "evs = [Alloc Ring_Block (unat (struct_sz sizeof_spsc_ring)), Alloc Buf_Block (unat (cap * es))]"
  using assms by (auto simp: spsc_ring_create_def is_pow2_def Let_def split: if_splits option.splits)

lemma spsc_create_inv:
  assumes c: "spsc_ring_create aa malloc cap es = (Some r, evs)" and m: "malloc_sized malloc"
    and fits: "unat cap * unat es < 2 ^ 64"
  shows "spsc_inv r" and "spsc_elems r = []" and "sr_capacity r = cap" and "sr_element_size r = es"
proof -
  obtain b where b: "malloc (unat (cap * es)) = Some b" "is_pow2 cap" "es \<noteq> 0"
    "r = \<lparr> sr_capacity = cap, sr_mask = cap - 1, sr_element_size = es, sr_buf = b, sr_head = 0,
           sr_cached_tail = 0, sr_tail = 0, sr_cached_head = 0 \<rparr>"
    by (rule spsc_create_Some [OF c])
  have "length b = unat cap * unat es"
    using m b(1) fits unat_mult_in_block [of cap es] by (simp add: malloc_sized_def)
  with b fits show "spsc_inv r" "spsc_elems r = []" "sr_capacity r = cap" "sr_element_size r = es"
    by (simp_all add: spsc_inv_def spsc_elems_def)
qed

lemma spsc_push_each_refines:
  assumes "spsc_inv r" "\<forall>x \<in> set xs. length x = unat (sr_element_size r)"
    and "m = min (length xs) (unat (sr_capacity r) - length (spsc_elems r))"
  shows "\<exists>r'. spsc_push_each r xs = Some (m, r') \<and> spsc_inv r' \<and>
     spsc_elems r' = spsc_elems r @ take m xs"
  using assms
proof (induction xs arbitrary: r m)
  case Nil
  then show ?case by simp
next
  case (Cons x xs)
  show ?case
  proof (cases "length (spsc_elems r) < unat (sr_capacity r)")
    case True
    with Cons.prems obtain r1 where r1: "spsc_ring_push r x = Some (0, r1)" "spsc_inv r1"
      "spsc_elems r1 = spsc_elems r @ [x]" "sr_capacity r1 = sr_capacity r"
      "sr_element_size r1 = sr_element_size r"
      using spsc_push_refines [of r x] by auto
    define k where "k = min (length xs) (unat (sr_capacity r1) - length (spsc_elems r1))"
    have m: "m = Suc k" using True r1 Cons.prems(3) by (auto simp: k_def)
    obtain r2 where "spsc_push_each r1 xs = Some (k, r2)" "spsc_inv r2"
      "spsc_elems r2 = spsc_elems r1 @ take k xs"
      using Cons.IH [OF r1(2) _ k_def] Cons.prems(2) r1(5) by auto
    with r1 show ?thesis by (simp add: m)
  next
    case False
    with Cons.prems obtain r1 where "spsc_ring_push r x = Some (-1, r1)" "spsc_inv r1"
      "spsc_elems r1 = spsc_elems r"
      using spsc_push_refines [of r x] by auto
    with False Cons.prems show ?thesis by simp
  qed
qed

lemma wrap_ring_inv: "spsc_inv wrap_ring"
  by (simp add: spsc_inv_def wrap_ring_def is_pow2_def)

lemma wrap_ring_elems: "spsc_elems wrap_ring = [[14, 15]]"
  by (simp add: spsc_elems_def wrap_ring_def ring_window_def chunk_def)

text \<open>A ring whose buffer is smaller than its capacity says: pushes until the buffer ends.\<close>

lemma overflowed_push:
  assumes r: "is_pow2 (sr_capacity r)" "sr_mask r = sr_capacity r - 1" "sr_tail r = 0" "sr_cached_tail r = 0"
      "sr_head r = of_nat i" "length (sr_buf r) < 2 ^ 64" "sr_element_size r \<noteq> 0"
    and i: "i \<le> length (sr_buf r) div unat (sr_element_size r)" "i < unat (sr_capacity r)"
    and e: "unat (sr_element_size r) \<le> length e"
  shows "if i < length (sr_buf r) div unat (sr_element_size r)
    then \<exists>b. spsc_ring_push r e = Some (0, r\<lparr>sr_buf := b, sr_head := of_nat (Suc i)\<rparr>) \<and> length b = length (sr_buf r)
    else spsc_ring_push r e = None"
proof -
  let ?es = "unat (sr_element_size r)"
  have "unat (sr_capacity r) < 2 ^ LENGTH(64)" by (rule unsigned_less)
  then have u: "unat (of_nat i :: u64) = i" using i(2) by (simp add: unat_of_nat)
  have es: "0 < ?es" using r(7) by (simp add: unat_gt_0)
  have "i * ?es \<le> length (sr_buf r)" using i(1) by (simp add: less_eq_div_iff_mult_less_eq es)
  then have "unat ((of_nat i AND sr_mask r) * sr_element_size r) = i * ?es"
    using i(2) r(1,2,6) u by (simp add: and_mask_is_mod unat_word_ariths)
  then have a: "spsc_address_of_index r (of_nat i) = i * ?es" by (simp add: spsc_address_of_index_def)
  have room: "\<not> sr_head r - sr_cached_tail r \<ge> sr_capacity r" using i(2) u by (simp add: r(4,5) word_le_nat_alt)
  have fit: "i < length (sr_buf r) div ?es \<longleftrightarrow> i * ?es + ?es \<le> length (sr_buf r)"
    using less_eq_div_iff_mult_less_eq [OF es, of "Suc i" "length (sr_buf r)"] by (simp add: Suc_le_eq add.commute)
  show ?thesis using room e by (auto simp: spsc_ring_push_def Let_def a fit memcpy_def r(5) add.commute)
qed

lemma overflowed_pushes:
  assumes "is_pow2 (sr_capacity r)" "sr_mask r = sr_capacity r - 1" "sr_tail r = 0" "sr_cached_tail r = 0"
      "sr_head r = of_nat i" "length (sr_buf r) = n" "n < 2 ^ 64" "sr_element_size r = es" "es \<noteq> 0" "n div unat es < unat (sr_capacity r)"
    and "i \<le> n div unat es" "list_all (\<lambda>x. unat es \<le> length x) xs"
  shows "if i + length xs \<le> n div unat es then \<exists>r'. spsc_push_each r xs = Some (length xs, r') else spsc_push_each r xs = None"
  using assms
proof (induction xs arbitrary: r i)
  case (Cons x xs)
  let ?k = "n div unat es"
  have push: "if i < ?k then \<exists>b. spsc_ring_push r x = Some (0, r\<lparr>sr_buf := b, sr_head := of_nat (Suc i)\<rparr>) \<and> length b = n
    else spsc_ring_push r x = None"
    using overflowed_push [of r i x] Cons.prems by auto
  show ?case
  proof (cases "i < ?k")
    case True
    with push obtain b where b: "spsc_ring_push r x = Some (0, r\<lparr>sr_buf := b, sr_head := of_nat (Suc i)\<rparr>)" "length b = n" by auto
    have "if Suc i + length xs \<le> ?k then \<exists>r'. spsc_push_each (r\<lparr>sr_buf := b, sr_head := of_nat (Suc i)\<rparr>) xs = Some (length xs, r')
      else spsc_push_each (r\<lparr>sr_buf := b, sr_head := of_nat (Suc i)\<rparr>) xs = None"
      by (rule Cons.IH) (use Cons.prems b True in auto)
    with b(1) show ?thesis by (auto split: if_splits)
  qed (use push in simp)
qed simp

section \<open>Properties\<close>

text \<open>
  C1: a ring made by \<^verbatim>\<open>spsc_ring_create\<close> cannot be told apart from a list of at most
  \<^verbatim>\<open>capacity\<close> elements by any sequence of pushes and pops: every call returns what the list
  returns, in order, and no call touches memory outside the buffer.
\<close>

theorem spsc_fifo_of_any_run:
  assumes "spsc_ring_create aa malloc cap es = (Some r, evs)" and "malloc_sized malloc"
    and "unat cap * unat es < 2 ^ 64"
    and "\<forall>p \<in> set ps. op_ok (\<lambda>e. length e = unat es) p"
  shows "\<exists>r'. impl_run spsc_push_op spsc_pop_op r ps = Some (fst (spec_run (unat cap) [] ps), r') \<and>
     spsc_inv r' \<and> spsc_elems r' = snd (spec_run (unat cap) [] ps)"
  using spsc_fifo.run_refines [of r ps] spsc_create_inv [OF assms(1-3)] assms(4) by auto

theorem spsc_fifo_of_any_run_witness:
  "\<exists>r'. impl_run spsc_push_op spsc_pop_op
      \<lparr> sr_capacity = 2, sr_mask = 1, sr_element_size = 1, sr_buf = [0, 0], sr_head = 0,
        sr_cached_tail = 0, sr_tail = 0, sr_cached_head = 0 \<rparr>
      [Push [7], Push [8], Push [9], Pop, Pop, Pop] =
    Some ([Pushed True, Pushed True, Pushed False, Popped (Some [7]), Popped (Some [8]), Popped None], r') \<and>
    spsc_inv r' \<and> spsc_elems r' = []"
proof -
  let ?malloc = "\<lambda>n. Some (replicate n 0)"
  have "malloc_sized ?malloc" by (simp add: malloc_sized_def)
  moreover have "spsc_ring_create (\<lambda>_. True) ?malloc 2 1 =
     (Some \<lparr> sr_capacity = 2, sr_mask = 1, sr_element_size = 1, sr_buf = [0, 0], sr_head = 0,
        sr_cached_tail = 0, sr_tail = 0, sr_cached_head = 0 \<rparr>, [Alloc Ring_Block 320, Alloc Buf_Block 2])"
    by (simp add: spsc_ring_create_def Let_def struct_sz_def sizeof_spsc_ring_def, simp add: numeral_2_eq_2)
  ultimately show ?thesis
    using spsc_fifo_of_any_run [of "\<lambda>_. True" ?malloc 2 1 _ _
        "[Push [7], Push [8], Push [9], Pop, Pop, Pop]"] by simp
qed

text \<open>
  \<^verbatim>\<open>spsc_ring_push\<close> returns 0 exactly when the ring is not full, and then appends the first
  \<^verbatim>\<open>element_size\<close> bytes of its argument; on a full ring it returns \<^verbatim>\<open>-1\<close> and the queued
  elements are unchanged. It never writes outside the buffer and keeps the invariant, also
  where the 64-bit counters wrap around.
\<close>

lemma spsc_push_correct:
  assumes "spsc_inv r" and "unat (sr_element_size r) \<le> length e"
  shows "\<exists>c r'. spsc_ring_push r e = Some (c, r') \<and> spsc_inv r' \<and>
     (if spsc_ring_full r then c = -1 \<and> spsc_elems r' = spsc_elems r
      else c = 0 \<and> spsc_elems r' = spsc_elems r @ [take (unat (sr_element_size r)) e])"
proof -
  have "spsc_ring_full r \<longleftrightarrow> length (spsc_elems r) = unat (sr_capacity r)"
    by (simp add: spsc_ring_full_def spsc_ring_size_def length_spsc_elems word_unat_eq_iff)
  then have "spsc_ring_full r \<longleftrightarrow> \<not> length (spsc_elems r) < unat (sr_capacity r)"
    using spsc_elems_le_capacity [OF assms(1)] by auto
  then show ?thesis using spsc_push_refines [OF assms] by (auto split: if_splits)
qed

text \<open>
  \<^verbatim>\<open>spsc_ring_pop\<close> returns \<^verbatim>\<open>-1\<close> exactly when the ring is empty, leaving the caller's buffer
  untouched; otherwise it returns 0, copies the oldest element to the start of the caller's
  buffer, leaves the rest of that buffer alone and removes exactly that element.
\<close>

lemma spsc_pop_correct:
  assumes "spsc_inv r" and "unat (sr_element_size r) \<le> length e"
  shows "\<exists>c e' r'. spsc_ring_pop r e = Some (c, e', r') \<and> spsc_inv r' \<and>
     (if spsc_ring_empty r then c = -1 \<and> e' = e \<and> spsc_elems r' = spsc_elems r
      else c = 0 \<and> e' = hd (spsc_elems r) @ drop (unat (sr_element_size r)) e \<and>
           spsc_elems r' = tl (spsc_elems r))"
proof -
  have "spsc_ring_empty r \<longleftrightarrow> spsc_elems r = []"
    using length_spsc_elems [of r]
    by (auto simp: spsc_ring_empty_def spsc_ring_size_def unat_eq_0 simp flip: length_0_conv)
  then show ?thesis using spsc_pop_refines [OF assms] by (cases "spsc_elems r") auto
qed

text \<open>
  C2: A single push or pop does what a bounded queue does. \<^verbatim>\<open>spsc_ring_push\<close> appends the first
  \<^verbatim>\<open>element_size\<close> bytes of its argument and returns 0, or, on a full ring, returns \<^verbatim>\<open>-1\<close> and changes nothing
  in the queue; \<^verbatim>\<open>spsc_ring_pop\<close> removes the oldest element into the start of the caller's buffer and
  returns 0, or, on an empty ring, returns \<^verbatim>\<open>-1\<close> with the buffer untouched. Neither leaves the ring's
  buffer, and both keep the invariant, also where the 64-bit counters wrap around.
\<close>

theorem spsc_push_pop_correct:
  assumes "spsc_inv r" and "unat (sr_element_size r) \<le> length e"
  shows "(\<exists>c r'. spsc_ring_push r e = Some (c, r') \<and> spsc_inv r' \<and>
       (if spsc_ring_full r then c = -1 \<and> spsc_elems r' = spsc_elems r
        else c = 0 \<and> spsc_elems r' = spsc_elems r @ [take (unat (sr_element_size r)) e])) \<and>
     (\<exists>c e' r'. spsc_ring_pop r e = Some (c, e', r') \<and> spsc_inv r' \<and>
       (if spsc_ring_empty r then c = -1 \<and> e' = e \<and> spsc_elems r' = spsc_elems r
        else c = 0 \<and> e' = hd (spsc_elems r) @ drop (unat (sr_element_size r)) e \<and>
             spsc_elems r' = tl (spsc_elems r)))"
  using spsc_push_correct [OF assms] spsc_pop_correct [OF assms] by blast

theorem spsc_push_pop_correct_witness:
  "(\<exists>c r'. spsc_ring_push wrap_ring [1, 2, 9] = Some (c, r') \<and> spsc_inv r' \<and> c = 0 \<and>
     spsc_elems r' = [[14, 15], [1, 2]] \<and> sr_head wrap_ring = -1 \<and> sr_head r' = 0) \<and>
   (\<exists>c e' r'. spsc_ring_pop wrap_ring [1, 2, 9] = Some (c, e', r') \<and> spsc_inv r' \<and>
     c = 0 \<and> e' = [14, 15, 9] \<and> spsc_elems r' = [])"
proof -
  have "unat (sr_element_size wrap_ring) \<le> length [1::u8, 2, 9]" by (simp add: wrap_ring_def)
  note both = spsc_push_pop_correct [OF wrap_ring_inv this]
  have q: "\<not> spsc_ring_full wrap_ring" "\<not> spsc_ring_empty wrap_ring" "unat (sr_element_size wrap_ring) = 2"
    by (simp_all add: spsc_ring_full_def spsc_ring_empty_def spsc_ring_size_def wrap_ring_def)
  have "spsc_ring_push wrap_ring [1, 2, 9] =
      Some (0, wrap_ring\<lparr>sr_buf := [10, 11, 12, 13, 14, 15, 1, 2], sr_head := 0\<rparr>)"
    by (simp add: spsc_ring_push_def wrap_ring_def spsc_address_of_index_def memcpy_def)
  then show ?thesis using both q by (auto simp: wrap_ring_elems) (simp_all add: wrap_ring_def)
qed

text \<open>
  \<^verbatim>\<open>spsc_ring_push_n\<close> accepts as many elements as there is room for, returns that number,
  and leaves the queue that the same number of single pushes leaves: the two-part copy around
  the end of the buffer and the single publication are invisible.
\<close>

lemma spsc_push_n_is_iterated_push:
  assumes "spsc_inv r" and "unat n * unat (sr_element_size r) \<le> length e"
  shows "\<exists>c r1 k r2. spsc_ring_push_n r e n = Some (c, r1) \<and>
     spsc_push_each r (chunks (unat (sr_element_size r)) e (unat n)) = Some (k, r2) \<and>
     unat c = k \<and> k = min (unat n) (unat (sr_capacity r) - unat (spsc_ring_size r)) \<and>
     spsc_inv r1 \<and> spsc_elems r1 = spsc_elems r2"
proof -
  let ?es = "unat (sr_element_size r)"
  define m where "m = min (unat n) (unat (sr_capacity r) - length (spsc_elems r))"
  have "\<forall>x \<in> set (chunks ?es e (unat n)). length x = ?es"
  proof
    fix x assume "x \<in> set (chunks ?es e (unat n))"
    then obtain i where "i < unat n" "x = chunk ?es e i" by (auto simp: chunks_def)
    moreover from this assms(2) have "Suc i * ?es \<le> length e"
      using mult_le_mono1 [of "Suc i" "unat n" ?es] by simp
    ultimately show "length x = ?es" using length_chunk by blast
  qed
  then obtain r2 where r2: "spsc_push_each r (chunks ?es e (unat n)) = Some (m, r2)"
    "spsc_elems r2 = spsc_elems r @ take m (chunks ?es e (unat n))"
    using spsc_push_each_refines [OF assms(1), of "chunks ?es e (unat n)" m] by (auto simp: m_def)
  obtain r1 where r1: "spsc_ring_push_n r e n = Some (of_nat m, r1)" "spsc_inv r1"
    "spsc_elems r1 = spsc_elems r @ chunks ?es e m"
    using spsc_push_n_refines [OF assms m_def] by auto
  have "take m (chunks ?es e (unat n)) = chunks ?es e m"
    by (auto simp: m_def chunks_def take_map)
  moreover have "unat (of_nat m :: size_t) = m"
    by (rule unat_of_nat_le [of _ n]) (simp add: m_def)
  ultimately show ?thesis using r1 r2
    by (simp add: m_def spsc_ring_size_def length_spsc_elems)
qed

text \<open>
  \<^verbatim>\<open>spsc_ring_pop_n\<close> transfers the oldest \<open>min n size\<close> elements in order into the start of
  the caller's buffer, leaves the rest of that buffer alone, and returns their number.
\<close>

lemma spsc_pop_n_correct:
  assumes "spsc_inv r" and "unat n * unat (sr_element_size r) \<le> length e"
  shows "\<exists>c e' r'. spsc_ring_pop_n r e n = Some (c, e', r') \<and> spsc_inv r' \<and>
     unat c = min (unat n) (unat (spsc_ring_size r)) \<and>
     e' = concat (take (unat c) (spsc_elems r)) @ drop (unat c * unat (sr_element_size r)) e \<and>
     spsc_elems r' = drop (unat c) (spsc_elems r)"
proof -
  define m where "m = min (unat n) (length (spsc_elems r))"
  have "unat (of_nat m :: size_t) = m"
    by (rule unat_of_nat_le [of _ n]) (simp add: m_def)
  then show ?thesis
    using spsc_pop_n_refines [OF assms m_def]
    by (auto simp: m_def spsc_ring_size_def length_spsc_elems)
qed

text \<open>
  C3: The batch calls are as many single calls as fit. \<^verbatim>\<open>spsc_ring_push_n\<close> accepts as many elements as there
  is room for, returns that number and leaves the queue that the same number of single pushes leaves:
  the two-part copy around the end of the buffer and the single publication are invisible.
  \<^verbatim>\<open>spsc_ring_pop_n\<close> transfers the oldest \<open>min n size\<close> elements in order into the start of the caller's
  buffer, leaves the rest of that buffer alone, and returns their number.
\<close>

theorem spsc_batch_correct:
  assumes "spsc_inv r" and "unat n * unat (sr_element_size r) \<le> length e"
  shows "(\<exists>c r1 k r2. spsc_ring_push_n r e n = Some (c, r1) \<and>
       spsc_push_each r (chunks (unat (sr_element_size r)) e (unat n)) = Some (k, r2) \<and>
       unat c = k \<and> k = min (unat n) (unat (sr_capacity r) - unat (spsc_ring_size r)) \<and>
       spsc_inv r1 \<and> spsc_elems r1 = spsc_elems r2) \<and>
     (\<exists>c e' r'. spsc_ring_pop_n r e n = Some (c, e', r') \<and> spsc_inv r' \<and>
       unat c = min (unat n) (unat (spsc_ring_size r)) \<and>
       e' = concat (take (unat c) (spsc_elems r)) @ drop (unat c * unat (sr_element_size r)) e \<and>
       spsc_elems r' = drop (unat c) (spsc_elems r))"
  using spsc_push_n_is_iterated_push [OF assms] spsc_pop_n_correct [OF assms] by blast

theorem spsc_batch_correct_witness:
  "(\<exists>c r1 k r2. spsc_ring_push_n wrap_ring [1, 2, 3, 4, 5, 6, 7, 8] 4 = Some (c, r1) \<and>
     spsc_push_each wrap_ring (chunks 2 [1, 2, 3, 4, 5, 6, 7, 8] 4) = Some (k, r2) \<and>
     unat c = k \<and> k = 3 \<and> spsc_inv r1 \<and> spsc_elems r1 = spsc_elems r2) \<and>
   (\<exists>c e' r'. spsc_ring_pop_n wrap_ring [1, 2, 3, 4, 5, 6, 7, 8] 4 = Some (c, e', r') \<and> spsc_inv r' \<and>
     unat c = 1 \<and> e' = [14, 15, 3, 4, 5, 6, 7, 8] \<and> spsc_elems r' = [])"
proof -
  have "unat (4::size_t) * unat (sr_element_size wrap_ring) \<le> length [1::u8, 2, 3, 4, 5, 6, 7, 8]"
    by (simp add: wrap_ring_def)
  moreover have "unat (sr_element_size wrap_ring) = 2" "unat (sr_capacity wrap_ring) = 4"
    "unat (spsc_ring_size wrap_ring) = 1"
    by (simp_all add: wrap_ring_def spsc_ring_size_def)
  ultimately show ?thesis
    using spsc_batch_correct [OF wrap_ring_inv, of 4 "[1, 2, 3, 4, 5, 6, 7, 8]"] by (auto simp: wrap_ring_elems)
qed

text \<open>
  C6: \<^verbatim>\<open>spsc_ring_create\<close> returns \<^verbatim>\<open>NULL\<close> for a capacity that is not a power of two and for a
  zero element size, without allocating; when it returns a ring whose size fits 64 bits, the
  ring is empty and well formed. On every path the heap balances: what a failing call
  allocated it freed, and \<^verbatim>\<open>spsc_ring_destroy\<close> frees what a successful call allocated.
\<close>

theorem spsc_create_correct:
  assumes "malloc_sized malloc" and "spsc_ring_create aa malloc cap es = (res, evs)"
  shows "(\<not> is_pow2 cap \<or> es = 0 \<longrightarrow> res = None \<and> evs = []) \<and>
     (case res of
        None \<Rightarrow> live [] evs = []
      | Some r \<Rightarrow> live [] (evs @ spsc_ring_destroy r) = [] \<and>
          (unat cap * unat es < 2 ^ 64 \<longrightarrow> spsc_inv r \<and> spsc_elems r = [] \<and> spsc_ring_capacity r = cap))"
proof (cases res)
  case None
  with assms(2) show ?thesis
    by (auto simp: spsc_ring_create_def Let_def is_pow2_def split: if_splits option.splits)
next
  case (Some r)
  with assms(2) have c: "spsc_ring_create aa malloc cap es = (Some r, evs)" by simp
  show ?thesis
    using spsc_create_inv [OF c assms(1)] Some
    by (rule_tac spsc_create_Some [OF c]) (auto simp: spsc_ring_destroy_def spsc_ring_capacity_def)
qed

theorem spsc_create_correct_witness:
  "\<exists>r evs. spsc_ring_create (\<lambda>_. True) (\<lambda>n. Some (replicate n 0)) 2 3 = (Some r, evs) \<and>
     spsc_inv r \<and> spsc_elems r = [] \<and> live [] (evs @ spsc_ring_destroy r) = []"
proof -
  have m: "malloc_sized (\<lambda>n. Some (replicate n 0))" by (simp add: malloc_sized_def)
  obtain r evs where r: "spsc_ring_create (\<lambda>_. True) (\<lambda>n. Some (replicate n 0)) 2 3 = (Some r, evs)"
    by (simp add: spsc_ring_create_def Let_def)
  then show ?thesis using spsc_create_correct [OF m r] by simp
qed

text \<open>
  C7: \<^verbatim>\<open>spsc_ring_create\<close> does not reject a \<^verbatim>\<open>capacity * elem_size\<close> that overflows 64 bits,
  although the comment at the head of the file says it does. Whenever the product is \<open>2 ^ 64\<close> or more and the
  allocations succeed, a ring is returned whose buffer has the product modulo \<open>2 ^ 64\<close> as its size. It has room for
  fewer elements than the capacity: so many pushes succeed, and the next one, which the full test lets pass, writes outside the buffer.
\<close>

theorem spsc_create_overflow_unchecked:
  assumes cap: "is_pow2 cap" "es \<noteq> 0" and big: "2 ^ 64 \<le> unat cap * unat es"
    and mem: "aa (unat (struct_sz sizeof_spsc_ring))" "malloc (unat (cap * es)) \<noteq> None" "malloc_sized malloc"
  shows "\<exists>r evs k. spsc_ring_create aa malloc cap es = (Some r, evs) \<and> sr_capacity r = cap \<and>
    length (sr_buf r) = unat cap * unat es mod 2 ^ 64 \<and> k = length (sr_buf r) div unat es \<and> k < unat cap \<and>
    (\<forall>xs. list_all (\<lambda>x. length x = unat es) xs \<longrightarrow>
      (if length xs \<le> k then \<exists>r'. spsc_push_each r xs = Some (length xs, r') else spsc_push_each r xs = None))"
proof -
  obtain b where b: "malloc (unat (cap * es)) = Some b" using mem(2) by auto
  define r where "r = \<lparr> sr_capacity = cap, sr_mask = cap - 1, sr_element_size = es, sr_buf = b, sr_head = 0,
           sr_cached_tail = 0, sr_tail = 0, sr_cached_head = 0 \<rparr>"
  obtain evs where c: "spsc_ring_create aa malloc cap es = (Some r, evs)"
    using cap mem(1) b by (simp add: spsc_ring_create_def Let_def is_pow2_def r_def)
  have len: "length b = unat cap * unat es mod 2 ^ 64"
    using mem(3) b by (simp add: malloc_sized_def unat_word_ariths)
  have "0 < unat es" using cap(2) by (simp add: unat_gt_0)
  then have k: "length b div unat es < unat cap"
    using big len by (simp add: div_less_iff_less_mult)
  have "if length xs \<le> length b div unat es then \<exists>r'. spsc_push_each r xs = Some (length xs, r') else spsc_push_each r xs = None"
    if "list_all (\<lambda>x. length x = unat es) xs" for xs
    using overflowed_pushes [of r 0 "length b" es xs] that cap k len by (auto simp: r_def list_all_iff)
  moreover have "sr_capacity r = cap" "sr_buf r = b" by (simp_all add: r_def)
  ultimately show ?thesis using c k len by metis
qed

theorem spsc_create_overflow_unchecked_witness:
  "\<exists>r evs r'. spsc_ring_create (\<lambda>_. True) (\<lambda>n. Some (replicate n 0)) (2 ^ 33) (2 ^ 31 + 1) = (Some r, evs) \<and>
     spsc_push_each r (replicate 3 (replicate (2 ^ 31 + 1) 7)) = Some (3, r') \<and>
     spsc_push_each r (replicate 4 (replicate (2 ^ 31 + 1) 7)) = None"
proof -
  have m: "malloc_sized (\<lambda>n. Some (replicate n 0))" by (simp add: malloc_sized_def)
  have u: "is_pow2 (2 ^ 33 :: size_t)" "unat (2 ^ 33 :: size_t) = 2 ^ 33" "unat (2 ^ 31 + 1 :: size_t) = 2 ^ 31 + 1"
    by (simp_all add: is_pow2_def)
  have n: "2 ^ 33 * (2 ^ 31 + 1) mod 2 ^ 64 div (2 ^ 31 + 1) = (3 :: nat)" by simp
  obtain r evs where r: "spsc_ring_create (\<lambda>_. True) (\<lambda>n. Some (replicate n 0)) (2 ^ 33) (2 ^ 31 + 1) = (Some r, evs)"
    and p: "\<And>xs. list_all (\<lambda>x. length x = 2 ^ 31 + 1) xs \<Longrightarrow>
      if length xs \<le> 3 then \<exists>r'. spsc_push_each r xs = Some (length xs, r') else spsc_push_each r xs = None"
    using spsc_create_overflow_unchecked [OF u(1) _ _ _ _ m, of "2 ^ 31 + 1" "\<lambda>_. True", unfolded u n] by auto
  define x :: block where "x = replicate (2 ^ 31 + 1) 7"
  have "length x = 2 ^ 31 + 1" unfolding x_def by (rule length_replicate)
  then have "\<exists>r'. spsc_push_each r (replicate 3 x) = Some (3, r')" "spsc_push_each r (replicate 4 x) = None"
    using p [of "replicate 3 x"] p [of "replicate 4 x"] by (simp_all add: list_all_iff)
  with r show ?thesis unfolding x_def by blast
qed

end
