(* ===== verification/Spsc_Concurrent.thy ===== *)
theory Spsc_Concurrent
  imports Spsc_Ring
begin

text \<open>
  The same ring under concurrency: one producer thread and one consumer thread, interleaved at
  every atomic access and at every byte of every \<^verbatim>\<open>memcpy\<close>, in the release/acquire model of C11.

  Each of \<^verbatim>\<open>head\<close> and \<^verbatim>\<open>tail\<close> has a single writer; its stores form a list of messages (its
  modification order). An acquire load may return any message not older than the last one the
  thread has seen, so arbitrarily stale values are covered. A message carries the vector clock
  of its writer when the store is a release; an acquire load joins it into the reader's clock.
  Non-atomic byte accesses to \<^verbatim>\<open>buf\<close> and the times of the last read and write of each byte are
  recorded, and a conflicting access that is not ordered by happens-before sets \<open>cc_race\<close> (the
  check a happens-before race detector such as TSan makes). An access outside the buffer sets
  \<open>cc_oob\<close>.

  \<open>cc_pushed\<close> and \<open>cc_popped\<close> (the bytes published and returned so far) and \<open>msg_cnt\<close> (the
  number of elements published when the message was stored, without wrap-around) are
  observers: no step reads them to decide what it does.
\<close>

section \<open>Definitions\<close>

subsection \<open>State\<close>

text \<open>A vector clock: how many buffer accesses of the producer and of the consumer happened before.\<close>

type_synonym clk = "nat \<times> nat"

definition join :: "clk \<Rightarrow> clk \<Rightarrow> clk" where
  "join a b = (max (fst a) (fst b), max (snd a) (snd b))"

record msg =
  msg_val :: u64
  msg_cnt :: nat
  msg_clk :: clk

text \<open>
  Program counters. The loaded counter value (the local \<^verbatim>\<open>head\<close> or \<^verbatim>\<open>tail\<close>) travels with them.
  \<open>P_Copy\<close> holds the byte stores still to do, the bytes of the whole batch, and its size.
\<close>

datatype ppc =
    P_Idle
  | P_Push block u64
  | P_Push_Load block u64
  | P_Push_N block size_t u64
  | P_Push_N_Load block size_t u64
  | P_Copy "(nat \<times> u8) list" block size_t u64

datatype cpc =
    C_Idle
  | C_Pop u64
  | C_Pop_Load u64
  | C_Pop_N size_t u64
  | C_Pop_N_Load size_t u64
  | C_Copy "nat list" block size_t u64

record conc =
  cc_ring :: spsc_ring
  cc_heads :: "msg list"
  cc_tails :: "msg list"
  cc_p :: ppc
  cc_p_seen :: nat
  cc_p_clk :: clk
  cc_c :: cpc
  cc_c_seen :: nat
  cc_c_clk :: clk
  cc_w :: "nat \<Rightarrow> nat"
  cc_r :: "nat \<Rightarrow> nat"
  cc_race :: bool
  cc_oob :: bool
  cc_pushed :: block
  cc_popped :: block

subsection \<open>Addresses of a copy\<close>

definition push_addrs :: "spsc_ring \<Rightarrow> u64 \<Rightarrow> nat list" where
  "push_addrs r i = map (\<lambda>k. spsc_address_of_index r i + k) [0..<unat (sr_element_size r)]"

definition push_n_addrs :: "spsc_ring \<Rightarrow> u64 \<Rightarrow> size_t \<Rightarrow> nat list" where
  "push_n_addrs r i n =
     (let idx = i AND sr_mask r; first = spsc_first r i n; es = sr_element_size r
      in map (\<lambda>k. unat (idx * es) + k) [0..<unat (first * es)] @
         (if n > first then [0..<unat ((n - first) * es)] else []))"

subsection \<open>Memory accesses\<close>

text \<open>Acquire load of \<^verbatim>\<open>tail\<close> by the producer, reading message \<open>i\<close>; it also stores \<^verbatim>\<open>cached_tail\<close>.\<close>

definition acquire_tail :: "nat \<Rightarrow> conc \<Rightarrow> conc" where
  "acquire_tail i s = s\<lparr>
     cc_ring := (cc_ring s)\<lparr>sr_cached_tail := msg_val (cc_tails s ! i)\<rparr>,
     cc_p_seen := i,
     cc_p_clk := join (cc_p_clk s) (msg_clk (cc_tails s ! i))\<rparr>"

definition acquire_head :: "nat \<Rightarrow> conc \<Rightarrow> conc" where
  "acquire_head i s = s\<lparr>
     cc_ring := (cc_ring s)\<lparr>sr_cached_head := msg_val (cc_heads s ! i)\<rparr>,
     cc_c_seen := i,
     cc_c_clk := join (cc_c_clk s) (msg_clk (cc_heads s ! i))\<rparr>"

definition write_byte :: "nat \<Rightarrow> u8 \<Rightarrow> conc \<Rightarrow> conc" where
  "write_byte a b s =
     (let t = fst (cc_p_clk s) + 1 in
      s\<lparr> cc_ring := (cc_ring s)\<lparr>sr_buf := (sr_buf (cc_ring s))[a := b]\<rparr>,
         cc_p_clk := (t, snd (cc_p_clk s)),
         cc_w := (cc_w s)(a := t),
         cc_race := (cc_race s \<or> cc_r s a > snd (cc_p_clk s)),
         cc_oob := (cc_oob s \<or> a \<ge> length (sr_buf (cc_ring s))) \<rparr>)"

definition read_byte :: "nat \<Rightarrow> conc \<Rightarrow> conc" where
  "read_byte a s =
     (let t = snd (cc_c_clk s) + 1 in
      s\<lparr> cc_c_clk := (fst (cc_c_clk s), t),
         cc_r := (cc_r s)(a := t),
         cc_race := (cc_race s \<or> cc_w s a > fst (cc_c_clk s)),
         cc_oob := (cc_oob s \<or> a \<ge> length (sr_buf (cc_ring s))) \<rparr>)"

text \<open>Release stores: the message carries the clock of the storing thread.\<close>

definition release_head :: "size_t \<Rightarrow> u64 \<Rightarrow> block \<Rightarrow> conc \<Rightarrow> conc" where
  "release_head n h d s = s\<lparr>
     cc_ring := (cc_ring s)\<lparr>sr_head := h + n\<rparr>,
     cc_heads := cc_heads s @
       [\<lparr>msg_val = h + n, msg_cnt = msg_cnt (last (cc_heads s)) + unat n, msg_clk = cc_p_clk s\<rparr>],
     cc_pushed := cc_pushed s @ d\<rparr>"

definition release_tail :: "size_t \<Rightarrow> u64 \<Rightarrow> block \<Rightarrow> conc \<Rightarrow> conc" where
  "release_tail n t d s = s\<lparr>
     cc_ring := (cc_ring s)\<lparr>sr_tail := t + n\<rparr>,
     cc_tails := cc_tails s @
       [\<lparr>msg_val = t + n, msg_cnt = msg_cnt (last (cc_tails s)) + unat n, msg_clk = cc_c_clk s\<rparr>],
     cc_popped := cc_popped s @ d\<rparr>"

subsection \<open>The producer thread\<close>

definition push_copy :: "block \<Rightarrow> u64 \<Rightarrow> conc \<Rightarrow> conc" where
  "push_copy e h s =
     (let r = cc_ring s; d = take (unat (sr_element_size r)) e
      in s\<lparr>cc_p := P_Copy (zip (push_addrs r h) d) d 1 h\<rparr>)"

definition push_n_copy :: "block \<Rightarrow> size_t \<Rightarrow> u64 \<Rightarrow> conc \<Rightarrow> conc" where
  "push_n_copy e n h s =
     (let r = cc_ring s; d = take (unat (n * sr_element_size r)) e
      in if n = 0 then s\<lparr>cc_p := P_Idle\<rparr>
         else s\<lparr>cc_p := P_Copy (zip (push_n_addrs r h n) d) d n h\<rparr>)"

text \<open>
  One step of the producer; \<open>i\<close> is the message an acquire load reads. \<open>None\<close>: no such step.
\<close>

definition p_step :: "nat \<Rightarrow> conc \<Rightarrow> conc option" where
  "p_step i s =
     (let r = cc_ring s in
      case cc_p s of
        P_Idle \<Rightarrow> None
      | P_Push e h \<Rightarrow>
          if h - sr_cached_tail r \<ge> sr_capacity r then Some (s\<lparr>cc_p := P_Push_Load e h\<rparr>)
          else Some (push_copy e h s)
      | P_Push_Load e h \<Rightarrow>
          if cc_p_seen s \<le> i \<and> i < length (cc_tails s)
          then let s = acquire_tail i s in
               if h - sr_cached_tail (cc_ring s) \<ge> sr_capacity r then Some (s\<lparr>cc_p := P_Idle\<rparr>)
               else Some (push_copy e h s)
          else None
      | P_Push_N e n h \<Rightarrow>
          if sr_capacity r - (h - sr_cached_tail r) < n then Some (s\<lparr>cc_p := P_Push_N_Load e n h\<rparr>)
          else Some (push_n_copy e n h s)
      | P_Push_N_Load e n h \<Rightarrow>
          if cc_p_seen s \<le> i \<and> i < length (cc_tails s)
          then let s = acquire_tail i s;
                   remaining = sr_capacity r - (h - sr_cached_tail (cc_ring s))
               in Some (push_n_copy e (if remaining < n then remaining else n) h s)
          else None
      | P_Copy ((a, b) # todo) d n h \<Rightarrow> Some ((write_byte a b s)\<lparr>cc_p := P_Copy todo d n h\<rparr>)
      | P_Copy [] d n h \<Rightarrow> Some ((release_head n h d s)\<lparr>cc_p := P_Idle\<rparr>))"

subsection \<open>The consumer thread\<close>

definition pop_copy :: "u64 \<Rightarrow> conc \<Rightarrow> conc" where
  "pop_copy t s = s\<lparr>cc_c := C_Copy (push_addrs (cc_ring s) t) [] 1 t\<rparr>"

definition pop_n_copy :: "size_t \<Rightarrow> u64 \<Rightarrow> conc \<Rightarrow> conc" where
  "pop_n_copy n t s =
     (if n = 0 then s\<lparr>cc_c := C_Idle\<rparr>
      else s\<lparr>cc_c := C_Copy (push_n_addrs (cc_ring s) t n) [] n t\<rparr>)"

definition c_step :: "nat \<Rightarrow> conc \<Rightarrow> conc option" where
  "c_step i s =
     (let r = cc_ring s in
      case cc_c s of
        C_Idle \<Rightarrow> None
      | C_Pop t \<Rightarrow>
          if t = sr_cached_head r then Some (s\<lparr>cc_c := C_Pop_Load t\<rparr>) else Some (pop_copy t s)
      | C_Pop_Load t \<Rightarrow>
          if cc_c_seen s \<le> i \<and> i < length (cc_heads s)
          then let s = acquire_head i s in
               if t = sr_cached_head (cc_ring s) then Some (s\<lparr>cc_c := C_Idle\<rparr>)
               else Some (pop_copy t s)
          else None
      | C_Pop_N n t \<Rightarrow>
          if sr_cached_head r - t < n then Some (s\<lparr>cc_c := C_Pop_N_Load n t\<rparr>)
          else Some (pop_n_copy n t s)
      | C_Pop_N_Load n t \<Rightarrow>
          if cc_c_seen s \<le> i \<and> i < length (cc_heads s)
          then let s = acquire_head i s; avail = sr_cached_head (cc_ring s) - t
               in Some (pop_n_copy (if avail < n then avail else n) t s)
          else None
      | C_Copy (a # todo) d n t \<Rightarrow>
          Some ((read_byte a s)\<lparr>cc_c := C_Copy todo (d @ [sr_buf (cc_ring s) ! a]) n t\<rparr>)
      | C_Copy [] d n t \<Rightarrow> Some ((release_tail n t d s)\<lparr>cc_c := C_Idle\<rparr>))"

subsection \<open>Interleavings\<close>

text \<open>
  A scheduler action: a thread enters a call (a relaxed load of its own counter, which as the
  only writer it reads exactly), or takes its next step.
\<close>

datatype act =
    Call_Push block
  | Call_Push_N block size_t
  | Call_Pop
  | Call_Pop_N size_t
  | Producer nat
  | Consumer nat

fun conc_step :: "act \<Rightarrow> conc \<Rightarrow> conc option" where
  "conc_step (Call_Push e) s =
     (if cc_p s = P_Idle \<and> unat (sr_element_size (cc_ring s)) \<le> length e
      then Some (s\<lparr>cc_p := P_Push e (sr_head (cc_ring s))\<rparr>) else None)"
| "conc_step (Call_Push_N e n) s =
     (if cc_p s = P_Idle \<and> unat n * unat (sr_element_size (cc_ring s)) \<le> length e
      then Some (s\<lparr>cc_p := P_Push_N e n (sr_head (cc_ring s))\<rparr>) else None)"
| "conc_step Call_Pop s =
     (if cc_c s = C_Idle then Some (s\<lparr>cc_c := C_Pop (sr_tail (cc_ring s))\<rparr>) else None)"
| "conc_step (Call_Pop_N n) s =
     (if cc_c s = C_Idle then Some (s\<lparr>cc_c := C_Pop_N n (sr_tail (cc_ring s))\<rparr>) else None)"
| "conc_step (Producer i) s = p_step i s"
| "conc_step (Consumer i) s = c_step i s"

fun conc_run :: "act list \<Rightarrow> conc \<Rightarrow> conc option" where
  "conc_run [] s = Some s"
| "conc_run (a # as) s = (case conc_step a s of None \<Rightarrow> None | Some s' \<Rightarrow> conc_run as s')"

definition init_msg :: msg where
  "init_msg = \<lparr>msg_val = 0, msg_cnt = 0, msg_clk = (0, 0)\<rparr>"

definition conc_init :: "spsc_ring \<Rightarrow> conc" where
  "conc_init r = \<lparr> cc_ring = r, cc_heads = [init_msg], cc_tails = [init_msg],
     cc_p = P_Idle, cc_p_seen = 0, cc_p_clk = (0, 0),
     cc_c = C_Idle, cc_c_seen = 0, cc_c_clk = (0, 0),
     cc_w = (\<lambda>_. 0), cc_r = (\<lambda>_. 0), cc_race = False, cc_oob = False,
     cc_pushed = [], cc_popped = [] \<rparr>"

text \<open>A ring as \<^verbatim>\<open>spsc_ring_create\<close> returns it.\<close>

definition fresh_ring :: "spsc_ring \<Rightarrow> bool" where
  "fresh_ring r \<longleftrightarrow> spsc_inv r \<and> sr_head r = 0 \<and> sr_tail r = 0 \<and> sr_cached_tail r = 0 \<and> sr_cached_head r = 0"

inductive conc_reachable :: "spsc_ring \<Rightarrow> conc \<Rightarrow> bool" for r where
  start: "fresh_ring r \<Longrightarrow> conc_reachable r (conc_init r)"
| step: "conc_reachable r s \<Longrightarrow> conc_step a s = Some s' \<Longrightarrow> conc_reachable r s'"

subsection \<open>The invariant\<close>

abbreviation esz :: "conc \<Rightarrow> nat" where "esz s \<equiv> unat (sr_element_size (cc_ring s))"
abbreviation capn :: "conc \<Rightarrow> nat" where "capn s \<equiv> unat (sr_capacity (cc_ring s))"

text \<open>Elements published and consumed so far, and what each side has seen of the other.\<close>

abbreviation hcnt :: "conc \<Rightarrow> nat" where "hcnt s \<equiv> msg_cnt (last (cc_heads s))"
abbreviation tcnt :: "conc \<Rightarrow> nat" where "tcnt s \<equiv> msg_cnt (last (cc_tails s))"
abbreviation pct :: "conc \<Rightarrow> nat" where "pct s \<equiv> msg_cnt (cc_tails s ! cc_p_seen s)"
abbreviation cch :: "conc \<Rightarrow> nat" where "cch s \<equiv> msg_cnt (cc_heads s ! cc_c_seen s)"

text \<open>The buffer byte that holds byte \<open>q\<close> of the stream.\<close>

abbreviation pos :: "conc \<Rightarrow> nat \<Rightarrow> nat" where "pos s q \<equiv> q mod (capn s * esz s)"

definition inv_static :: "conc \<Rightarrow> bool" where
  "inv_static s \<longleftrightarrow>
     is_pow2 (sr_capacity (cc_ring s)) \<and> sr_mask (cc_ring s) = sr_capacity (cc_ring s) - 1 \<and>
     sr_element_size (cc_ring s) \<noteq> 0 \<and> length (sr_buf (cc_ring s)) = capn s * esz s \<and>
     length (sr_buf (cc_ring s)) < 2 ^ 64"

definition inv_msgs :: "conc \<Rightarrow> bool" where
  "inv_msgs s \<longleftrightarrow>
     sorted (map msg_cnt (cc_heads s)) \<and> sorted (map msg_cnt (cc_tails s)) \<and>
     (\<forall>m \<in> set (cc_heads s) \<union> set (cc_tails s). msg_val m = of_nat (msg_cnt m)) \<and>
     cc_p_seen s < length (cc_tails s) \<and> cc_c_seen s < length (cc_heads s) \<and>
     sr_head (cc_ring s) = of_nat (hcnt s) \<and> sr_tail (cc_ring s) = of_nat (tcnt s) \<and>
     sr_cached_tail (cc_ring s) = of_nat (pct s) \<and> sr_cached_head (cc_ring s) = of_nat (cch s)"

definition inv_counts :: "conc \<Rightarrow> bool" where
  "inv_counts s \<longleftrightarrow> tcnt s \<le> cch s \<and> hcnt s \<le> pct s + capn s"

definition inv_data :: "conc \<Rightarrow> bool" where
  "inv_data s \<longleftrightarrow>
     length (cc_pushed s) = hcnt s * esz s \<and> cc_popped s = take (tcnt s * esz s) (cc_pushed s) \<and>
     (\<forall>q. tcnt s * esz s \<le> q \<and> q < hcnt s * esz s \<longrightarrow>
        sr_buf (cc_ring s) ! pos s q = cc_pushed s ! q)"

text \<open>
  Happens-before: whoever has seen a head message knows of the writes of every live byte it
  covers, and whoever has seen a tail message knows of the reads of every byte it frees.
\<close>

definition inv_hb :: "conc \<Rightarrow> bool" where
  "inv_hb s \<longleftrightarrow>
     (\<forall>a. cc_w s a \<le> fst (cc_p_clk s)) \<and> (\<forall>a. cc_r s a \<le> snd (cc_c_clk s)) \<and>
     fst (msg_clk (cc_heads s ! cc_c_seen s)) \<le> fst (cc_c_clk s) \<and>
     snd (msg_clk (cc_tails s ! cc_p_seen s)) \<le> snd (cc_p_clk s) \<and>
     (\<forall>m \<in> set (cc_heads s). \<forall>q. tcnt s * esz s \<le> q \<and> q < msg_cnt m * esz s \<longrightarrow>
        cc_w s (pos s q) \<le> fst (msg_clk m)) \<and>
     (\<forall>m \<in> set (cc_tails s). \<forall>q. hcnt s * esz s \<le> q \<and> q < (msg_cnt m + capn s) * esz s \<longrightarrow>
        cc_r s (pos s q) \<le> snd (msg_clk m))"

definition inv_p :: "conc \<Rightarrow> bool" where
  "inv_p s \<longleftrightarrow>
     (case cc_p s of
        P_Idle \<Rightarrow> True
      | P_Push e h \<Rightarrow> h = sr_head (cc_ring s) \<and> esz s \<le> length e
      | P_Push_Load e h \<Rightarrow> h = sr_head (cc_ring s) \<and> esz s \<le> length e
      | P_Push_N e n h \<Rightarrow> h = sr_head (cc_ring s) \<and> unat n * esz s \<le> length e
      | P_Push_N_Load e n h \<Rightarrow> h = sr_head (cc_ring s) \<and> unat n * esz s \<le> length e
      | P_Copy todo d n h \<Rightarrow> h = sr_head (cc_ring s) \<and> hcnt s + unat n \<le> pct s + capn s \<and>
          length d = unat n * esz s \<and>
          (\<exists>j \<le> length d. todo = map (\<lambda>i. (pos s (hcnt s * esz s + i), d ! i)) [j..<length d] \<and>
             (\<forall>i < j. sr_buf (cc_ring s) ! pos s (hcnt s * esz s + i) = d ! i)))"

definition inv_c :: "conc \<Rightarrow> bool" where
  "inv_c s \<longleftrightarrow>
     (case cc_c s of
        C_Idle \<Rightarrow> True
      | C_Pop t \<Rightarrow> t = sr_tail (cc_ring s)
      | C_Pop_Load t \<Rightarrow> t = sr_tail (cc_ring s)
      | C_Pop_N n t \<Rightarrow> t = sr_tail (cc_ring s)
      | C_Pop_N_Load n t \<Rightarrow> t = sr_tail (cc_ring s)
      | C_Copy todo d n t \<Rightarrow> t = sr_tail (cc_ring s) \<and> tcnt s + unat n \<le> cch s \<and>
          length d \<le> unat n * esz s \<and>
          todo = map (\<lambda>i. pos s (tcnt s * esz s + i)) [length d..<unat n * esz s] \<and>
          d = take (length d) (drop (tcnt s * esz s) (cc_pushed s)))"

definition conc_inv :: "conc \<Rightarrow> bool" where
  "conc_inv s \<longleftrightarrow> inv_static s \<and> inv_msgs s \<and> inv_counts s \<and> inv_data s \<and> inv_hb s \<and>
     inv_p s \<and> inv_c s \<and> \<not> cc_race s \<and> \<not> cc_oob s"

section \<open>Consequences of the invariant\<close>

lemmas conc_inv_parts = inv_static_def inv_msgs_def inv_counts_def inv_data_def inv_hb_def

lemma inv_msgs_nonempty: "inv_msgs s \<Longrightarrow> cc_heads s \<noteq> [] \<and> cc_tails s \<noteq> []"
  by (auto simp: inv_msgs_def)

lemma sorted_nth_last: "sorted (map f ms) \<Longrightarrow> i < length ms \<Longrightarrow> f (ms ! i) \<le> f (last ms)"
  for f :: "'m \<Rightarrow> nat"
  by (cases ms rule: rev_cases) (auto simp: sorted_append nth_append)

lemma sorted_in_last: "sorted (map f ms) \<Longrightarrow> m \<in> set ms \<Longrightarrow> f m \<le> f (last ms)"
  for f :: "'m \<Rightarrow> nat"
  by (auto simp: in_set_conv_nth intro: sorted_nth_last)

lemma seen_le:
  assumes "inv_msgs s"
  shows "pct s \<le> tcnt s" and "cch s \<le> hcnt s"
  using assms by (auto simp: inv_msgs_def intro!: sorted_nth_last)

lemma conc_order:
  assumes "conc_inv s"
  shows "pct s \<le> tcnt s" "tcnt s \<le> cch s" "cch s \<le> hcnt s" "hcnt s \<le> pct s + capn s"
  using assms seen_le [of s] by (auto simp: conc_inv_def inv_counts_def)

lemma conc_sizes:
  assumes "inv_static s"
  shows "0 < capn s" "0 < esz s" "0 < capn s * esz s" "2 * capn s \<le> 2 ^ 64"
  using assms is_pow2_pos [of "sr_capacity (cc_ring s)"] is_pow2_le_half [of "sr_capacity (cc_ring s)"]
  by (auto simp: inv_static_def unat_gt_0)

text \<open>The distance of two wrapped counters is the distance of the true counts.\<close>

lemma wrapped_distance:
  fixes a b :: nat
  assumes "a \<le> b" "b - a < 2 ^ LENGTH('w)"
  shows "unat (of_nat b - of_nat a :: 'w::len word) = b - a"
proof -
  have "of_nat b - of_nat a = (of_nat (b - a) :: 'w word)" using assms(1) by (simp only: of_nat_diff)
  then show ?thesis using assms(2) by (simp only: unat_of_nat mod_less)
qed

text \<open>Stream positions less than one buffer apart use different bytes.\<close>

lemma mod_neq:
  fixes B :: nat
  assumes "a < b" "b < a + B"
  shows "a mod B \<noteq> b mod B"
proof
  assume "a mod B = b mod B"
  then have "0 = b - a"
    using assms by (intro mod_window_inj_le [of 0 "b - a" B a]) simp_all
  with assms show False by simp
qed

text \<open>The byte addresses of a copy are consecutive stream positions.\<close>

lemma static_ring:
  assumes "inv_static s"
  shows "spsc_inv ((cc_ring s)\<lparr>sr_head := 0, sr_tail := 0, sr_cached_tail := 0, sr_cached_head := 0\<rparr>)"
  using assms by (simp add: inv_static_def spsc_inv_def)

lemma slot_of_count:
  assumes "inv_static s"
  shows "unat ((of_nat k :: u64) AND (sr_capacity (cc_ring s) - 1)) = k mod capn s"
proof -
  have p: "is_pow2 (sr_capacity (cc_ring s))" using assms by (simp add: inv_static_def)
  then show ?thesis
    using unat_plus_mod_dvd [OF is_pow2_dvd [OF p], of 0 k] by (simp add: and_mask_is_mod)
qed

lemma mod_scale_add: "((j mod cap) * es + i) mod (cap * es) = (j * es + i) mod (cap * es)"
  for cap es :: nat
  by (metis mod_add_left_eq mod_mult_mult2)

lemma pos_in_slot:
  fixes cap es :: nat
  assumes "i < es" "0 < cap"
  shows "(j * es + i) mod (cap * es) = (j mod cap) * es + i"
proof -
  have "(j mod cap) * es + i < Suc (j mod cap) * es" using assms by simp
  also have "\<dots> \<le> cap * es" using assms by (intro mult_le_mono1) (simp add: Suc_leI)
  finally have "((j mod cap) * es + i) mod (cap * es) = (j mod cap) * es + i" by (rule mod_less)
  then show ?thesis by (simp only: mod_scale_add)
qed

lemma push_addrs_pos:
  assumes s: "inv_static s"
  shows "push_addrs (cc_ring s) (of_nat k) = map (\<lambda>i. pos s (k * esz s + i)) [0..<esz s]"
proof -
  have "spsc_address_of_index (cc_ring s) (of_nat k) = (k mod capn s) * esz s"
    using spsc_address [OF static_ring [OF s], of "of_nat k"] slot_of_count [OF s, of k]
    by (simp add: spsc_address_of_index_def)
  then show ?thesis
    using conc_sizes [OF s] by (auto simp: push_addrs_def pos_in_slot)
qed

text \<open>A run of bytes that starts in slot \<open>idx\<close> and is cut at the end of the buffer.\<close>

lemma wrapped_run:
  fixes B :: nat
  assumes "x < B" "f = min m (B - x)" "m \<le> B"
  shows "map (\<lambda>i. x + i) [0..<f] @ [0..<m - f] = map (\<lambda>i. (x + i) mod B) [0..<m]"
  using assms by (auto simp: nth_append wrap_index min_def intro!: nth_equalityI)

lemma push_n_addrs_pos:
  assumes s: "inv_static s" and n: "unat n \<le> capn s"
  shows "push_n_addrs (cc_ring s) (of_nat k) n = map (\<lambda>i. pos s (k * esz s + i)) [0..<unat n * esz s]"
proof -
  let ?r = "(cc_ring s)\<lparr>sr_head := 0, sr_tail := 0, sr_cached_tail := 0, sr_cached_head := 0\<rparr>"
  let ?f = "spsc_first (cc_ring s) (of_nat k) n" and ?x = "(k mod capn s) * esz s"
  have fr: "spsc_first ?r i n = spsc_first (cc_ring s) i n" for i by (simp add: spsc_first_def)
  note inv = static_ring [OF s]
  have off: "unat ((of_nat k AND sr_mask (cc_ring s)) * sr_element_size (cc_ring s)) = ?x"
    "unat (?f * sr_element_size (cc_ring s)) = unat ?f * esz s"
    "unat ((n - ?f) * sr_element_size (cc_ring s)) = (unat n - unat ?f) * esz s" "?f \<le> n"
    using spsc_batch_offsets [OF inv, of n "of_nat k"] n slot_of_count [OF s, of k] by (simp_all add: fr)
  have f: "unat ?f = min (unat n) (capn s - k mod capn s)"
    using spsc_first_part [OF inv, of "of_nat k" n] slot_of_count [OF s, of k] by (simp add: fr)
  have "push_n_addrs (cc_ring s) (of_nat k) n =
      map (\<lambda>i. ?x + i) [0..<unat ?f * esz s] @ [0..<unat n * esz s - unat ?f * esz s]"
    using off(4) by (auto simp: push_n_addrs_def Let_def off(1-3) diff_mult_distrib)
  also have "\<dots> = map (\<lambda>i. (?x + i) mod (capn s * esz s)) [0..<unat n * esz s]"
  proof (rule wrapped_run)
    show "?x < capn s * esz s" using conc_sizes [OF s] by simp
    show "unat ?f * esz s = min (unat n * esz s) (capn s * esz s - ?x)"
      by (simp add: f nat_mult_min_left diff_mult_distrib)
    show "unat n * esz s \<le> capn s * esz s" using n by simp
  qed
  also have "\<dots> = map (\<lambda>i. pos s (k * esz s + i)) [0..<unat n * esz s]"
    by (simp only: mod_scale_add)
  finally show ?thesis .
qed

end
