(* ===== verification/Spsc_Race_Free.thy ===== *)
theory Spsc_Race_Free
  imports Spsc_Concurrent
begin

text \<open>
  Every step of either thread keeps the invariant of \<open>Spsc_Concurrent\<close>; so every reachable
  state is free of data races and of accesses outside the buffer, and what the consumer has
  received is a prefix of what the producer has published.
\<close>

section \<open>Definitions\<close>

definition p_copying :: "conc \<Rightarrow> bool" where
  "p_copying s \<longleftrightarrow> (\<exists>todo d n h. cc_p s = P_Copy todo d n h)"

definition c_copying :: "conc \<Rightarrow> bool" where
  "c_copying s \<longleftrightarrow> (\<exists>todo d n t. cc_c s = C_Copy todo d n t)"

section \<open>Changing a program counter\<close>

lemma inv_c_set_p [simp]: "inv_c (s\<lparr>cc_p := pc\<rparr>) = inv_c s"
  by (cases "cc_c s") (simp_all add: inv_c_def)

lemma inv_p_set_c [simp]: "inv_p (s\<lparr>cc_c := pc\<rparr>) = inv_p s"
  by (cases "cc_p s") (simp_all add: inv_p_def)

lemma set_p: "conc_inv s \<Longrightarrow> inv_p (s\<lparr>cc_p := pc\<rparr>) \<Longrightarrow> conc_inv (s\<lparr>cc_p := pc\<rparr>)"
  by (simp add: conc_inv_def conc_inv_parts)

lemma set_c: "conc_inv s \<Longrightarrow> inv_c (s\<lparr>cc_c := pc\<rparr>) \<Longrightarrow> conc_inv (s\<lparr>cc_c := pc\<rparr>)"
  by (simp add: conc_inv_def conc_inv_parts)

section \<open>Acquire loads\<close>

lemma sorted_seen_mono:
  "sorted (map f ms) \<Longrightarrow> i \<le> j \<Longrightarrow> j < length ms \<Longrightarrow> f (ms ! i) \<le> f (ms ! j)" for f :: "'m \<Rightarrow> nat"
  using sorted_nth_mono [of "map f ms" i j] by simp

lemma acquire_tail_inv:
  assumes inv: "conc_inv s" and i: "cc_p_seen s \<le> i" "i < length (cc_tails s)"
    and np: "\<not> p_copying s"
  shows "conc_inv (acquire_tail i s)"
proof -
  let ?s = "acquire_tail i s"
  have parts: "inv_static s" "inv_msgs s" "inv_counts s" "inv_data s" "inv_hb s" "inv_p s" "inv_c s"
    "\<not> cc_race s" "\<not> cc_oob s"
    using inv by (auto simp: conc_inv_def)
  have "pct s \<le> msg_cnt (cc_tails s ! i)"
    using parts(2) i by (auto simp: inv_msgs_def intro: sorted_seen_mono)
  then have "inv_counts ?s"
    using parts(3) by (auto simp: inv_counts_def acquire_tail_def)
  moreover have "inv_static ?s" "inv_data ?s" "inv_c ?s"
    using parts by (simp_all add: inv_static_def inv_data_def inv_c_def acquire_tail_def split: cpc.splits)
  moreover have "inv_msgs ?s"
    using parts(2) i by (simp add: inv_msgs_def acquire_tail_def)
  moreover have "inv_hb ?s"
    using parts(5) by (auto simp: inv_hb_def acquire_tail_def join_def le_max_iff_disj)
  moreover have "inv_p ?s"
    using parts(6) np by (auto simp: inv_p_def p_copying_def acquire_tail_def split: ppc.splits)
  ultimately show ?thesis
    using parts(8,9) by (simp add: conc_inv_def acquire_tail_def)
qed

lemma acquire_head_inv:
  assumes inv: "conc_inv s" and i: "cc_c_seen s \<le> i" "i < length (cc_heads s)"
    and nc: "\<not> c_copying s"
  shows "conc_inv (acquire_head i s)"
proof -
  let ?s = "acquire_head i s"
  have parts: "inv_static s" "inv_msgs s" "inv_counts s" "inv_data s" "inv_hb s" "inv_p s" "inv_c s"
    "\<not> cc_race s" "\<not> cc_oob s"
    using inv by (auto simp: conc_inv_def)
  have "cch s \<le> msg_cnt (cc_heads s ! i)"
    using parts(2) i by (auto simp: inv_msgs_def intro: sorted_seen_mono)
  then have "inv_counts ?s"
    using parts(3) by (auto simp: inv_counts_def acquire_head_def)
  moreover have "inv_p ?s = inv_p s" by (cases "cc_p s") (simp_all add: inv_p_def acquire_head_def)
  moreover have "inv_static ?s" "inv_data ?s"
    using parts by (simp_all add: inv_static_def inv_data_def acquire_head_def)
  moreover have "inv_msgs ?s"
    using parts(2) i by (simp add: inv_msgs_def acquire_head_def)
  moreover have "inv_hb ?s"
    using parts(5) by (auto simp: inv_hb_def acquire_head_def join_def le_max_iff_disj)
  moreover have "inv_c ?s"
    using parts(7) nc by (auto simp: inv_c_def c_copying_def acquire_head_def split: cpc.splits)
  ultimately show ?thesis
    using parts(6,8,9) by (simp add: conc_inv_def acquire_head_def)
qed

section \<open>Starting a copy\<close>

lemma zip_map_upt: "length d = n \<Longrightarrow> zip (map f [0..<n]) d = map (\<lambda>i. (f i, d ! i)) [0..<n]"
  by (auto intro!: nth_equalityI)

lemma producer_distance:
  assumes "conc_inv s"
  shows "unat (sr_head (cc_ring s) - sr_cached_tail (cc_ring s)) = hcnt s - pct s"
proof -
  have "hcnt s - pct s < 2 ^ LENGTH(64)"
    using conc_order [OF assms] conc_sizes [of s] assms by (simp add: conc_inv_def)
  moreover have "pct s \<le> hcnt s" using conc_order [OF assms] by simp
  ultimately show ?thesis
    using assms wrapped_distance [where 'w = 64, of "pct s" "hcnt s"] by (simp add: conc_inv_def inv_msgs_def)
qed

lemma consumer_distance:
  assumes "conc_inv s"
  shows "unat (sr_cached_head (cc_ring s) - sr_tail (cc_ring s)) = cch s - tcnt s"
proof -
  have "cch s - tcnt s < 2 ^ LENGTH(64)"
    using conc_order [OF assms] conc_sizes [of s] assms by (simp add: conc_inv_def)
  then show ?thesis
    using assms wrapped_distance [where 'w = 64, of "tcnt s" "cch s"] conc_order [OF assms]
    by (simp add: conc_inv_def inv_msgs_def)
qed

lemma head_addrs:
  assumes "conc_inv s"
  shows "push_addrs (cc_ring s) (sr_head (cc_ring s)) = map (\<lambda>i. pos s (hcnt s * esz s + i)) [0..<esz s]"
    and "unat n \<le> capn s \<Longrightarrow> push_n_addrs (cc_ring s) (sr_head (cc_ring s)) n =
      map (\<lambda>i. pos s (hcnt s * esz s + i)) [0..<unat n * esz s]"
  using assms push_addrs_pos [of s "hcnt s"] push_n_addrs_pos [of s n "hcnt s"]
  by (simp_all add: conc_inv_def inv_msgs_def)

lemma tail_addrs:
  assumes "conc_inv s"
  shows "push_addrs (cc_ring s) (sr_tail (cc_ring s)) = map (\<lambda>i. pos s (tcnt s * esz s + i)) [0..<esz s]"
    and "unat n \<le> capn s \<Longrightarrow> push_n_addrs (cc_ring s) (sr_tail (cc_ring s)) n =
      map (\<lambda>i. pos s (tcnt s * esz s + i)) [0..<unat n * esz s]"
  using assms push_addrs_pos [of s "tcnt s"] push_n_addrs_pos [of s n "tcnt s"]
  by (simp_all add: conc_inv_def inv_msgs_def)

lemma push_copy_inv:
  assumes inv: "conc_inv s" and h: "h = sr_head (cc_ring s)" and e: "esz s \<le> length e"
    and room: "\<not> h - sr_cached_tail (cc_ring s) \<ge> sr_capacity (cc_ring s)"
  shows "conc_inv (push_copy e h s)"
proof -
  have st: "inv_static s" using inv by (simp add: conc_inv_def)
  have "hcnt s + 1 \<le> pct s + capn s"
    using room producer_distance [OF inv] h by (simp add: word_le_nat_alt)
  then show ?thesis
    unfolding push_copy_def Let_def using h e
    by (intro set_p [OF inv])
      (auto simp: inv_p_def head_addrs [OF inv] zip_map_upt intro!: exI [of _ 0])
qed

lemma push_n_copy_inv:
  assumes inv: "conc_inv s" and h: "h = sr_head (cc_ring s)" and e: "unat n * esz s \<le> length e"
    and room: "unat n \<le> capn s - (hcnt s - pct s)"
  shows "conc_inv (push_n_copy e n h s)"
proof -
  have st: "inv_static s" using inv by (simp add: conc_inv_def)
  have r: "hcnt s + unat n \<le> pct s + capn s" and n: "unat n \<le> capn s"
    using room conc_order [OF inv] by linarith+
  have "unat (n * sr_element_size (cc_ring s)) = unat n * esz s"
    using unat_mult_es [OF static_ring [OF st], of n] n by simp
  then show ?thesis
    unfolding push_n_copy_def Let_def using h e r
    by (auto intro!: set_p [OF inv] exI [of _ 0]
        simp: inv_p_def head_addrs(2) [OF inv n] zip_map_upt)
qed

lemma pop_copy_inv:
  assumes inv: "conc_inv s" and t: "t = sr_tail (cc_ring s)"
    and ne: "t \<noteq> sr_cached_head (cc_ring s)"
  shows "conc_inv (pop_copy t s)"
proof -
  have st: "inv_static s" using inv by (simp add: conc_inv_def)
  have "cch s \<noteq> tcnt s"
  proof
    assume "cch s = tcnt s"
    with inv ne t show False by (simp add: conc_inv_def inv_msgs_def)
  qed
  then have "tcnt s + 1 \<le> cch s" using conc_order [OF inv] by simp
  then show ?thesis
    unfolding pop_copy_def using t
    by (intro set_c [OF inv]) (simp add: inv_c_def tail_addrs [OF inv])
qed

lemma pop_n_copy_inv:
  assumes inv: "conc_inv s" and t: "t = sr_tail (cc_ring s)" and n: "unat n \<le> cch s - tcnt s"
  shows "conc_inv (pop_n_copy n t s)"
proof -
  have st: "inv_static s" using inv by (simp add: conc_inv_def)
  have r: "tcnt s + unat n \<le> cch s" and c: "unat n \<le> capn s"
    using n conc_order [OF inv] by linarith+
  then show ?thesis
    unfolding pop_n_copy_def using t
    by (auto intro!: set_c [OF inv] simp: inv_c_def tail_addrs(2) [OF inv c])
qed

section \<open>Bytes\<close>

text \<open>A byte the producer may write is not the byte of any live stream position.\<close>

lemma producer_pos_fresh:
  assumes inv: "conc_inv s" and q0: "hcnt s * esz s \<le> q0" "q0 < (pct s + capn s) * esz s"
    and q: "tcnt s * esz s \<le> q" "q < q0"
  shows "pos s q \<noteq> pos s q0"
proof (rule mod_neq)
  have "(pct s + capn s) * esz s \<le> tcnt s * esz s + capn s * esz s"
    using conc_order [OF inv] by (simp add: add_mult_distrib)
  then show "q0 < q + capn s * esz s" using q0 q by linarith
qed (use q in simp)

text \<open>A byte the consumer reads is not a byte that a tail message has freed.\<close>

lemma consumer_pos_live:
  assumes inv: "conc_inv s" and q1: "tcnt s * esz s \<le> q1" "q1 < hcnt s * esz s"
    and m: "m \<in> set (cc_tails s)" and q: "hcnt s * esz s \<le> q" "q < (msg_cnt m + capn s) * esz s"
  shows "pos s q1 \<noteq> pos s q"
proof (rule mod_neq)
  have "msg_cnt m \<le> tcnt s"
    using inv m by (auto simp: conc_inv_def inv_msgs_def intro: sorted_in_last)
  then have "(msg_cnt m + capn s) * esz s \<le> tcnt s * esz s + capn s * esz s"
    by (simp add: add_mult_distrib)
  then show "q < q1 + capn s * esz s" using q q1 by linarith
qed (use q q1 in simp)

lemma map_upt_Cons_conv:
  "x # xs = map f [j..<n] \<longleftrightarrow> j < n \<and> x = f j \<and> xs = map f [Suc j..<n]"
  by (cases "j < n") (auto simp: upt_conv_Cons)

text \<open>Where the next byte of a copy goes: to a place of the stream that is not live, and that no read is racing with.\<close>

lemma write_place:
  assumes inv: "conc_inv s" and pc: "cc_p s = P_Copy ((a, b) # todo) d n h"
  obtains j where "h = sr_head (cc_ring s)" "hcnt s + unat n \<le> pct s + capn s" "length d = unat n * esz s" "j < length d"
    "a = pos s (hcnt s * esz s + j)" "b = d ! j"
    "todo = map (\<lambda>i. (pos s (hcnt s * esz s + i), d ! i)) [Suc j..<length d]"
    "\<forall>i < j. sr_buf (cc_ring s) ! pos s (hcnt s * esz s + i) = d ! i"
    "\<And>q. tcnt s * esz s \<le> q \<Longrightarrow> q < hcnt s * esz s + j \<Longrightarrow> pos s q \<noteq> a" "cc_r s a \<le> snd (cc_p_clk s)"
proof -
  let ?H = "hcnt s * esz s"
  have parts: "inv_msgs s" "inv_hb s" using inv by (auto simp: conc_inv_def)
  obtain j where j: "h = sr_head (cc_ring s)" "hcnt s + unat n \<le> pct s + capn s" "length d = unat n * esz s" "j < length d"
    "a = pos s (?H + j)" "b = d ! j" "todo = map (\<lambda>i. (pos s (?H + i), d ! i)) [Suc j..<length d]"
    "\<forall>i < j. sr_buf (cc_ring s) ! pos s (?H + i) = d ! i"
    using inv pc by (auto simp: conc_inv_def inv_p_def map_upt_Cons_conv)
  have q0: "?H \<le> ?H + j" "?H + j < (pct s + capn s) * esz s"
    using mult_chunk_le [OF j(2), of "esz s"] j(3,4) by auto
  have "cc_tails s ! cc_p_seen s \<in> set (cc_tails s)" using parts(1) by (simp add: inv_msgs_def)
  then have "cc_r s a \<le> snd (msg_clk (cc_tails s ! cc_p_seen s))" using parts(2) q0 by (auto simp: inv_hb_def j(5))
  then have "cc_r s a \<le> snd (cc_p_clk s)" using parts(2) by (simp add: inv_hb_def)
  with j that producer_pos_fresh [OF inv q0] show ?thesis by blast
qed

text \<open>Nothing published is at a place that is not live: a write there keeps what was published.\<close>

lemma write_keeps_published:
  assumes inv: "conc_inv s" and fresh: "\<And>q. tcnt s * esz s \<le> q \<Longrightarrow> q < hcnt s * esz s \<Longrightarrow> pos s q \<noteq> a"
  shows "inv_data (write_byte a b s)" "inv_hb (write_byte a b s)"
proof -
  have parts: "inv_msgs s" "inv_data s" "inv_hb s" using inv by (auto simp: conc_inv_def)
  have "(sr_buf (cc_ring s))[a := b] ! pos s q = sr_buf (cc_ring s) ! pos s q" if "tcnt s * esz s \<le> q" "q < hcnt s * esz s" for q
    using fresh [OF that] by (simp add: nth_list_update_neq [symmetric])
  with parts(2) show "inv_data (write_byte a b s)" by (simp add: inv_data_def write_byte_def Let_def)
  have "pos s q \<noteq> a" if "m \<in> set (cc_heads s)" "tcnt s * esz s \<le> q" "q < msg_cnt m * esz s" for m q
  proof (rule fresh [OF that(2)])
    have "msg_cnt m \<le> hcnt s" using that(1) parts(1) by (auto simp: inv_msgs_def intro: sorted_in_last)
    then have "msg_cnt m * esz s \<le> hcnt s * esz s" by (rule mult_le_mono1)
    with that(3) show "q < hcnt s * esz s" by linarith
  qed
  then have "((cc_w s)(a := x)) (pos s q) \<le> fst (msg_clk m)"
    if "m \<in> set (cc_heads s)" "tcnt s * esz s \<le> q" "q < msg_cnt m * esz s" for m q x
    using that parts(3) by (auto simp: inv_hb_def)
  with parts(3) show "inv_hb (write_byte a b s)" by (simp add: inv_hb_def write_byte_def Let_def le_SucI)
qed

lemma write_step_inv:
  assumes inv: "conc_inv s" and pc: "cc_p s = P_Copy ((a, b) # todo) d n h"
  shows "conc_inv ((write_byte a b s)\<lparr>cc_p := P_Copy todo d n h\<rparr>)"
proof -
  let ?s = "(write_byte a b s)\<lparr>cc_p := P_Copy todo d n h\<rparr>" and ?H = "hcnt s * esz s"
  have parts: "inv_static s" "inv_msgs s" "inv_counts s" "inv_c s" "\<not> cc_race s" "\<not> cc_oob s"
    using inv by (auto simp: conc_inv_def)
  obtain j where w: "h = sr_head (cc_ring s)" "hcnt s + unat n \<le> pct s + capn s" "length d = unat n * esz s" "j < length d"
    "a = pos s (?H + j)" "b = d ! j" "todo = map (\<lambda>i. (pos s (?H + i), d ! i)) [Suc j..<length d]"
    "\<forall>i < j. sr_buf (cc_ring s) ! pos s (?H + i) = d ! i" and fresh: "\<And>q. tcnt s * esz s \<le> q \<Longrightarrow> q < ?H + j \<Longrightarrow> pos s q \<noteq> a"
    and hb: "cc_r s a \<le> snd (cc_p_clk s)" using inv pc by (rule write_place) blast
  have len: "a < length (sr_buf (cc_ring s))" using parts(1) conc_sizes [OF parts(1)] by (simp add: w(5) inv_static_def)
  have TH: "tcnt s * esz s \<le> ?H" using conc_order [OF inv] by simp
  have "inv_static ?s" "inv_msgs ?s" "inv_counts ?s" "inv_c ?s"
    using parts by (simp_all add: inv_static_def inv_msgs_def inv_counts_def inv_c_def write_byte_def Let_def split: cpc.splits)
  moreover have "inv_data ?s" "inv_hb ?s"
    using write_keeps_published [OF inv, of a b] fresh by (simp_all add: inv_data_def inv_hb_def)
  moreover have "inv_p ?s"
  proof -
    have "(sr_buf (cc_ring s))[a := b] ! pos s (?H + i) = d ! i" if "i < Suc j" for i
      using that fresh [of "?H + i"] TH w(8) len by (cases "i = j") (auto simp: w(5,6))
    then show ?thesis
      using w(1-4,7) by (auto simp: inv_p_def write_byte_def Let_def intro!: exI [of _ "Suc j"])
  qed
  ultimately show ?thesis using parts(5,6) len hb by (simp add: conc_inv_def write_byte_def Let_def)
qed

text \<open>Where the next byte of a copy comes from: a live place, whose write happened before.\<close>

lemma read_place:
  assumes inv: "conc_inv s" and pc: "cc_c s = C_Copy (a # todo) d n t"
  shows "t = sr_tail (cc_ring s)" "tcnt s + unat n \<le> cch s" "length d < unat n * esz s" "a = pos s (tcnt s * esz s + length d)"
    "todo = map (\<lambda>i. pos s (tcnt s * esz s + i)) [Suc (length d)..<unat n * esz s]"
    "tcnt s * esz s + length d < hcnt s * esz s" "cc_w s a \<le> fst (cc_c_clk s)"
proof -
  have parts: "inv_msgs s" "inv_hb s" using inv by (auto simp: conc_inv_def)
  let ?q = "tcnt s * esz s + length d"
  show c: "t = sr_tail (cc_ring s)" "tcnt s + unat n \<le> cch s" "length d < unat n * esz s" "a = pos s ?q"
    "todo = map (\<lambda>i. pos s (tcnt s * esz s + i)) [Suc (length d)..<unat n * esz s]"
    using inv pc by (auto simp: conc_inv_def inv_c_def map_upt_Cons_conv)
  have qc: "?q < cch s * esz s" using mult_chunk_le [OF c(2), of "esz s"] c(3) by simp
  also have "\<dots> \<le> hcnt s * esz s" using conc_order [OF inv] by simp
  finally show "?q < hcnt s * esz s" .
  have "cc_heads s ! cc_c_seen s \<in> set (cc_heads s)" using parts(1) by (simp add: inv_msgs_def)
  then have "cc_w s (pos s ?q) \<le> fst (msg_clk (cc_heads s ! cc_c_seen s))" using parts(2) qc by (auto simp: inv_hb_def)
  then show "cc_w s a \<le> fst (cc_c_clk s)" using parts(2) by (simp add: inv_hb_def c(4))
qed

text \<open>The byte that is read is the next of the stream.\<close>

lemma read_next:
  assumes inv: "conc_inv s" and pc: "cc_c s = C_Copy (a # todo) d n t"
  shows "d @ [sr_buf (cc_ring s) ! a] = take (Suc (length d)) (drop (tcnt s * esz s) (cc_pushed s))"
proof -
  note q = read_place(4,6) [OF inv pc]
  have data: "inv_data s" using inv by (simp add: conc_inv_def)
  then have val: "sr_buf (cc_ring s) ! a = cc_pushed s ! (tcnt s * esz s + length d)" using q by (simp add: inv_data_def)
  have lp: "length (cc_pushed s) = hcnt s * esz s" using data by (simp add: inv_data_def)
  then have "drop (tcnt s * esz s) (cc_pushed s) ! length d = sr_buf (cc_ring s) ! a" unfolding val using q(2) by (intro nth_drop) linarith
  moreover have "length d < length (drop (tcnt s * esz s) (cc_pushed s))" using q(2) lp by simp
  moreover have "d = take (length d) (drop (tcnt s * esz s) (cc_pushed s))" using inv pc by (auto simp: conc_inv_def inv_c_def)
  ultimately show ?thesis by (metis take_Suc_conv_app_nth)
qed

lemma read_step_inv:
  assumes inv: "conc_inv s" and pc: "cc_c s = C_Copy (a # todo) d n t"
  shows "conc_inv ((read_byte a s)\<lparr>cc_c := C_Copy todo (d @ [sr_buf (cc_ring s) ! a]) n t\<rparr>)"
proof -
  define d' where "d' = d @ [sr_buf (cc_ring s) ! a]"
  let ?s = "(read_byte a s)\<lparr>cc_c := C_Copy todo d' n t\<rparr>"
  have parts: "inv_static s" "inv_msgs s" "inv_counts s" "inv_data s" "inv_hb s" "inv_p s" "\<not> cc_race s" "\<not> cc_oob s"
    using inv by (auto simp: conc_inv_def)
  note r = read_place [OF inv pc]
  have len: "a < length (sr_buf (cc_ring s))" using parts(1) conc_sizes [OF parts(1)] by (simp add: r(4) inv_static_def)
  have "inv_p ?s = inv_p s" by (cases "cc_p s") (simp_all add: inv_p_def read_byte_def Let_def)
  moreover have "inv_static ?s" "inv_msgs ?s" "inv_counts ?s" "inv_data ?s"
    using parts by (simp_all add: inv_static_def inv_msgs_def inv_counts_def inv_data_def read_byte_def Let_def)
  moreover have "inv_hb ?s"
  proof -
    have "a \<noteq> pos s q"
      if "m \<in> set (cc_tails s)" "hcnt s * esz s \<le> q" "q < (msg_cnt m + capn s) * esz s" for m q
      unfolding r(4) using that by (intro consumer_pos_live [OF inv _ r(6)]) simp_all
    then have "((cc_r s)(a := x)) (pos s q) \<le> snd (msg_clk m)"
      if "m \<in> set (cc_tails s)" "hcnt s * esz s \<le> q" "q < (msg_cnt m + capn s) * esz s" for m q x
      using that parts(5) by (auto simp: inv_hb_def)
    with parts(5) show ?thesis by (simp add: inv_hb_def read_byte_def Let_def le_SucI)
  qed
  moreover have "inv_c ?s"
  proof -
    have ld': "length d' = Suc (length d)" by (simp add: d'_def)
    then have "d' = take (length d') (drop (tcnt s * esz s) (cc_pushed s))" using read_next [OF inv pc] by (simp only: d'_def)
    then show ?thesis using r(1-3,5) ld' by (simp only: inv_c_def) (simp add: read_byte_def Let_def)
  qed
  ultimately have "conc_inv ?s" using parts(6-8) len r(7) by (simp add: conc_inv_def read_byte_def Let_def)
  then show ?thesis unfolding d'_def .
qed

section \<open>Release stores\<close>

lemma release_head_data:
  assumes inv: "conc_inv s" and pc: "cc_p s = P_Copy [] d n h"
  shows "inv_data (release_head n h d s)"
proof -
  let ?H = "hcnt s * esz s"
  have data: "inv_data s" using inv by (simp add: conc_inv_def)
  then have lp: "length (cc_pushed s) = ?H" by (simp add: inv_data_def)
  have ld: "length d = unat n * esz s" and written: "\<forall>i < length d. sr_buf (cc_ring s) ! pos s (?H + i) = d ! i"
    using inv pc by (auto simp: conc_inv_def inv_p_def)
  have "sr_buf (cc_ring s) ! pos s q = (cc_pushed s @ d) ! q" if "tcnt s * esz s \<le> q" "q < (hcnt s + unat n) * esz s" for q
  proof (cases "q < ?H")
    case True
    with data that show ?thesis by (simp add: inv_data_def nth_append)
  next
    case False
    then obtain i where "q = ?H + i" by (metis le_iff_add not_less)
    with that ld lp written show ?thesis by (simp add: nth_append add_mult_distrib)
  qed
  moreover have "tcnt s * esz s \<le> ?H" using conc_order [OF inv] by simp
  ultimately show ?thesis using data ld by (simp add: inv_data_def release_head_def add_mult_distrib)
qed

lemma release_head_c:
  assumes inv: "conc_inv s"
  shows "inv_c (release_head n h d s)"
proof -
  have parts: "inv_msgs s" "inv_c s" "inv_data s" using inv by (auto simp: conc_inv_def)
  have CH: "cch s * esz s \<le> length (cc_pushed s)" using conc_order [OF inv] parts(3) by (simp add: inv_data_def)
  have "take k (drop (tcnt s * esz s) (cc_pushed s @ d)) = take k (drop (tcnt s * esz s) (cc_pushed s))"
    if "k \<le> unat m * esz s" "tcnt s + unat m \<le> cch s" for k and m :: size_t
  proof -
    have "tcnt s * esz s + k \<le> length (cc_pushed s)"
      using mult_chunk_le [OF that(2), of "esz s"] that(1) CH by linarith
    then show ?thesis by simp
  qed
  with parts(1,2) show ?thesis
    by (auto simp: inv_c_def release_head_def nth_append inv_msgs_def split: cpc.splits)
qed

lemma release_head_inv:
  assumes inv: "conc_inv s" and pc: "cc_p s = P_Copy [] d n h"
  shows "conc_inv ((release_head n h d s)\<lparr>cc_p := P_Idle\<rparr>)"
proof -
  let ?s = "(release_head n h d s)\<lparr>cc_p := P_Idle\<rparr>"
  have parts: "inv_static s" "inv_msgs s" "inv_counts s" "inv_hb s" "\<not> cc_race s" "\<not> cc_oob s"
    using inv by (auto simp: conc_inv_def)
  have h: "h = sr_head (cc_ring s)" and room: "hcnt s + unat n \<le> pct s + capn s"
    using inv pc by (auto simp: conc_inv_def inv_p_def)
  have "inv_static ?s" using parts(1) by (simp add: inv_static_def release_head_def)
  moreover have "inv_msgs ?s"
    using parts(2) h sorted_in_last [of msg_cnt "cc_heads s"]
    by (force simp: inv_msgs_def release_head_def sorted_append nth_append)
  moreover have "inv_counts ?s"
    using parts(2,3) room by (simp add: inv_counts_def release_head_def nth_append inv_msgs_def)
  moreover have "inv_data ?s" using release_head_data [OF inv pc] by (simp add: inv_data_def)
  moreover have "inv_hb ?s"
    using parts(2,4) by (auto simp: inv_hb_def release_head_def nth_append inv_msgs_def add_mult_distrib)
  moreover have "inv_c ?s" using release_head_c [OF inv, of n h d] by (simp add: inv_c_def cong: cpc.case_cong)
  ultimately show ?thesis using parts(5,6) by (simp add: conc_inv_def inv_p_def release_head_def)
qed

lemma release_tail_inv:
  assumes inv: "conc_inv s" and pc: "cc_c s = C_Copy [] d n t"
  shows "conc_inv ((release_tail n t d s)\<lparr>cc_c := C_Idle\<rparr>)"
proof -
  let ?s = "(release_tail n t d s)\<lparr>cc_c := C_Idle\<rparr>" and ?T = "tcnt s * esz s"
  have parts: "inv_static s" "inv_msgs s" "inv_counts s" "inv_data s" "inv_hb s" "inv_p s"
    "\<not> cc_race s" "\<not> cc_oob s"
    using inv by (auto simp: conc_inv_def)
  have t: "t = sr_tail (cc_ring s)" and room: "tcnt s + unat n \<le> cch s"
    and d: "d = take (unat n * esz s) (drop ?T (cc_pushed s))"
    using inv pc by (auto simp: conc_inv_def inv_c_def)
  have "inv_static ?s" using parts(1) by (simp add: inv_static_def release_tail_def)
  moreover have "inv_msgs ?s"
    using parts(2) t sorted_in_last [of msg_cnt "cc_tails s"]
    by (force simp: inv_msgs_def release_tail_def sorted_append nth_append)
  moreover have "inv_counts ?s"
    using parts(2,3) room by (simp add: inv_counts_def release_tail_def nth_append inv_msgs_def)
  moreover have "inv_data ?s"
    using parts(4) by (auto simp: inv_data_def release_tail_def add_mult_distrib take_add d)
  moreover have "inv_hb ?s"
    using parts(2,5) by (auto simp: inv_hb_def release_tail_def nth_append inv_msgs_def add_mult_distrib)
  moreover have "inv_p ?s"
    using parts(2,6) by (auto simp: inv_p_def release_tail_def nth_append inv_msgs_def split: ppc.splits)
  ultimately show ?thesis
    using parts(7,8) by (simp add: conc_inv_def inv_c_def release_tail_def)
qed

section \<open>Every step keeps the invariant\<close>

lemma push_load_inv:
  assumes inv: "conc_inv s" and pc: "cc_p s = P_Push_Load e h" and st: "p_step i s = Some s'"
  shows "conc_inv s'"
proof -
  have p: "h = sr_head (cc_ring s)" "esz s \<le> length e" using inv pc by (auto simp: conc_inv_def inv_p_def)
  from st pc have i: "cc_p_seen s \<le> i" "i < length (cc_tails s)"
    by (auto simp: p_step_def Let_def split: if_splits)
  have a: "conc_inv (acquire_tail i s)" using pc by (intro acquire_tail_inv [OF inv i]) (simp add: p_copying_def)
  have "conc_inv (push_copy e h (acquire_tail i s))"
    if "\<not> h - sr_cached_tail (cc_ring (acquire_tail i s)) \<ge> sr_capacity (cc_ring s)"
    using that p by (intro push_copy_inv [OF a]) (simp_all add: acquire_tail_def)
  with st pc i set_p [OF a, of P_Idle] show ?thesis
    by (auto simp: p_step_def Let_def inv_p_def split: if_splits)
qed

lemma push_n_room:
  assumes inv: "conc_inv s" and h: "h = sr_head (cc_ring s)"
  shows "unat (sr_capacity (cc_ring s) - (h - sr_cached_tail (cc_ring s))) = capn s - (hcnt s - pct s)"
proof -
  have "hcnt s - pct s \<le> capn s" using conc_order [OF inv] by simp
  then show ?thesis using producer_distance [OF inv] h by (simp add: unat_sub word_le_nat_alt)
qed

lemma push_n_load_inv:
  assumes inv: "conc_inv s" and pc: "cc_p s = P_Push_N_Load e n h" and st: "p_step i s = Some s'"
  shows "conc_inv s'"
proof -
  have p: "h = sr_head (cc_ring s)" "unat n * esz s \<le> length e" using inv pc by (auto simp: conc_inv_def inv_p_def)
  from st pc have i: "cc_p_seen s \<le> i" "i < length (cc_tails s)"
    by (auto simp: p_step_def Let_def split: if_splits)
  let ?s = "acquire_tail i s"
  have a: "conc_inv ?s" using pc by (intro acquire_tail_inv [OF inv i]) (simp add: p_copying_def)
  let ?rem = "sr_capacity (cc_ring s) - (h - sr_cached_tail (cc_ring ?s))"
  define m where "m = (if ?rem < n then ?rem else n)"
  have hs: "h = sr_head (cc_ring ?s)" and es: "esz ?s = esz s" and cap: "sr_capacity (cc_ring ?s) = sr_capacity (cc_ring s)"
    using p by (simp_all add: acquire_tail_def)
  have mn: "unat m \<le> unat n" and m: "unat m \<le> unat ?rem" by (auto simp: m_def word_less_nat_alt)
  have "unat m * esz ?s \<le> length e" unfolding es using le_trans [OF mult_le_mono1 [OF mn] p(2)] .
  then have "conc_inv (push_n_copy e m h ?s)" using m push_n_room [OF a hs] cap by (intro push_n_copy_inv [OF a hs]) simp_all
  moreover have "p_step i s = Some (push_n_copy e m h ?s)" using pc i by (simp add: p_step_def Let_def m_def)
  ultimately show ?thesis using st by simp
qed

lemma p_step_inv:
  assumes inv: "conc_inv s" and st: "p_step i s = Some s'"
  shows "conc_inv s'"
proof (cases "cc_p s")
  case P_Idle
  with st show ?thesis by (simp add: p_step_def)
next
  case (P_Push e h)
  then have p: "h = sr_head (cc_ring s)" "esz s \<le> length e"
    using inv by (auto simp: conc_inv_def inv_p_def)
  show ?thesis
    using st P_Push p push_copy_inv [OF inv p] set_p [OF inv, of "P_Push_Load e h"]
    by (auto simp: p_step_def Let_def inv_p_def split: if_splits)
next
  case (P_Push_N e n h)
  then have p: "h = sr_head (cc_ring s)" "unat n * esz s \<le> length e"
    using inv by (auto simp: conc_inv_def inv_p_def)
  have "conc_inv (push_n_copy e n h s)" if "\<not> sr_capacity (cc_ring s) - (h - sr_cached_tail (cc_ring s)) < n"
    using that push_n_room [OF inv p(1)] by (intro push_n_copy_inv [OF inv p]) (simp add: word_less_nat_alt)
  then show ?thesis
    using st P_Push_N p set_p [OF inv, of "P_Push_N_Load e n h"]
    by (auto simp: p_step_def Let_def inv_p_def split: if_splits)
next
  case (P_Copy todo d n h)
  then show ?thesis
    using st write_step_inv [OF inv] release_head_inv [OF inv]
    by (cases todo) (auto simp: p_step_def Let_def)
qed (use push_load_inv [OF inv _ st] push_n_load_inv [OF inv _ st] in blast)+

lemma pop_load_inv:
  assumes inv: "conc_inv s" and pc: "cc_c s = C_Pop_Load t" and st: "c_step i s = Some s'"
  shows "conc_inv s'"
proof -
  have t: "t = sr_tail (cc_ring s)" using inv pc by (auto simp: conc_inv_def inv_c_def)
  from st pc have i: "cc_c_seen s \<le> i" "i < length (cc_heads s)"
    by (auto simp: c_step_def Let_def split: if_splits)
  have a: "conc_inv (acquire_head i s)" using pc by (intro acquire_head_inv [OF inv i]) (simp add: c_copying_def)
  have "conc_inv (pop_copy t (acquire_head i s))" if "t \<noteq> sr_cached_head (cc_ring (acquire_head i s))"
    using that t by (intro pop_copy_inv [OF a]) (simp_all add: acquire_head_def)
  with st pc i set_c [OF a, of C_Idle] show ?thesis
    by (auto simp: c_step_def Let_def inv_c_def split: if_splits)
qed

lemma pop_n_load_inv:
  assumes inv: "conc_inv s" and pc: "cc_c s = C_Pop_N_Load n t" and st: "c_step i s = Some s'"
  shows "conc_inv s'"
proof -
  have t: "t = sr_tail (cc_ring s)" using inv pc by (auto simp: conc_inv_def inv_c_def)
  from st pc have i: "cc_c_seen s \<le> i" "i < length (cc_heads s)"
    by (auto simp: c_step_def Let_def split: if_splits)
  let ?s = "acquire_head i s"
  have a: "conc_inv ?s" using pc by (intro acquire_head_inv [OF inv i]) (simp add: c_copying_def)
  let ?avail = "sr_cached_head (cc_ring ?s) - t"
  let ?n = "if ?avail < n then ?avail else n"
  have ts: "t = sr_tail (cc_ring ?s)" using t by (simp add: acquire_head_def)
  have "unat ?n \<le> unat ?avail" by (auto simp: word_less_nat_alt)
  then have "conc_inv (pop_n_copy ?n t ?s)"
    using consumer_distance [OF a] ts by (intro pop_n_copy_inv [OF a ts]) simp
  with st pc i show ?thesis by (auto simp: c_step_def Let_def)
qed

lemma c_step_inv:
  assumes inv: "conc_inv s" and st: "c_step i s = Some s'"
  shows "conc_inv s'"
proof (cases "cc_c s")
  case C_Idle
  with st show ?thesis by (simp add: c_step_def)
next
  case (C_Pop t)
  then have t: "t = sr_tail (cc_ring s)" using inv by (auto simp: conc_inv_def inv_c_def)
  show ?thesis
    using st C_Pop t pop_copy_inv [OF inv t] set_c [OF inv, of "C_Pop_Load t"]
    by (auto simp: c_step_def Let_def inv_c_def split: if_splits)
next
  case (C_Pop_N n t)
  then have t: "t = sr_tail (cc_ring s)" using inv by (auto simp: conc_inv_def inv_c_def)
  have "conc_inv (pop_n_copy n t s)" if "\<not> sr_cached_head (cc_ring s) - t < n"
    using that consumer_distance [OF inv] t
    by (intro pop_n_copy_inv [OF inv t]) (simp add: word_less_nat_alt)
  then show ?thesis
    using st C_Pop_N t set_c [OF inv, of "C_Pop_N_Load n t"]
    by (auto simp: c_step_def Let_def inv_c_def split: if_splits)
next
  case (C_Copy todo d n t)
  then show ?thesis
    using st read_step_inv [OF inv] release_tail_inv [OF inv]
    by (cases todo) (auto simp: c_step_def Let_def)
qed (use pop_load_inv [OF inv _ st] pop_n_load_inv [OF inv _ st] in blast)+

lemma conc_step_inv:
  assumes inv: "conc_inv s" and st: "conc_step a s = Some s'"
  shows "conc_inv s'"
proof (cases a)
  case (Producer i)
  with st show ?thesis by (simp add: p_step_inv [OF inv])
next
  case (Consumer i)
  with st show ?thesis by (simp add: c_step_inv [OF inv])
next
  case (Call_Push e)
  with st set_p [OF inv, of "P_Push e (sr_head (cc_ring s))"] show ?thesis
    by (simp add: inv_p_def split: if_splits)
next
  case (Call_Push_N e n)
  with st set_p [OF inv, of "P_Push_N e n (sr_head (cc_ring s))"] show ?thesis
    by (simp add: inv_p_def split: if_splits)
next
  case Call_Pop
  with st set_c [OF inv, of "C_Pop (sr_tail (cc_ring s))"] show ?thesis
    by (simp add: inv_c_def split: if_splits)
next
  case (Call_Pop_N n)
  with st set_c [OF inv, of "C_Pop_N n (sr_tail (cc_ring s))"] show ?thesis
    by (simp add: inv_c_def split: if_splits)
qed

lemma conc_init_inv: "fresh_ring r \<Longrightarrow> conc_inv (conc_init r)"
  by (auto simp: fresh_ring_def spsc_inv_def conc_inv_def conc_inv_parts inv_p_def inv_c_def
      conc_init_def init_msg_def)

theorem reachable_conc_inv: "conc_reachable r s \<Longrightarrow> conc_inv s"
  by (induction rule: conc_reachable.induct) (auto intro: conc_init_inv conc_step_inv)

lemma run_reachable: "conc_reachable r s \<Longrightarrow> conc_run as s = Some s' \<Longrightarrow> conc_reachable r s'"
  by (induction as arbitrary: s) (auto split: option.splits intro: conc_reachable.step)

end
