(* ===== verification/Spsc_Conc_Properties.thy ===== *)
theory Spsc_Conc_Properties
  imports Spsc_Race_Free
begin

text \<open>
  Properties of the ring under concurrency: race freedom, the FIFO order of what the consumer
  receives, wait-freedom of both threads, agreement of the thread programs with the sequential
  operations of \<open>Spsc_Ring\<close>, and what a concurrent \<^verbatim>\<open>spsc_ring_size\<close> can return.
\<close>

section \<open>Definitions\<close>

text \<open>
  Own steps a thread still needs to finish its call; \<open>capn * esz\<close> bytes is the longest copy.
\<close>

definition p_left :: "conc \<Rightarrow> nat" where
  "p_left s =
     (case cc_p s of
        P_Idle \<Rightarrow> 0
      | P_Push e h \<Rightarrow> capn s * esz s + 3
      | P_Push_Load e h \<Rightarrow> capn s * esz s + 2
      | P_Push_N e n h \<Rightarrow> capn s * esz s + 3
      | P_Push_N_Load e n h \<Rightarrow> capn s * esz s + 2
      | P_Copy todo d n h \<Rightarrow> length todo + 1)"

definition c_left :: "conc \<Rightarrow> nat" where
  "c_left s =
     (case cc_c s of
        C_Idle \<Rightarrow> 0
      | C_Pop t \<Rightarrow> capn s * esz s + 3
      | C_Pop_Load t \<Rightarrow> capn s * esz s + 2
      | C_Pop_N n t \<Rightarrow> capn s * esz s + 3
      | C_Pop_N_Load n t \<Rightarrow> capn s * esz s + 2
      | C_Copy todo d n t \<Rightarrow> length todo + 1)"

text \<open>
  \<^verbatim>\<open>spsc_ring_size\<close> called while the threads run: \<^verbatim>\<open>head\<close> is loaded in one state and \<^verbatim>\<open>tail\<close> in a
  later one. Both loads are relaxed, so each returns some value that was stored: the one of index \<open>i\<close>, and of index \<open>j\<close>.
\<close>

definition racy_size :: "nat \<Rightarrow> nat \<Rightarrow> conc \<Rightarrow> conc \<Rightarrow> size_t" where
  "racy_size i j s s' = (let h = msg_val (cc_heads s ! i); t = msg_val (cc_tails s' ! j) in h - t)"

text \<open>Steps of one thread.\<close>

fun by_producer :: "act \<Rightarrow> bool" where
  "by_producer (Call_Push e) = True"
| "by_producer (Call_Push_N e n) = True"
| "by_producer (Producer i) = True"
| "by_producer _ = False"

text \<open>A ring of two one-byte slots.\<close>

definition small_ring :: spsc_ring where
  "small_ring = \<lparr> sr_capacity = 2, sr_mask = 1, sr_element_size = 1, sr_buf = [0, 0],
     sr_head = 0, sr_cached_tail = 0, sr_tail = 0, sr_cached_head = 0 \<rparr>"

text \<open>Applying byte stores, one after the other.\<close>

definition stores :: "(nat \<times> u8) list \<Rightarrow> block \<Rightarrow> block" where
  "stores todo b = fold (\<lambda>(a, x) b. b[a := x]) todo b"

text \<open>
  Runs of the small ring for the witnesses: a push finished and a pop half way through its copy
  while a second push is writing; and one element pushed and popped.
\<close>

definition overlap_run :: "act list" where
  "overlap_run = [Call_Push [7], Producer 0, Producer 0, Producer 0, Call_Push [8], Producer 0,
     Call_Pop, Consumer 0, Consumer 1, Consumer 1, Producer 0]"

definition transfer_run :: "act list" where
  "transfer_run = [Call_Push [7], Producer 0, Producer 0, Producer 0,
     Call_Pop, Consumer 0, Consumer 1, Consumer 1, Consumer 1]"

text \<open>Two elements pushed and popped, and two more pushed.\<close>

definition two_transfers :: "act list" where
  "two_transfers = [Call_Push_N [7, 8] 2, Producer 0, Producer 0, Producer 0, Producer 0,
     Call_Pop_N 2, Consumer 0, Consumer 1, Consumer 1, Consumer 1, Consumer 1,
     Call_Push_N [9, 10] 2, Producer 0, Producer 1, Producer 1, Producer 1, Producer 1]"

section \<open>Lemmas\<close>

subsection \<open>Runs\<close>

lemma small_ring_fresh: "fresh_ring small_ring"
  by (simp add: fresh_ring_def spsc_inv_def small_ring_def is_pow2_def)

lemmas conc_eval =
  conc_init_def init_msg_def p_step_def c_step_def push_copy_def push_n_copy_def pop_copy_def
  pop_n_copy_def push_addrs_def push_n_addrs_def spsc_first_def spsc_address_of_index_def
  acquire_tail_def acquire_head_def write_byte_def read_byte_def release_head_def release_tail_def
  join_def Let_def word_le_nat_alt word_less_nat_alt

lemma conc_run_append:
  "conc_run (as @ bs) s = (case conc_run as s of None \<Rightarrow> None | Some s' \<Rightarrow> conc_run bs s')"
  by (induction as arbitrary: s) (auto split: option.splits)

lemma conc_run_replicate:
  "conc_run (replicate (k + 1) a) s =
     (case conc_run (replicate k a) s of None \<Rightarrow> None | Some s' \<Rightarrow> conc_step a s')"
proof -
  have "replicate (k + 1) a = replicate k a @ [a]" by (simp add: replicate_append_same)
  then show ?thesis by (simp only: conc_run_append) (simp split: option.splits)
qed

lemma conc_run_start: "fresh_ring r \<Longrightarrow> conc_run as (conc_init r) = Some s \<Longrightarrow> conc_reachable r s"
  by (rule run_reachable [OF conc_reachable.start])

subsection \<open>Wait-freedom\<close>

lemma p_step_c_left: "p_step i s = Some s' \<Longrightarrow> c_left s' = c_left s"
  by (cases "cc_c s"; cases "cc_p s")
    (auto simp: c_left_def p_step_def push_copy_def push_n_copy_def acquire_tail_def
      write_byte_def release_head_def Let_def split: if_splits list.splits)

lemma c_step_p_left: "c_step i s = Some s' \<Longrightarrow> p_left s' = p_left s"
  by (cases "cc_p s"; cases "cc_c s")
    (auto simp: p_left_def c_step_def pop_copy_def pop_n_copy_def acquire_head_def
      read_byte_def release_tail_def Let_def split: if_splits list.splits)

text \<open>A started copy has at most as many bytes as the buffer.\<close>

lemma copying_bound:
  assumes "conc_inv s"
  shows "cc_p s = P_Copy todo d n h \<Longrightarrow> length todo \<le> capn s * esz s"
    and "cc_c s = C_Copy todo' d' n' t \<Longrightarrow> length todo' \<le> capn s * esz s"
proof -
  assume "cc_p s = P_Copy todo d n h"
  then have room: "hcnt s + unat n \<le> pct s + capn s" and l: "length todo \<le> unat n * esz s"
    using assms by (auto simp: conc_inv_def inv_p_def)
  have "unat n \<le> capn s" using room conc_order [OF assms] by linarith
  then have "unat n * esz s \<le> capn s * esz s" by (rule mult_le_mono1)
  with l show "length todo \<le> capn s * esz s" by (rule le_trans)
next
  assume "cc_c s = C_Copy todo' d' n' t"
  then have room: "tcnt s + unat n' \<le> cch s" and l: "length todo' \<le> unat n' * esz s"
    using assms by (auto simp: conc_inv_def inv_c_def)
  have "unat n' \<le> capn s" using room conc_order [OF assms] by linarith
  then have "unat n' * esz s \<le> capn s * esz s" by (rule mult_le_mono1)
  with l show "length todo' \<le> capn s * esz s" by (rule le_trans)
qed

lemma p_step_sizes:
  assumes "p_step i s = Some s'"
  shows "capn s' = capn s" "esz s' = esz s"
  using assms by (cases "cc_p s"; auto simp: p_step_def push_copy_def push_n_copy_def
      acquire_tail_def write_byte_def release_head_def Let_def split: if_splits list.splits)+

lemma c_step_sizes:
  assumes "c_step i s = Some s'"
  shows "capn s' = capn s" "esz s' = esz s"
  using assms by (cases "cc_c s"; auto simp: c_step_def pop_copy_def pop_n_copy_def
      acquire_head_def read_byte_def release_tail_def Let_def split: if_splits list.splits)+

text \<open>Where a step leads: towards the copy, through it one byte at a time, and out.\<close>

lemma p_step_shape:
  assumes "p_step i s = Some s'"
  shows "case cc_p s of
      P_Idle \<Rightarrow> False
    | P_Push e h \<Rightarrow> cc_p s' = P_Push_Load e h \<or> p_copying s'
    | P_Push_Load e h \<Rightarrow> cc_p s' = P_Idle \<or> p_copying s'
    | P_Push_N e n h \<Rightarrow> cc_p s' = P_Push_N_Load e n h \<or> cc_p s' = P_Idle \<or> p_copying s'
    | P_Push_N_Load e n h \<Rightarrow> cc_p s' = P_Idle \<or> p_copying s'
    | P_Copy todo d n h \<Rightarrow> (if todo = [] then cc_p s' = P_Idle else cc_p s' = P_Copy (tl todo) d n h)"
  using assms by (cases "cc_p s"; auto simp: p_step_def push_copy_def push_n_copy_def p_copying_def
      Let_def split: if_splits list.splits)

lemma c_step_shape:
  assumes "c_step i s = Some s'"
  shows "case cc_c s of
      C_Idle \<Rightarrow> False
    | C_Pop t \<Rightarrow> cc_c s' = C_Pop_Load t \<or> c_copying s'
    | C_Pop_Load t \<Rightarrow> cc_c s' = C_Idle \<or> c_copying s'
    | C_Pop_N n t \<Rightarrow> cc_c s' = C_Pop_N_Load n t \<or> cc_c s' = C_Idle \<or> c_copying s'
    | C_Pop_N_Load n t \<Rightarrow> cc_c s' = C_Idle \<or> c_copying s'
    | C_Copy todo d n t \<Rightarrow> (if todo = [] then cc_c s' = C_Idle else \<exists>x. cc_c s' = C_Copy (tl todo) x n t)"
  using assms by (cases "cc_c s"; auto simp: c_step_def pop_copy_def pop_n_copy_def c_copying_def
      Let_def split: if_splits list.splits)

lemma p_left_copying: "conc_inv s \<Longrightarrow> p_copying s \<Longrightarrow> p_left s \<le> capn s * esz s + 1"
  by (auto simp: p_copying_def p_left_def dest: copying_bound)

lemma c_left_copying: "conc_inv s \<Longrightarrow> c_copying s \<Longrightarrow> c_left s \<le> capn s * esz s + 1"
  by (auto simp: c_copying_def c_left_def dest: copying_bound)

lemma p_step_decreases:
  assumes "conc_inv s" "p_step i s = Some s'"
  shows "p_left s' < p_left s"
proof -
  have "conc_inv s'" using p_step_inv assms by blast
  from p_left_copying [OF this] p_step_shape [OF assms(2)] p_step_sizes [OF assms(2)]
  show ?thesis
    by (cases "cc_p s") (auto simp: p_left_def less_Suc_eq_le split: if_splits)
qed

lemma c_step_decreases:
  assumes "conc_inv s" "c_step i s = Some s'"
  shows "c_left s' < c_left s"
proof -
  have "conc_inv s'" using c_step_inv assms by blast
  from c_left_copying [OF this] c_step_shape [OF assms(2)] c_step_sizes [OF assms(2)]
  show ?thesis
    by (cases "cc_c s") (auto simp: c_left_def less_Suc_eq_le split: if_splits)
qed

lemma p_step_enabled:
  assumes "conc_inv s" "cc_p s \<noteq> P_Idle"
  shows "\<exists>i s'. p_step i s = Some s'"
proof -
  have "cc_p_seen s < length (cc_tails s)" using assms(1) by (simp add: conc_inv_def inv_msgs_def)
  then have "\<exists>s'. p_step (cc_p_seen s) s = Some s'"
    using assms(2) by (cases "cc_p s") (auto simp: p_step_def Let_def split: list.splits)
  then show ?thesis by blast
qed

lemma c_step_enabled:
  assumes "conc_inv s" "cc_c s \<noteq> C_Idle"
  shows "\<exists>i s'. c_step i s = Some s'"
proof -
  have "cc_c_seen s < length (cc_heads s)" using assms(1) by (simp add: conc_inv_def inv_msgs_def)
  then have "\<exists>s'. c_step (cc_c_seen s) s = Some s'"
    using assms(2) by (cases "cc_c s") (auto simp: c_step_def Let_def split: list.splits)
  then show ?thesis by blast
qed

subsection \<open>A thread that runs alone executes the sequential operation\<close>

lemma stores_simps [simp]:
  "stores [] b = b" "stores ((a, x) # todo) b = stores todo (b[a := x])"
  "stores (xs @ ys) b = stores ys (stores xs b)"
  by (simp_all add: stores_def)

lemma length_stores [simp]: "length (stores todo b) = length b"
  by (induction todo arbitrary: b) auto

lemma memcpy_stores:
  "d + n \<le> length dst \<Longrightarrow> s + n \<le> length src \<Longrightarrow>
     memcpy dst d src s n = Some (stores (zip [d..<d + n] (take n (drop s src))) dst)"
proof (induction n)
  case (Suc n)
  then have IH: "stores (zip [d..<d + n] (take n (drop s src))) dst =
      take d dst @ take n (drop s src) @ drop (d + n) dst"
    by (simp add: memcpy_def)
  have z: "zip [d..<d + Suc n] (take (Suc n) (drop s src)) =
      zip [d..<d + n] (take n (drop s src)) @ [(d + n, src ! (s + n))]"
    using Suc.prems by (simp add: take_Suc_conv_app_nth zip_append)
  have l: "length (take d dst @ take n (drop s src)) = d + n" using Suc.prems by simp
  have "drop (d + n) dst = dst ! (d + n) # drop (Suc (d + n)) dst"
    using Suc.prems by (simp add: Cons_nth_drop_Suc)
  then have "(take d dst @ take n (drop s src) @ drop (d + n) dst)[d + n := src ! (s + n)] =
      take d dst @ take (Suc n) (drop s src) @ drop (d + Suc n) dst"
    using l Suc.prems by (simp add: list_update_append take_Suc_conv_app_nth)
  then show ?case
    using Suc.prems unfolding z by (simp add: memcpy_def IH)
qed (simp add: memcpy_def)

lemma memcpy_map_nth:
  "s + n \<le> length src \<Longrightarrow> n \<le> length dst \<Longrightarrow>
     memcpy dst 0 src s n = Some (map ((!) src) [s..<s + n] @ drop n dst)"
  by (auto simp: memcpy_def intro!: nth_equalityI simp: nth_append)

lemma producer_copies:
  assumes "cc_p s = P_Copy todo d n h"
  shows "\<exists>s'. conc_run (replicate (length todo) (Producer i)) s = Some s' \<and> cc_p s' = P_Copy [] d n h \<and>
     cc_ring s' = (cc_ring s)\<lparr>sr_buf := stores todo (sr_buf (cc_ring s))\<rparr> \<and>
     cc_c s' = cc_c s \<and> cc_pushed s' = cc_pushed s"
  using assms
proof (induction todo arbitrary: s)
  case (Cons ab todo)
  obtain a b where ab: "ab = (a, b)" by (cases ab)
  let ?s = "(write_byte a b s)\<lparr>cc_p := P_Copy todo d n h\<rparr>"
  have "p_step i s = Some ?s" using Cons.prems by (simp add: p_step_def Let_def ab)
  then show ?case using Cons.IH [of ?s] by (simp add: ab write_byte_def Let_def)
qed simp

text \<open>Finishing a copy: the buffer has the bytes, and \<^verbatim>\<open>head\<close> is published.\<close>

lemma producer_finishes:
  assumes "cc_p s = P_Copy todo d n h"
  shows "\<exists>k s'. conc_run (replicate k (Producer i)) s = Some s' \<and> cc_p s' = P_Idle \<and>
     cc_ring s' = (cc_ring s)\<lparr>sr_buf := stores todo (sr_buf (cc_ring s)), sr_head := h + n\<rparr> \<and>
     cc_c s' = cc_c s \<and> cc_pushed s' = cc_pushed s @ d"
proof -
  obtain s1 where s1: "conc_run (replicate (length todo) (Producer i)) s = Some s1"
    "cc_p s1 = P_Copy [] d n h" "cc_ring s1 = (cc_ring s)\<lparr>sr_buf := stores todo (sr_buf (cc_ring s))\<rparr>"
    "cc_c s1 = cc_c s" "cc_pushed s1 = cc_pushed s"
    using producer_copies [OF assms] by blast
  then show ?thesis
    by (intro exI [of _ "length todo + 1"], unfold conc_run_replicate) (simp add: p_step_def release_head_def Let_def)
qed

lemma consumer_copies:
  assumes "cc_c s = C_Copy todo d n t"
  shows "\<exists>s'. conc_run (replicate (length todo) (Consumer i)) s = Some s' \<and>
     cc_c s' = C_Copy [] (d @ map ((!) (sr_buf (cc_ring s))) todo) n t \<and>
     cc_ring s' = cc_ring s \<and> cc_p s' = cc_p s \<and> cc_popped s' = cc_popped s"
  using assms
proof (induction todo arbitrary: s d)
  case (Cons a todo)
  let ?s = "(read_byte a s)\<lparr>cc_c := C_Copy todo (d @ [sr_buf (cc_ring s) ! a]) n t\<rparr>"
  have "c_step i s = Some ?s" using Cons.prems by (simp add: c_step_def Let_def)
  then show ?case using Cons.IH [of ?s] by (simp add: read_byte_def Let_def)
qed simp

lemma consumer_finishes:
  assumes "cc_c s = C_Copy todo [] n t"
  shows "\<exists>k s'. conc_run (replicate k (Consumer i)) s = Some s' \<and> cc_c s' = C_Idle \<and>
     cc_ring s' = (cc_ring s)\<lparr>sr_tail := t + n\<rparr> \<and> cc_p s' = cc_p s \<and>
     cc_popped s' = cc_popped s @ map ((!) (sr_buf (cc_ring s))) todo"
proof -
  obtain s1 where s1: "conc_run (replicate (length todo) (Consumer i)) s = Some s1"
    "cc_c s1 = C_Copy [] (map ((!) (sr_buf (cc_ring s))) todo) n t"
    "cc_ring s1 = cc_ring s" "cc_p s1 = cc_p s" "cc_popped s1 = cc_popped s"
    using consumer_copies [OF assms] by auto
  then show ?thesis
    by (intro exI [of _ "length todo + 1"], unfold conc_run_replicate) (simp add: c_step_def release_tail_def Let_def)
qed

lemma conc_spsc_inv:
  assumes "conc_inv s"
  shows "spsc_inv (cc_ring s)"
proof -
  have "hcnt s - tcnt s < 2 ^ LENGTH(64)"
    using conc_order [OF assms] conc_sizes [of s] assms by (simp add: conc_inv_def)
  then have "unat (sr_head (cc_ring s) - sr_tail (cc_ring s)) = hcnt s - tcnt s"
    using assms wrapped_distance [where 'w = 64, of "tcnt s" "hcnt s"] conc_order [OF assms]
    by (simp add: conc_inv_def inv_msgs_def)
  moreover have "hcnt s - tcnt s \<le> hcnt s - pct s" "hcnt s - pct s \<le> capn s"
    "cch s - tcnt s \<le> hcnt s - tcnt s"
    using conc_order [OF assms] by linarith+
  ultimately show ?thesis
    using assms producer_distance [OF assms] consumer_distance [OF assms]
    by (simp add: spsc_inv_def conc_inv_def inv_static_def)
qed

lemma newest_message:
  assumes "conc_inv s"
  shows "msg_val (cc_tails s ! (length (cc_tails s) - 1)) = sr_tail (cc_ring s)"
    and "msg_val (cc_heads s ! (length (cc_heads s) - 1)) = sr_head (cc_ring s)"
    and "cc_p_seen s \<le> length (cc_tails s) - 1" "length (cc_tails s) - 1 < length (cc_tails s)"
    and "cc_c_seen s \<le> length (cc_heads s) - 1" "length (cc_heads s) - 1 < length (cc_heads s)"
proof -
  have m: "inv_msgs s" using assms by (simp add: conc_inv_def)
  note ne = inv_msgs_nonempty [OF m]
  then have l: "last (cc_tails s) = cc_tails s ! (length (cc_tails s) - 1)"
    "last (cc_heads s) = cc_heads s ! (length (cc_heads s) - 1)"
    by (simp_all add: last_conv_nth)
  have "last (cc_tails s) \<in> set (cc_tails s)" "last (cc_heads s) \<in> set (cc_heads s)" using ne by simp_all
  with m show "msg_val (cc_tails s ! (length (cc_tails s) - 1)) = sr_tail (cc_ring s)"
    "msg_val (cc_heads s ! (length (cc_heads s) - 1)) = sr_head (cc_ring s)"
    unfolding l [symmetric] by (auto simp: inv_msgs_def)
qed (use assms in \<open>auto simp: conc_inv_def inv_msgs_def\<close>)

lemma upt_offset: "map (\<lambda>k. a + k) [0..<n] = [a..<a + n]"
  by (auto intro!: nth_equalityI)

lemma push_copy_stores:
  assumes inv: "spsc_inv r" and e: "unat (sr_element_size r) \<le> length e"
  shows "memcpy (sr_buf r) (spsc_address_of_index r i) e 0 (unat (sr_element_size r)) =
     Some (stores (zip (push_addrs r i) (take (unat (sr_element_size r)) e)) (sr_buf r))"
proof -
  have "spsc_slot r i * unat (sr_element_size r) + 1 * unat (sr_element_size r) \<le>
      unat (sr_capacity r) * unat (sr_element_size r)"
    using spsc_inv_slot_less [OF inv, of i] by (intro mult_chunk_le) simp
  then show ?thesis
    using e inv by (simp add: memcpy_stores spsc_address [OF inv] push_addrs_def upt_offset spsc_inv_def)
qed

lemma pop_copy_reads:
  assumes inv: "spsc_inv r" and e: "unat (sr_element_size r) \<le> length e"
  shows "memcpy e 0 (sr_buf r) (spsc_address_of_index r i) (unat (sr_element_size r)) =
     Some (map ((!) (sr_buf r)) (push_addrs r i) @ drop (unat (sr_element_size r)) e)"
proof -
  have "spsc_slot r i * unat (sr_element_size r) + 1 * unat (sr_element_size r) \<le>
      unat (sr_capacity r) * unat (sr_element_size r)"
    using spsc_inv_slot_less [OF inv, of i] by (intro mult_chunk_le) simp
  then show ?thesis
    using e inv by (simp add: memcpy_map_nth spsc_address [OF inv] push_addrs_def upt_offset spsc_inv_def)
qed

text \<open>The addresses of a batch, as the two runs that the two copies use.\<close>

lemma push_n_addrs_runs:
  fixes i :: u64
  assumes inv: "spsc_inv r" and n: "unat n \<le> unat (sr_capacity r)"
  defines "es \<equiv> unat (sr_element_size r)" and "f \<equiv> unat (spsc_first r i n)"
  shows "push_n_addrs r i n =
     [spsc_slot r i * es..<spsc_slot r i * es + f * es] @ [0..<(unat n - f) * es]"
proof -
  note off = spsc_batch_offsets [OF inv n, of i, folded es_def f_def]
  show ?thesis
    using off(4) by (auto simp: push_n_addrs_def Let_def upt_offset off(1-3) f_def)
qed

lemma copy_in_stores:
  assumes inv: "spsc_inv r" and n: "unat n \<le> unat (sr_capacity r)"
    and e: "unat n * unat (sr_element_size r) \<le> length e"
  shows "spsc_copy_in r e n =
     Some (stores (zip (push_n_addrs r (sr_head r) n) (take (unat (n * sr_element_size r)) e)) (sr_buf r))"
proof -
  define es where "es = unat (sr_element_size r)"
  define f where "f = unat (spsc_first r (sr_head r) n)"
  let ?x = "spsc_slot r (sr_head r) * es"
  note off = spsc_batch_offsets [OF inv n, of "sr_head r", folded es_def f_def]
  have ne: "unat (n * sr_element_size r) = f * es + (unat n - f) * es"
    using unat_mult_es [OF inv n] off(5) by (simp add: es_def flip: add_mult_distrib)
  then have fe: "f * es + (unat n - f) * es \<le> length e"
    using e unat_mult_es [OF inv n] by simp
  let ?b = "stores (zip [?x..<?x + f * es] (take (f * es) e)) (sr_buf r)"
  have 1: "memcpy (sr_buf r) ?x e 0 (f * es) = Some ?b"
    using off(6) fe by (subst memcpy_stores) simp_all
  have 2: "memcpy ?b 0 e (f * es) ((unat n - f) * es) =
      Some (stores (zip [0..<(unat n - f) * es] (take ((unat n - f) * es) (drop (f * es) e))) ?b)"
    using off(7) fe by (subst memcpy_stores) simp_all
  have z: "zip (push_n_addrs r (sr_head r) n) (take (f * es + (unat n - f) * es) e) =
      zip [?x..<?x + f * es] (take (f * es) e) @
      zip [0..<(unat n - f) * es] (take ((unat n - f) * es) (drop (f * es) e))"
    unfolding push_n_addrs_runs [OF inv n, of "sr_head r", folded es_def f_def] take_add
    by (rule zip_append) (use fe in simp)
  show ?thesis
    using off(4) by (simp add: spsc_copy_in_def Let_def off(1-3) 1 2 z ne) (simp add: f_def)
qed

lemma copy_out_reads:
  assumes inv: "spsc_inv r" and n: "unat n \<le> unat (sr_capacity r)"
    and e: "unat n * unat (sr_element_size r) \<le> length e"
  shows "spsc_copy_out r e n =
     Some (map ((!) (sr_buf r)) (push_n_addrs r (sr_tail r) n) @ drop (unat n * unat (sr_element_size r)) e)"
proof -
  define es where "es = unat (sr_element_size r)"
  define f where "f = unat (spsc_first r (sr_tail r) n)"
  let ?x = "spsc_slot r (sr_tail r) * es"
  note off = spsc_batch_offsets [OF inv n, of "sr_tail r", folded es_def f_def]
  have ne: "unat n * unat (sr_element_size r) = f * es + (unat n - f) * es"
    using off(5) by (simp add: es_def flip: add_mult_distrib)
  have fe: "f * es + (unat n - f) * es \<le> length e" using e ne by simp
  let ?a = "map ((!) (sr_buf r)) [?x..<?x + f * es]"
  have 1: "memcpy e 0 (sr_buf r) ?x (f * es) = Some (?a @ drop (f * es) e)"
    using off(6) fe by (subst memcpy_map_nth) simp_all
  have "take ((unat n - f) * es) (sr_buf r) = map ((!) (sr_buf r)) [0..<(unat n - f) * es]"
    using off(7) by (auto intro!: nth_equalityI)
  then have 2: "memcpy (?a @ drop (f * es) e) (f * es) (sr_buf r) 0 ((unat n - f) * es) =
      Some (map ((!) (sr_buf r)) (push_n_addrs r (sr_tail r) n) @ drop (f * es + (unat n - f) * es) e)"
    using off(7) fe by (simp add: memcpy_def push_n_addrs_runs [OF inv n, of "sr_tail r", folded es_def f_def] add.commute)
  show ?thesis
    using off(4) by (simp add: spsc_copy_out_def Let_def off(1-3) 1 2 ne)
      (simp add: f_def es_def push_n_addrs_runs [OF inv n])
qed

lemma finish_push:
  assumes inv: "spsc_inv (cc_ring s)" and e: "esz s \<le> length e"
  shows "\<exists>k b s'. conc_run (replicate k (Producer i)) (push_copy e h s) = Some s' \<and> cc_p s' = P_Idle \<and>
     cc_pushed s' = cc_pushed s @ take (esz s) e \<and>
     memcpy (sr_buf (cc_ring s)) (spsc_address_of_index (cc_ring s) h) e 0 (esz s) = Some b \<and>
     cc_ring s' = (cc_ring s)\<lparr>sr_buf := b, sr_head := h + 1\<rparr>"
proof -
  have "cc_p (push_copy e h s) =
      P_Copy (zip (push_addrs (cc_ring s) h) (take (esz s) e)) (take (esz s) e) 1 h"
    by (simp add: push_copy_def Let_def)
  from producer_finishes [OF this, of i] obtain k s' where
    "conc_run (replicate k (Producer i)) (push_copy e h s) = Some s'" "cc_p s' = P_Idle"
    "cc_pushed s' = cc_pushed s @ take (esz s) e"
    "cc_ring s' = (cc_ring s)\<lparr>sr_buf := stores (zip (push_addrs (cc_ring s) h) (take (esz s) e))
        (sr_buf (cc_ring s)), sr_head := h + 1\<rparr>"
    by (auto simp: push_copy_def Let_def)
  then show ?thesis using push_copy_stores [OF inv e] by blast
qed

lemma finish_push_n:
  assumes inv: "spsc_inv (cc_ring s)" and e: "unat n * esz s \<le> length e" and h: "h = sr_head (cc_ring s)"
    and n: "n \<noteq> 0" "unat n \<le> capn s"
  shows "\<exists>k b s'. conc_run (replicate k (Producer i)) (push_n_copy e n h s) = Some s' \<and> cc_p s' = P_Idle \<and>
     cc_pushed s' = cc_pushed s @ take (unat n * esz s) e \<and> spsc_copy_in (cc_ring s) e n = Some b \<and>
     cc_ring s' = (cc_ring s)\<lparr>sr_buf := b, sr_head := h + n\<rparr>"
proof -
  let ?d = "take (unat (n * sr_element_size (cc_ring s))) e"
  have d: "?d = take (unat n * esz s) e" using unat_mult_es [OF inv n(2)] by simp
  have "cc_p (push_n_copy e n h s) = P_Copy (zip (push_n_addrs (cc_ring s) h n) ?d) ?d n h"
    using n by (simp add: push_n_copy_def Let_def)
  from producer_finishes [OF this, of i] obtain k s' where
    "conc_run (replicate k (Producer i)) (push_n_copy e n h s) = Some s'" "cc_p s' = P_Idle"
    "cc_pushed s' = cc_pushed s @ ?d"
    "cc_ring s' = (cc_ring s)\<lparr>sr_buf := stores (zip (push_n_addrs (cc_ring s) h n) ?d)
        (sr_buf (cc_ring s)), sr_head := h + n\<rparr>"
    using n by (auto simp: push_n_copy_def Let_def)
  then show ?thesis using copy_in_stores [OF inv n(2) e] unfolding d h by blast
qed

lemma finish_pop:
  assumes inv: "spsc_inv (cc_ring s)" and e: "esz s \<le> length e"
  shows "\<exists>k d s'. conc_run (replicate k (Consumer i)) (pop_copy t s) = Some s' \<and> cc_c s' = C_Idle \<and>
     cc_popped s' = cc_popped s @ d \<and> length d = esz s \<and>
     memcpy e 0 (sr_buf (cc_ring s)) (spsc_address_of_index (cc_ring s) t) (esz s) = Some (d @ drop (esz s) e) \<and>
     cc_ring s' = (cc_ring s)\<lparr>sr_tail := t + 1\<rparr>"
proof -
  have "cc_c (pop_copy t s) = C_Copy (push_addrs (cc_ring s) t) [] 1 t"
    by (simp add: pop_copy_def)
  from consumer_finishes [OF this, of i] obtain k s' where
    "conc_run (replicate k (Consumer i)) (pop_copy t s) = Some s'" "cc_c s' = C_Idle"
    "cc_popped s' = cc_popped s @ map ((!) (sr_buf (cc_ring s))) (push_addrs (cc_ring s) t)"
    "cc_ring s' = (cc_ring s)\<lparr>sr_tail := t + 1\<rparr>"
    by (auto simp: pop_copy_def)
  moreover have "length (map ((!) (sr_buf (cc_ring s))) (push_addrs (cc_ring s) t)) = esz s"
    by (simp add: push_addrs_def)
  ultimately show ?thesis using pop_copy_reads [OF inv e] by blast
qed

lemma finish_pop_n:
  assumes inv: "spsc_inv (cc_ring s)" and e: "unat n * esz s \<le> length e" and t: "t = sr_tail (cc_ring s)"
    and n: "n \<noteq> 0" "unat n \<le> capn s"
  shows "\<exists>k d s'. conc_run (replicate k (Consumer i)) (pop_n_copy n t s) = Some s' \<and> cc_c s' = C_Idle \<and>
     cc_popped s' = cc_popped s @ d \<and> length d = unat n * esz s \<and>
     spsc_copy_out (cc_ring s) e n = Some (d @ drop (unat n * esz s) e) \<and>
     cc_ring s' = (cc_ring s)\<lparr>sr_tail := t + n\<rparr>"
proof -
  have "cc_c (pop_n_copy n t s) = C_Copy (push_n_addrs (cc_ring s) t n) [] n t"
    using n by (simp add: pop_n_copy_def)
  from consumer_finishes [OF this, of i] obtain k s' where
    "conc_run (replicate k (Consumer i)) (pop_n_copy n t s) = Some s'" "cc_c s' = C_Idle"
    "cc_popped s' = cc_popped s @ map ((!) (sr_buf (cc_ring s))) (push_n_addrs (cc_ring s) t n)"
    "cc_ring s' = (cc_ring s)\<lparr>sr_tail := t + n\<rparr>"
    using n by (auto simp: pop_n_copy_def)
  moreover have "length (map ((!) (sr_buf (cc_ring s))) (push_n_addrs (cc_ring s) t n)) = unat n * esz s"
    using spsc_batch_offsets(5) [OF inv n(2), of t]
    by (simp add: push_n_addrs_runs [OF inv n(2)] diff_mult_distrib)
  ultimately show ?thesis using copy_out_reads [OF inv n(2) e] unfolding t by blast
qed

text \<open>
  A call of \<^verbatim>\<open>push\<close> that is not interleaved with the other thread, reading the newest \<^verbatim>\<open>tail\<close>, is
  the sequential \<^verbatim>\<open>spsc_ring_push\<close>; likewise for the other three operations.
\<close>

lemma run_one_more:
  "conc_step a s = Some s1 \<Longrightarrow> conc_run (replicate k a) s1 = Some s' \<Longrightarrow> \<exists>k. conc_run (replicate k a) s = Some s'"
  by (intro exI [of _ "Suc k"]) simp

lemma run_done: "\<exists>k. conc_run (replicate k a) s = Some s"
  by (intro exI [of _ 0]) simp

lemma producer_refresh:
  assumes inv: "conc_inv s" and p: "inv_p (s\<lparr>cc_p := pc\<rparr>)" "\<not> p_copying (s\<lparr>cc_p := pc\<rparr>)"
  defines "s2 \<equiv> acquire_tail (length (cc_tails s) - 1) (s\<lparr>cc_p := pc\<rparr>)"
  shows "spsc_inv (cc_ring s2)" "cc_ring s2 = (cc_ring s)\<lparr>sr_cached_tail := sr_tail (cc_ring s)\<rparr>"
    "cc_pushed s2 = cc_pushed s"
  using newest_message [OF inv] conc_spsc_inv [OF acquire_tail_inv [where i = "length (cc_tails s) - 1", OF set_p [OF inv p(1)] _ _ p(2)]]
  by (simp_all add: s2_def acquire_tail_def)

lemma consumer_refresh:
  assumes inv: "conc_inv s" and c: "inv_c (s\<lparr>cc_c := pc\<rparr>)" "\<not> c_copying (s\<lparr>cc_c := pc\<rparr>)"
  defines "s2 \<equiv> acquire_head (length (cc_heads s) - 1) (s\<lparr>cc_c := pc\<rparr>)"
  shows "spsc_inv (cc_ring s2)" "cc_ring s2 = (cc_ring s)\<lparr>sr_cached_head := sr_head (cc_ring s)\<rparr>"
    "cc_popped s2 = cc_popped s"
  using newest_message [OF inv] conc_spsc_inv [OF acquire_head_inv [where i = "length (cc_heads s) - 1", OF set_c [OF inv c(1)] _ _ c(2)]]
  by (simp_all add: s2_def acquire_head_def)

lemma alone_push:
  assumes inv: "conc_inv s" and e: "esz s \<le> length e" and pc: "cc_p s = P_Push e (sr_head (cc_ring s))"
  shows "\<exists>k s' c. conc_run (replicate k (Producer (length (cc_tails s) - 1))) s = Some s' \<and>
     cc_p s' = P_Idle \<and> spsc_ring_push (cc_ring s) e = Some (c, cc_ring s') \<and>
     cc_pushed s' = cc_pushed s @ (if c = 0 then take (esz s) e else [])"
proof -
  define h where "h = sr_head (cc_ring s)"
  define i where "i = length (cc_tails s) - 1"
  define s1 where "s1 = s\<lparr>cc_p := P_Push_Load e h\<rparr>"
  define s2 where "s2 = acquire_tail i s1"
  have i: "cc_p_seen s \<le> i" "i < length (cc_tails s)" using newest_message [OF inv] by (simp_all add: i_def)
  have s2: "spsc_inv (cc_ring s2)" "cc_ring s2 = (cc_ring s)\<lparr>sr_cached_tail := sr_tail (cc_ring s)\<rparr>"
    "cc_pushed s2 = cc_pushed s"
    unfolding s2_def s1_def i_def using e
    by (intro producer_refresh [OF inv]; simp add: inv_p_def p_copying_def h_def)+
  consider (room) "\<not> h - sr_cached_tail (cc_ring s) \<ge> sr_capacity (cc_ring s)"
    | (refresh) "h - sr_cached_tail (cc_ring s) \<ge> sr_capacity (cc_ring s)"
        "\<not> h - sr_tail (cc_ring s) \<ge> sr_capacity (cc_ring s)"
    | (full) "h - sr_cached_tail (cc_ring s) \<ge> sr_capacity (cc_ring s)"
        "h - sr_tail (cc_ring s) \<ge> sr_capacity (cc_ring s)" by blast
  then show ?thesis
  proof cases
    case room
    then have "conc_step (Producer i) s = Some (push_copy e h s)" using pc by (simp add: p_step_def Let_def h_def)
    from run_one_more [OF this] finish_push [OF conc_spsc_inv [OF inv] e, of i h] room show ?thesis
      unfolding i_def [symmetric] by (fastforce simp: spsc_ring_push_def h_def)
  next
    case refresh
    then have st: "conc_step (Producer i) s = Some s1" "conc_step (Producer i) s1 = Some (push_copy e h s2)"
      using pc i s2(2) by (simp_all add: p_step_def Let_def h_def s1_def s2_def)
    have e2: "esz s2 \<le> length e" using e s2 by simp
    from finish_push [OF s2(1) e2, of i h] run_one_more [OF st(1)] run_one_more [OF st(2)] refresh
    show ?thesis unfolding i_def [symmetric] by (fastforce simp: spsc_ring_push_def h_def s2)
  next
    case full
    then have st: "conc_step (Producer i) s = Some s1" "conc_step (Producer i) s1 = Some (s2\<lparr>cc_p := P_Idle\<rparr>)"
      using pc i s2(2) by (simp_all add: p_step_def Let_def h_def s1_def s2_def)
    with full show ?thesis unfolding i_def [symmetric]
      by (intro exI [of _ 2] exI [of _ "s2\<lparr>cc_p := P_Idle\<rparr>"] exI [of _ "-1"])
        (simp add: spsc_ring_push_def h_def s2 numeral_2_eq_2)
  qed
qed

lemma alone_pop:
  assumes inv: "conc_inv s" and e: "esz s \<le> length e" and pc: "cc_c s = C_Pop (sr_tail (cc_ring s))"
  shows "\<exists>k s' c d. conc_run (replicate k (Consumer (length (cc_heads s) - 1))) s = Some s' \<and>
     cc_c s' = C_Idle \<and> spsc_ring_pop (cc_ring s) e = Some (c, d @ drop (length d) e, cc_ring s') \<and>
     cc_popped s' = cc_popped s @ d \<and> length d = (if c = 0 then esz s else 0)"
proof -
  define t where "t = sr_tail (cc_ring s)"
  define i where "i = length (cc_heads s) - 1"
  define s1 where "s1 = s\<lparr>cc_c := C_Pop_Load t\<rparr>"
  define s2 where "s2 = acquire_head i s1"
  have i: "cc_c_seen s \<le> i" "i < length (cc_heads s)" using newest_message [OF inv] by (simp_all add: i_def)
  have s2: "spsc_inv (cc_ring s2)" "cc_ring s2 = (cc_ring s)\<lparr>sr_cached_head := sr_head (cc_ring s)\<rparr>"
    "cc_popped s2 = cc_popped s"
    unfolding s2_def s1_def i_def
    by (intro consumer_refresh [OF inv]; simp add: inv_c_def c_copying_def t_def)+
  consider (some) "t \<noteq> sr_cached_head (cc_ring s)"
    | (refresh) "t = sr_cached_head (cc_ring s)" "t \<noteq> sr_head (cc_ring s)"
    | (empty) "t = sr_cached_head (cc_ring s)" "t = sr_head (cc_ring s)" by blast
  then show ?thesis
  proof cases
    case some
    then have "conc_step (Consumer i) s = Some (pop_copy t s)" using pc by (simp add: c_step_def Let_def t_def)
    from run_one_more [OF this] finish_pop [OF conc_spsc_inv [OF inv] e, of i t] some show ?thesis
      unfolding i_def [symmetric] by (fastforce simp: spsc_ring_pop_def t_def)
  next
    case refresh
    then have st: "conc_step (Consumer i) s = Some s1" "conc_step (Consumer i) s1 = Some (pop_copy t s2)"
      using pc i s2(2) by (simp_all add: c_step_def Let_def t_def s1_def s2_def)
    have e2: "esz s2 \<le> length e" using e s2 by simp
    from finish_pop [OF s2(1) e2, of i t] run_one_more [OF st(1)] run_one_more [OF st(2)] refresh
    show ?thesis unfolding i_def [symmetric] by (fastforce simp: spsc_ring_pop_def t_def s2)
  next
    case empty
    then have st: "conc_step (Consumer i) s = Some s1" "conc_step (Consumer i) s1 = Some (s2\<lparr>cc_c := C_Idle\<rparr>)"
      using pc i s2(2) by (simp_all add: c_step_def Let_def t_def s1_def s2_def)
    with empty show ?thesis unfolding i_def [symmetric]
      by (intro exI [of _ 2] exI [of _ "s2\<lparr>cc_c := C_Idle\<rparr>"] exI [of _ "-1"] exI [of _ "[]"])
        (simp add: spsc_ring_pop_def t_def s2 numeral_2_eq_2)
  qed
qed

text \<open>For batches the copy may be empty, so finishing includes the early return.\<close>

lemma finish_push_n_or_return:
  assumes inv: "spsc_inv (cc_ring s)" and e: "unat n * esz s \<le> length e" and h: "h = sr_head (cc_ring s)"
    and n: "unat n \<le> capn s"
  shows "\<exists>k s'. conc_run (replicate k (Producer i)) (push_n_copy e n h s) = Some s' \<and> cc_p s' = P_Idle \<and>
     cc_pushed s' = cc_pushed s @ take (unat n * esz s) e \<and>
     (if n = 0 then Some (0, cc_ring s)
      else do { b \<leftarrow> spsc_copy_in (cc_ring s) e n; Some (n, (cc_ring s)\<lparr>sr_buf := b, sr_head := h + n\<rparr>) }) =
     Some (n, cc_ring s')"
proof (cases "n = 0")
  case True
  then show ?thesis by (intro exI [of _ 0] exI [of _ "s\<lparr>cc_p := P_Idle\<rparr>"]) (simp add: push_n_copy_def)
next
  case False
  from finish_push_n [OF inv e h False n, of i] False show ?thesis by fastforce
qed

lemma finish_pop_n_or_return:
  assumes inv: "spsc_inv (cc_ring s)" and e: "unat n * esz s \<le> length e" and t: "t = sr_tail (cc_ring s)"
    and n: "unat n \<le> capn s"
  shows "\<exists>k s' d. conc_run (replicate k (Consumer i)) (pop_n_copy n t s) = Some s' \<and> cc_c s' = C_Idle \<and>
     cc_popped s' = cc_popped s @ d \<and> length d = unat n * esz s \<and>
     (if n = 0 then Some (0, e, cc_ring s)
      else do { e \<leftarrow> spsc_copy_out (cc_ring s) e n; Some (n, e, (cc_ring s)\<lparr>sr_tail := t + n\<rparr>) }) =
     Some (n, d @ drop (length d) e, cc_ring s')"
proof (cases "n = 0")
  case True
  then show ?thesis
    by (intro exI [of _ 0] exI [of _ "s\<lparr>cc_c := C_Idle\<rparr>"] exI [of _ "[]"]) (simp add: pop_n_copy_def)
next
  case False
  from finish_pop_n [OF inv e t False n, of i] False show ?thesis by fastforce
qed

lemma room_le_capacity:
  assumes "spsc_inv r"
  shows "unat (sr_capacity r - (sr_head r - sr_cached_tail r)) \<le> unat (sr_capacity r)"
    and "unat (sr_cached_head r - sr_tail r) \<le> unat (sr_capacity r)"
  using assms by (auto simp: spsc_inv_def unat_sub word_le_nat_alt)

lemma alone_push_n:
  assumes inv: "conc_inv s" and e: "unat n * esz s \<le> length e"
    and pc: "cc_p s = P_Push_N e n (sr_head (cc_ring s))"
  shows "\<exists>k s' c. conc_run (replicate k (Producer (length (cc_tails s) - 1))) s = Some s' \<and>
     cc_p s' = P_Idle \<and> spsc_ring_push_n (cc_ring s) e n = Some (c, cc_ring s') \<and>
     cc_pushed s' = cc_pushed s @ take (unat c * esz s) e"
proof -
  define h where "h = sr_head (cc_ring s)"
  define i where "i = length (cc_tails s) - 1"
  define s1 where "s1 = s\<lparr>cc_p := P_Push_N_Load e n h\<rparr>"
  define s2 where "s2 = acquire_tail i s1"
  define rem where "rem = sr_capacity (cc_ring s) - (h - sr_tail (cc_ring s))"
  define m where "m = (if rem < n then rem else n)"
  note sinv = conc_spsc_inv [OF inv]
  have i: "cc_p_seen s \<le> i" "i < length (cc_tails s)" using newest_message [OF inv] by (simp_all add: i_def)
  have s2: "spsc_inv (cc_ring s2)" "cc_ring s2 = (cc_ring s)\<lparr>sr_cached_tail := sr_tail (cc_ring s)\<rparr>"
    "cc_pushed s2 = cc_pushed s"
    unfolding s2_def s1_def i_def using e
    by (intro producer_refresh [OF inv]; simp add: inv_p_def p_copying_def h_def)+
  show ?thesis
  proof (cases "sr_capacity (cc_ring s) - (h - sr_cached_tail (cc_ring s)) < n")
    case False
    then have st: "conc_step (Producer i) s = Some (push_n_copy e n h s)"
      using pc by (simp add: p_step_def Let_def h_def)
    have "unat n \<le> capn s"
      using False room_le_capacity(1) [OF sinv] by (simp add: h_def word_less_nat_alt)
    from run_one_more [OF st] finish_push_n_or_return [OF sinv e h_def this, of i] False show ?thesis
      unfolding i_def [symmetric] by (fastforce simp: spsc_ring_push_n_def h_def)
  next
    case True
    then have st: "conc_step (Producer i) s = Some s1" "conc_step (Producer i) s1 = Some (push_n_copy e m h s2)"
      using pc i s2(2) by (simp_all add: p_step_def Let_def h_def s1_def s2_def m_def rem_def)
    have mn: "unat m \<le> unat n" and "unat m \<le> unat rem" by (auto simp: m_def word_less_nat_alt)
    then have c2: "unat m \<le> capn s2" using room_le_capacity(1) [OF s2(1)] s2(2) by (simp add: rem_def h_def)
    have e2: "unat m * esz s2 \<le> length e" using le_trans [OF mult_le_mono1 [OF mn] e] s2(2) by simp
    have h2: "h = sr_head (cc_ring s2)" using s2 by (simp add: h_def)
    have "spsc_ring_push_n (cc_ring s) e n = (if m = 0 then Some (0, cc_ring s2)
      else do { b \<leftarrow> spsc_copy_in (cc_ring s2) e m; Some (m, (cc_ring s2)\<lparr>sr_buf := b, sr_head := h + m\<rparr>) })"
      using True by (cases "rem < n") (simp_all add: spsc_ring_push_n_def Let_def h_def s2(2) m_def rem_def)
    with finish_push_n_or_return [OF s2(1) e2 h2 c2, of i] run_one_more [OF st(1)] run_one_more [OF st(2)]
    show ?thesis unfolding i_def [symmetric] by (fastforce simp: s2(2,3))
  qed
qed

lemma alone_pop_n:
  assumes inv: "conc_inv s" and e: "unat n * esz s \<le> length e"
    and pc: "cc_c s = C_Pop_N n (sr_tail (cc_ring s))"
  shows "\<exists>k s' c d. conc_run (replicate k (Consumer (length (cc_heads s) - 1))) s = Some s' \<and>
     cc_c s' = C_Idle \<and> spsc_ring_pop_n (cc_ring s) e n = Some (c, d @ drop (length d) e, cc_ring s') \<and>
     cc_popped s' = cc_popped s @ d \<and> length d = unat c * esz s"
proof -
  define t where "t = sr_tail (cc_ring s)"
  define i where "i = length (cc_heads s) - 1"
  define s1 where "s1 = s\<lparr>cc_c := C_Pop_N_Load n t\<rparr>"
  define s2 where "s2 = acquire_head i s1"
  define avail where "avail = sr_head (cc_ring s) - t"
  define m where "m = (if avail < n then avail else n)"
  note sinv = conc_spsc_inv [OF inv]
  have i: "cc_c_seen s \<le> i" "i < length (cc_heads s)" using newest_message [OF inv] by (simp_all add: i_def)
  have s2: "spsc_inv (cc_ring s2)" "cc_ring s2 = (cc_ring s)\<lparr>sr_cached_head := sr_head (cc_ring s)\<rparr>"
    "cc_popped s2 = cc_popped s"
    unfolding s2_def s1_def i_def
    by (intro consumer_refresh [OF inv]; simp add: inv_c_def c_copying_def t_def)+
  show ?thesis
  proof (cases "sr_cached_head (cc_ring s) - t < n")
    case False
    then have st: "conc_step (Consumer i) s = Some (pop_n_copy n t s)"
      using pc by (simp add: c_step_def Let_def t_def)
    have "unat n \<le> capn s"
      using False room_le_capacity(2) [OF sinv] by (simp add: t_def word_less_nat_alt)
    from run_one_more [OF st] finish_pop_n_or_return [OF sinv e t_def this, of i] False show ?thesis
      unfolding i_def [symmetric] by (fastforce simp: spsc_ring_pop_n_def t_def)
  next
    case True
    then have st: "conc_step (Consumer i) s = Some s1" "conc_step (Consumer i) s1 = Some (pop_n_copy m t s2)"
      using pc i s2(2) by (simp_all add: c_step_def Let_def t_def s1_def s2_def m_def avail_def)
    have mn: "unat m \<le> unat n" and "unat m \<le> unat avail" by (auto simp: m_def word_less_nat_alt)
    then have c2: "unat m \<le> capn s2" using room_le_capacity(2) [OF s2(1)] s2(2) by (simp add: avail_def t_def)
    have e2: "unat m * esz s2 \<le> length e" using le_trans [OF mult_le_mono1 [OF mn] e] s2(2) by simp
    have t2: "t = sr_tail (cc_ring s2)" using s2 by (simp add: t_def)
    have "spsc_ring_pop_n (cc_ring s) e n = (if m = 0 then Some (0, e, cc_ring s2)
      else do { e \<leftarrow> spsc_copy_out (cc_ring s2) e m; Some (m, e, (cc_ring s2)\<lparr>sr_tail := t + m\<rparr>) })"
      using True by (cases "avail < n") (simp_all add: spsc_ring_pop_n_def Let_def t_def s2(2) m_def avail_def)
    with finish_pop_n_or_return [OF s2(1) e2 t2 c2, of i] run_one_more [OF st(1)] run_one_more [OF st(2)]
    show ?thesis unfolding i_def [symmetric] by (fastforce simp: s2(2,3))
  qed
qed

subsection \<open>Sizes\<close>

lemma act_keeps:
  "conc_step a s = Some s' \<Longrightarrow> \<not> by_producer a \<Longrightarrow> cc_heads s' = cc_heads s \<and> cc_p_seen s' = cc_p_seen s"
  "conc_step a s = Some s' \<Longrightarrow> by_producer a \<Longrightarrow> cc_tails s' = cc_tails s \<and> cc_c_seen s' = cc_c_seen s"
  "conc_step a s = Some s' \<Longrightarrow> sr_capacity (cc_ring s') = sr_capacity (cc_ring s)"
  by (cases a; auto simp: p_step_def c_step_def push_copy_def push_n_copy_def pop_copy_def pop_n_copy_def
      acquire_tail_def acquire_head_def write_byte_def read_byte_def release_head_def release_tail_def Let_def
      split: if_splits list.splits ppc.splits cpc.splits)+

lemma run_keeps:
  "conc_run as s = Some s' \<Longrightarrow> list_all (\<lambda>a. \<not> by_producer a) as \<Longrightarrow> cc_heads s' = cc_heads s"
  "conc_run as s = Some s' \<Longrightarrow> list_all by_producer as \<Longrightarrow> cc_tails s' = cc_tails s"
  "conc_run as s = Some s' \<Longrightarrow> sr_capacity (cc_ring s') = sr_capacity (cc_ring s)"
  by (induction as arbitrary: s; auto split: option.splits dest: act_keeps)+

lemma racy_size_value:
  assumes inv: "conc_inv s" "conc_inv s'" and ij: "i < length (cc_heads s)" "j < length (cc_tails s')"
    and le: "msg_cnt (cc_tails s' ! j) \<le> msg_cnt (cc_heads s ! i)"
      "msg_cnt (cc_heads s ! i) \<le> msg_cnt (cc_tails s' ! j) + capn s"
  shows "unat (racy_size i j s s') = msg_cnt (cc_heads s ! i) - msg_cnt (cc_tails s' ! j)"
    "racy_size i j s s' \<le> sr_capacity (cc_ring s)"
proof -
  have "msg_val (cc_heads s ! i) = of_nat (msg_cnt (cc_heads s ! i))" "msg_val (cc_tails s' ! j) = of_nat (msg_cnt (cc_tails s' ! j))"
    using inv ij by (simp_all add: conc_inv_def inv_msgs_def)
  moreover have "capn s < 2 ^ LENGTH(64)" by (rule unsigned_less)
  ultimately show u: "unat (racy_size i j s s') = msg_cnt (cc_heads s ! i) - msg_cnt (cc_tails s' ! j)"
    using le wrapped_distance [where 'w = 64, of "msg_cnt (cc_tails s' ! j)" "msg_cnt (cc_heads s ! i)"]
    by (simp add: racy_size_def)
  show "racy_size i j s s' \<le> sr_capacity (cc_ring s)" using u le by (simp add: word_le_nat_alt)
qed

lemma msgs_between:
  assumes "conc_inv s"
  shows "cc_p_seen s \<le> j \<Longrightarrow> j < length (cc_tails s) \<Longrightarrow> pct s \<le> msg_cnt (cc_tails s ! j) \<and> msg_cnt (cc_tails s ! j) \<le> tcnt s"
    "cc_c_seen s \<le> i \<Longrightarrow> i < length (cc_heads s) \<Longrightarrow> cch s \<le> msg_cnt (cc_heads s ! i)"
    "i < length (cc_heads s) \<Longrightarrow> msg_cnt (cc_heads s ! i) \<le> hcnt s"
  using assms sorted_nth_last [of msg_cnt "cc_tails s" j] sorted_nth_last [of msg_cnt "cc_heads s" i]
    sorted_nth_mono [of "map msg_cnt (cc_tails s)" "cc_p_seen s" j] sorted_nth_mono [of "map msg_cnt (cc_heads s)" "cc_c_seen s" i]
  by (auto simp: conc_inv_def inv_msgs_def)

lemma size_in_order:
  assumes "conc_reachable r s" "conc_run as s = Some s'" "i < length (cc_heads s)" "j < length (cc_tails s')"
    and "tcnt s \<le> msg_cnt (cc_tails s' ! j)" "msg_cnt (cc_tails s' ! j) \<le> msg_cnt (cc_heads s ! i)"
  shows "unat (racy_size i j s s') = msg_cnt (cc_heads s ! i) - msg_cnt (cc_tails s' ! j) \<and>
    racy_size i j s s' \<le> sr_capacity (cc_ring s)"
proof -
  have inv: "conc_inv s" "conc_inv s'"
    using reachable_conc_inv [OF assms(1)] reachable_conc_inv [OF run_reachable [OF assms(1,2)]] by auto
  have "msg_cnt (cc_heads s ! i) \<le> msg_cnt (cc_tails s' ! j) + capn s"
    using msgs_between(3) [OF inv(1) assms(3)] conc_order [OF inv(1)] assms(5) by linarith
  with racy_size_value [OF inv assms(3,4,6)] show ?thesis by blast
qed

lemma size_by_producer:
  assumes "conc_reachable r s" "conc_run as s = Some s'" "list_all (\<lambda>a. \<not> by_producer a) as"
    and "i = length (cc_heads s) - 1" "cc_p_seen s' \<le> j" "j < length (cc_tails s')"
  shows "hcnt s' - tcnt s' \<le> unat (racy_size i j s s') \<and> racy_size i j s s' \<le> sr_capacity (cc_ring s)"
proof -
  have inv: "conc_inv s" "conc_inv s'"
    using reachable_conc_inv [OF assms(1)] reachable_conc_inv [OF run_reachable [OF assms(1,2)]] by auto
  note K = run_keeps(1,3) [OF assms(2)]
  have ne: "cc_heads s \<noteq> []" using inv(1) inv_msgs_nonempty by (auto simp: conc_inv_def)
  then have h: "msg_cnt (cc_heads s ! i) = hcnt s'" "i < length (cc_heads s)" using K(1) assms(3,4) by (simp_all add: last_conv_nth)
  note t = msgs_between(1) [OF inv(2) assms(5,6)] and o = conc_order [OF inv(2)]
  have "msg_cnt (cc_tails s' ! j) \<le> hcnt s'" "hcnt s' \<le> msg_cnt (cc_tails s' ! j) + capn s" using t o K(2) by auto
  with racy_size_value [OF inv h(2) assms(6)] h(1) t show ?thesis by auto
qed

lemma size_by_consumer:
  assumes "conc_reachable r s" "conc_run as s = Some s'" "list_all by_producer as"
    and "j = length (cc_tails s') - 1" "cc_c_seen s \<le> i" "i < length (cc_heads s)"
  shows "unat (racy_size i j s s') \<le> hcnt s - tcnt s \<and> racy_size i j s s' \<le> sr_capacity (cc_ring s)"
proof -
  have inv: "conc_inv s" "conc_inv s'"
    using reachable_conc_inv [OF assms(1)] reachable_conc_inv [OF run_reachable [OF assms(1,2)]] by auto
  have ne: "cc_tails s \<noteq> []" using inv(1) inv_msgs_nonempty by (auto simp: conc_inv_def)
  then have t: "msg_cnt (cc_tails s' ! j) = tcnt s" "j < length (cc_tails s')"
    using run_keeps(2) [OF assms(2,3)] assms(4) by (simp_all add: last_conv_nth)
  have "tcnt s \<le> msg_cnt (cc_heads s ! i)" using msgs_between(2) [OF inv(1) assms(5,6)] conc_order [OF inv(1)] by simp
  with size_in_order [OF assms(1,2,6) t(2)] t(1) msgs_between(3) [OF inv(1) assms(6)] show ?thesis by auto
qed

lemma size_wraps:
  "\<exists>s'. conc_run transfer_run (conc_init small_ring) = Some s' \<and> length (cc_tails s') = 2 \<and>
     racy_size 0 1 (conc_init small_ring) s' = - 1"
  by (simp add: racy_size_def transfer_run_def conc_eval small_ring_def)

lemma size_exceeds:
  "\<exists>s. conc_run two_transfers (conc_init small_ring) = Some s \<and> length (cc_heads s) = 3 \<and>
     racy_size 2 0 s s = 4 \<and> sr_capacity (cc_ring s) = 2"
  by (simp add: racy_size_def two_transfers_def conc_eval small_ring_def upt_conv_Cons)

section \<open>Properties\<close>

text \<open>
  C8: Whatever the interleaving of the producer and the consumer, and however stale the counter
  values their acquire loads return, no byte of \<^verbatim>\<open>buf\<close> is subject to a data race and none is
  accessed outside the buffer; the ring's own invariant holds at every moment.
\<close>

theorem spsc_race_free:
  assumes "conc_reachable r s"
  shows "\<not> cc_race s \<and> \<not> cc_oob s \<and> spsc_inv (cc_ring s)"
  using reachable_conc_inv [OF assms] conc_spsc_inv by (auto simp: conc_inv_def)

theorem spsc_race_free_witness:
  "\<exists>s. conc_run overlap_run (conc_init small_ring) = Some s \<and> cc_p s = P_Copy [] [8] 1 1 \<and>
     cc_c s = C_Copy [] [7] 1 0 \<and> \<not> cc_race s \<and> \<not> cc_oob s \<and> spsc_inv (cc_ring s)"
proof -
  obtain s where s: "conc_run overlap_run (conc_init small_ring) = Some s"
    "cc_p s = P_Copy [] [8] 1 1" "cc_c s = C_Copy [] [7] 1 0"
    by (simp add: overlap_run_def conc_eval small_ring_def)
  show ?thesis using s spsc_race_free [OF conc_run_start [OF small_ring_fresh s(1)]] by blast
qed

text \<open>
  C9: What the consumer has received is, at every moment of every interleaving, a prefix of what
  the producer has published: nothing is lost, duplicated, reordered or corrupted. The elements
  in flight, the difference of the two counts, never exceed the capacity.
\<close>

theorem spsc_conc_fifo:
  assumes "conc_reachable r s"
  shows "\<exists>inflight. cc_pushed s = cc_popped s @ inflight \<and>
     length inflight = (hcnt s - tcnt s) * esz s \<and> hcnt s - tcnt s \<le> capn s \<and>
     unat (sr_head (cc_ring s) - sr_tail (cc_ring s)) = hcnt s - tcnt s"
proof -
  have inv: "conc_inv s" using assms by (rule reachable_conc_inv)
  then have d: "cc_popped s = take (tcnt s * esz s) (cc_pushed s)" "length (cc_pushed s) = hcnt s * esz s"
    by (auto simp: conc_inv_def inv_data_def)
  then have "cc_pushed s = cc_popped s @ drop (tcnt s * esz s) (cc_pushed s)" by simp
  moreover have n: "hcnt s - tcnt s \<le> capn s" using conc_order [OF inv] by linarith
  moreover have "length (drop (tcnt s * esz s) (cc_pushed s)) = (hcnt s - tcnt s) * esz s"
    by (simp add: d(2) diff_mult_distrib)
  moreover have "unat (sr_head (cc_ring s) - sr_tail (cc_ring s)) = hcnt s - tcnt s"
    using inv n conc_order [OF inv] conc_sizes [of s] wrapped_distance [where 'w = 64, of "tcnt s" "hcnt s"]
    by (simp add: conc_inv_def inv_msgs_def)
  ultimately show ?thesis by blast
qed

theorem spsc_conc_fifo_witness:
  "\<exists>s. conc_run (transfer_run @ [Call_Push [9], Producer 0, Producer 0, Producer 0]) (conc_init small_ring) = Some s \<and>
     cc_popped s = [7] \<and> (\<exists>x. cc_pushed s = [7, x])"
proof -
  obtain s where s: "conc_run (transfer_run @ [Call_Push [9], Producer 0, Producer 0, Producer 0]) (conc_init small_ring) = Some s"
    "cc_popped s = [7]" "hcnt s = 2" "tcnt s = 1" "esz s = 1"
    by (simp add: transfer_run_def conc_eval small_ring_def)
  from spsc_conc_fifo [OF conc_run_start [OF small_ring_fresh s(1)]] s show ?thesis
    by (auto simp: length_Suc_conv)
qed

text \<open>
  C10: Both threads are wait-free. A thread inside a call can always take a step; each of its steps
  brings the end of the call nearer and no step of the other thread moves it away; so a call
  ends within \<open>capacity * element_size + 3\<close> steps of its own.
\<close>

theorem spsc_wait_free:
  assumes "conc_reachable r s"
  shows "(cc_p s \<noteq> P_Idle \<longrightarrow> (\<exists>i s'. p_step i s = Some s')) \<and>
     (cc_c s \<noteq> C_Idle \<longrightarrow> (\<exists>i s'. c_step i s = Some s')) \<and>
     (\<forall>i s'. p_step i s = Some s' \<longrightarrow> p_left s' < p_left s \<and> c_left s' = c_left s) \<and>
     (\<forall>i s'. c_step i s = Some s' \<longrightarrow> c_left s' < c_left s \<and> p_left s' = p_left s) \<and>
     p_left s \<le> capn s * esz s + 3 \<and> c_left s \<le> capn s * esz s + 3 \<and>
     (p_left s = 0 \<longleftrightarrow> cc_p s = P_Idle) \<and> (c_left s = 0 \<longleftrightarrow> cc_c s = C_Idle)"
proof -
  have inv: "conc_inv s" using assms by (rule reachable_conc_inv)
  have "p_left s \<le> capn s * esz s + 3" "c_left s \<le> capn s * esz s + 3"
    using copying_bound [OF inv] by (auto simp: p_left_def c_left_def split: ppc.splits cpc.splits)
  moreover have "p_left s = 0 \<longleftrightarrow> cc_p s = P_Idle" "c_left s = 0 \<longleftrightarrow> cc_c s = C_Idle"
    by (auto simp: p_left_def c_left_def split: ppc.splits cpc.splits)
  ultimately show ?thesis
    using p_step_enabled [OF inv] c_step_enabled [OF inv] p_step_decreases [OF inv]
      c_step_decreases [OF inv] p_step_c_left c_step_p_left by blast
qed

theorem spsc_wait_free_witness:
  "\<exists>s. conc_run overlap_run (conc_init small_ring) = Some s \<and> p_left s = 1 \<and>
     (\<exists>i s'. p_step i s = Some s' \<and> p_left s' = 0)"
proof -
  obtain s where s: "conc_run overlap_run (conc_init small_ring) = Some s" "cc_p s = P_Copy [] [8] 1 1"
    by (simp add: overlap_run_def conc_eval small_ring_def)
  then have l: "p_left s = 1" by (simp add: p_left_def)
  note w = spsc_wait_free [OF conc_run_start [OF small_ring_fresh s(1)]]
  then obtain i s' where "p_step i s = Some s'" using s(2) by auto
  with w l have "p_left s' < 1" by metis
  with \<open>p_step i s = Some s'\<close> s(1) l show ?thesis by auto
qed

text \<open>
  The thread programs are the functions of \<^verbatim>\<open>spsc_ring.c\<close>: from any reachable state, a
  producer that enters \<^verbatim>\<open>push\<close> or \<^verbatim>\<open>push_n\<close> and runs without interruption, reading the newest
  \<^verbatim>\<open>tail\<close>, leaves the ring exactly as the sequential function does.
\<close>

lemma spsc_producer_is_push:
  assumes "conc_reachable r s" and "cc_p s = P_Idle" and "unat n * esz s \<le> length e" and "1 \<le> n"
  shows "(\<exists>k s' c. conc_run (Call_Push e # replicate k (Producer (length (cc_tails s) - 1))) s = Some s' \<and>
       cc_p s' = P_Idle \<and> spsc_ring_push (cc_ring s) e = Some (c, cc_ring s') \<and>
       cc_pushed s' = cc_pushed s @ (if c = 0 then take (esz s) e else [])) \<and>
     (\<exists>k s' c. conc_run (Call_Push_N e n # replicate k (Producer (length (cc_tails s) - 1))) s = Some s' \<and>
       cc_p s' = P_Idle \<and> spsc_ring_push_n (cc_ring s) e n = Some (c, cc_ring s') \<and>
       cc_pushed s' = cc_pushed s @ take (unat c * esz s) e)"
proof -
  have inv: "conc_inv s" using assms(1) by (rule reachable_conc_inv)
  have "1 * esz s \<le> unat n * esz s" using assms(4) by (intro mult_le_mono1) (simp add: word_le_nat_alt)
  with assms(3) have e: "esz s \<le> length e" by linarith
  let ?s1 = "s\<lparr>cc_p := P_Push e (sr_head (cc_ring s))\<rparr>"
  let ?s2 = "s\<lparr>cc_p := P_Push_N e n (sr_head (cc_ring s))\<rparr>"
  have "conc_inv ?s1" "conc_inv ?s2" using e assms(3) by (auto intro!: set_p [OF inv] simp: inv_p_def)
  from alone_push [OF this(1), of e] alone_push_n [OF this(2), of n e] e assms(2,3) show ?thesis
    by (simp split del: if_split cong: if_cong)
qed

text \<open>
  The same for the consumer: \<^verbatim>\<open>pop\<close> and \<^verbatim>\<open>pop_n\<close> run alone leave the ring and fill the
  caller's buffer as the sequential functions do.
\<close>

lemma spsc_consumer_is_pop:
  assumes "conc_reachable r s" and "cc_c s = C_Idle" and "unat n * esz s \<le> length e" and "1 \<le> n"
  shows "(\<exists>k s' c d. conc_run (Call_Pop # replicate k (Consumer (length (cc_heads s) - 1))) s = Some s' \<and>
       cc_c s' = C_Idle \<and> spsc_ring_pop (cc_ring s) e = Some (c, d @ drop (length d) e, cc_ring s') \<and>
       cc_popped s' = cc_popped s @ d \<and> length d = (if c = 0 then esz s else 0)) \<and>
     (\<exists>k s' c d. conc_run (Call_Pop_N n # replicate k (Consumer (length (cc_heads s) - 1))) s = Some s' \<and>
       cc_c s' = C_Idle \<and> spsc_ring_pop_n (cc_ring s) e n = Some (c, d @ drop (length d) e, cc_ring s') \<and>
       cc_popped s' = cc_popped s @ d \<and> length d = unat c * esz s)"
proof -
  have inv: "conc_inv s" using assms(1) by (rule reachable_conc_inv)
  have "1 * esz s \<le> unat n * esz s" using assms(4) by (intro mult_le_mono1) (simp add: word_le_nat_alt)
  with assms(3) have e: "esz s \<le> length e" by linarith
  let ?s1 = "s\<lparr>cc_c := C_Pop (sr_tail (cc_ring s))\<rparr>"
  let ?s2 = "s\<lparr>cc_c := C_Pop_N n (sr_tail (cc_ring s))\<rparr>"
  have "conc_inv ?s1" "conc_inv ?s2" by (auto intro!: set_c [OF inv] simp: inv_c_def)
  from alone_pop [OF this(1), of e] alone_pop_n [OF this(2), of n e] e assms(2,3) show ?thesis
    by (simp split del: if_split cong: if_cong)
qed

text \<open>
  C11: The thread programs are the functions of \<^verbatim>\<open>spsc_ring.c\<close>. From any reachable state, a producer that
  enters \<^verbatim>\<open>push\<close> or \<^verbatim>\<open>push_n\<close> and runs without interruption, reading the newest \<^verbatim>\<open>tail\<close>, leaves the ring
  exactly as the sequential function does; and a consumer that runs \<^verbatim>\<open>pop\<close> or \<^verbatim>\<open>pop_n\<close> alone, reading the newest
  \<^verbatim>\<open>head\<close>, leaves the ring and fills the caller's buffer as the sequential function does. The batch calls are for at
  least one element, and the caller's buffer has room for all.
\<close>

theorem spsc_uninterrupted_call:
  assumes "conc_reachable r s" and "unat n * esz s \<le> length e" and "1 \<le> n"
  shows "(cc_p s = P_Idle \<longrightarrow>
     (\<exists>k s' c. conc_run (Call_Push e # replicate k (Producer (length (cc_tails s) - 1))) s = Some s' \<and>
       cc_p s' = P_Idle \<and> spsc_ring_push (cc_ring s) e = Some (c, cc_ring s') \<and>
       cc_pushed s' = cc_pushed s @ (if c = 0 then take (esz s) e else [])) \<and>
     (\<exists>k s' c. conc_run (Call_Push_N e n # replicate k (Producer (length (cc_tails s) - 1))) s = Some s' \<and>
       cc_p s' = P_Idle \<and> spsc_ring_push_n (cc_ring s) e n = Some (c, cc_ring s') \<and>
       cc_pushed s' = cc_pushed s @ take (unat c * esz s) e)) \<and>
   (cc_c s = C_Idle \<longrightarrow>
     (\<exists>k s' c d. conc_run (Call_Pop # replicate k (Consumer (length (cc_heads s) - 1))) s = Some s' \<and>
       cc_c s' = C_Idle \<and> spsc_ring_pop (cc_ring s) e = Some (c, d @ drop (length d) e, cc_ring s') \<and>
       cc_popped s' = cc_popped s @ d \<and> length d = (if c = 0 then esz s else 0)) \<and>
     (\<exists>k s' c d. conc_run (Call_Pop_N n # replicate k (Consumer (length (cc_heads s) - 1))) s = Some s' \<and>
       cc_c s' = C_Idle \<and> spsc_ring_pop_n (cc_ring s) e n = Some (c, d @ drop (length d) e, cc_ring s') \<and>
       cc_popped s' = cc_popped s @ d \<and> length d = unat c * esz s))"
  using spsc_producer_is_push [OF assms(1) _ assms(2,3)] spsc_consumer_is_pop [OF assms(1) _ assms(2,3)] by blast

theorem spsc_uninterrupted_call_witness:
  "(\<exists>k s' c. conc_run (Call_Push [5] # replicate k (Producer 0)) (conc_init small_ring) = Some s' \<and>
     spsc_ring_push small_ring [5] = Some (c, cc_ring s') \<and> cc_p s' = P_Idle) \<and>
   (\<exists>k s' c d. conc_run (Call_Pop # replicate k (Consumer 0)) (conc_init small_ring) = Some s' \<and>
     spsc_ring_pop small_ring [5] = Some (c, d @ drop (length d) [5], cc_ring s') \<and> cc_c s' = C_Idle)"
  using spsc_uninterrupted_call [OF conc_reachable.start [OF small_ring_fresh], of 1 "[5]"]
  by (auto simp: conc_init_def small_ring_def)

text \<open>
  C13: What \<^verbatim>\<open>spsc_ring_size\<close> can return while the threads run, its two relaxed loads returning values that may be
  stale. Called by the producer, it is at least the number of elements in the ring when \<^verbatim>\<open>tail\<close> is loaded, and at
  most the capacity; called by the consumer, it is at most the number of elements in the ring when \<^verbatim>\<open>head\<close> is loaded,
  hence at most the capacity. Called by any other thread it is the difference of the two values, at most the capacity, if the
  \<^verbatim>\<open>tail\<close> it reads is not older than the one that was newest when \<^verbatim>\<open>head\<close> was loaded, and not beyond
  that \<^verbatim>\<open>head\<close>; otherwise it need not be a size the ring had at any moment. On a ring of capacity 2 it can be \<open>2 ^ 64 - 1\<close>, when
  an element is pushed and popped between the two loads, and it can be 4, when \<^verbatim>\<open>head\<close> is new and \<^verbatim>\<open>tail\<close> is stale.
\<close>

theorem spsc_size_snapshot:
  "(conc_reachable r s \<and> conc_run as s = Some s' \<longrightarrow>
     (list_all (\<lambda>a. \<not> by_producer a) as \<and> i = length (cc_heads s) - 1 \<and> cc_p_seen s' \<le> j \<and> j < length (cc_tails s') \<longrightarrow>
        hcnt s' - tcnt s' \<le> unat (racy_size i j s s') \<and> racy_size i j s s' \<le> sr_capacity (cc_ring s)) \<and>
     (list_all by_producer as \<and> j = length (cc_tails s') - 1 \<and> cc_c_seen s \<le> i \<and> i < length (cc_heads s) \<longrightarrow>
        unat (racy_size i j s s') \<le> hcnt s - tcnt s \<and> racy_size i j s s' \<le> sr_capacity (cc_ring s)) \<and>
     (i < length (cc_heads s) \<and> j < length (cc_tails s') \<and> tcnt s \<le> msg_cnt (cc_tails s' ! j) \<and>
      msg_cnt (cc_tails s' ! j) \<le> msg_cnt (cc_heads s ! i) \<longrightarrow>
        unat (racy_size i j s s') = msg_cnt (cc_heads s ! i) - msg_cnt (cc_tails s' ! j) \<and>
        racy_size i j s s' \<le> sr_capacity (cc_ring s))) \<and>
   (\<exists>s'. conc_run transfer_run (conc_init small_ring) = Some s' \<and> length (cc_tails s') = 2 \<and>
      racy_size 0 1 (conc_init small_ring) s' = - 1) \<and>
   (\<exists>s. conc_run two_transfers (conc_init small_ring) = Some s \<and> length (cc_heads s) = 3 \<and>
      racy_size 2 0 s s = 4 \<and> sr_capacity (cc_ring s) = 2)"
  using size_by_producer size_by_consumer size_in_order size_wraps size_exceeds by blast

theorem spsc_size_snapshot_witness:
  "\<exists>s. conc_run overlap_run (conc_init small_ring) = Some s \<and>
     racy_size 1 0 s s \<le> 2 \<and> unat (racy_size 1 0 s s) \<le> 1"
proof -
  obtain s where s: "conc_run overlap_run (conc_init small_ring) = Some s"
    "sr_capacity (cc_ring s) = 2" "length (cc_heads s) = 2" "length (cc_tails s) = 1" "cc_c_seen s = 1" "hcnt s = 1" "tcnt s = 0"
    by (simp add: overlap_run_def conc_eval small_ring_def)
  from spsc_size_snapshot [of small_ring s "[]" s 1 0] conc_run_start [OF small_ring_fresh s(1)] s show ?thesis by simp
qed

end
