(* ===== verification/Dma_Layout.thy ===== *)
theory Dma_Layout
  imports Prelude
begin

text \<open>
  What driver and device share: guest memory seen as bytes, and the packed little-endian layout
  of the submission and completion queue entries. \<^verbatim>\<open>nic.h\<close> declares them as \<^verbatim>\<open>sqe_t\<close> and
  \<^verbatim>\<open>cqe_t\<close>, \<^verbatim>\<open>vm/dma_engine.c\<close> as \<^verbatim>\<open>DevSqe\<close> and \<^verbatim>\<open>DevCqe\<close>; the two sides are separate types here
  too, and the lemmas show that what one side stores the other reads back field by field.
\<close>

section \<open>Definitions\<close>

subsection \<open>Memory\<close>

type_synonym mem = "u64 \<Rightarrow> u8"

definition load :: "mem \<Rightarrow> u64 \<Rightarrow> nat \<Rightarrow> block" where
  "load m a n = map (\<lambda>i. m (a + of_nat i)) [0..<n]"

definition store :: "mem \<Rightarrow> u64 \<Rightarrow> block \<Rightarrow> mem" where
  "store m a bs = (\<lambda>x. if unat (x - a) < length bs then bs ! unat (x - a) else m x)"

text \<open>The \<open>n\<close> bytes from \<open>a\<close> and the \<open>k\<close> bytes from \<open>b\<close> do not overlap (addresses wrap).\<close>

definition apart :: "u64 \<Rightarrow> nat \<Rightarrow> u64 \<Rightarrow> nat \<Rightarrow> bool" where
  "apart a n b k \<longleftrightarrow> n \<le> unat (b - a) \<and> k \<le> unat (a - b)"

subsection \<open>Little-endian integers\<close>

definition le_bytes :: "nat \<Rightarrow> 'w::len word \<Rightarrow> block" where
  "le_bytes n w = map (\<lambda>i. ucast (drop_bit (8 * i) w)) [0..<n]"

fun of_le :: "block \<Rightarrow> 'w::len word" where
  "of_le [] = 0"
| "of_le (b # bs) = ucast b OR push_bit 8 (of_le bs)"

subsection \<open>Descriptors of the driver\<close>

record sqe_t =
  cookie :: u64
  buf_addr :: u64
  len_t :: u32
  op :: u32

record cqe_t =
  cq_cookie :: u64
  status :: u32
  bytes_xferred :: u32

definition DMA_OP_TX :: u32 where "DMA_OP_TX = 1"
definition DMA_OP_RX :: u32 where "DMA_OP_RX = 2"
definition sizeof_sqe :: nat where "sizeof_sqe = 24"
definition sizeof_cqe :: nat where "sizeof_cqe = 16"

definition sqe_bytes :: "sqe_t \<Rightarrow> block" where
  "sqe_bytes e = le_bytes 8 (cookie e) @ le_bytes 8 (buf_addr e) @ le_bytes 4 (len_t e) @ le_bytes 4 (op e)"

definition cqe_of_bytes :: "block \<Rightarrow> cqe_t" where
  "cqe_of_bytes bs = \<lparr> cq_cookie = of_le (take 8 bs), status = of_le (take 4 (drop 8 bs)),
     bytes_xferred = of_le (take 4 (drop 12 bs)) \<rparr>"

subsection \<open>Descriptors of the device\<close>

record DevSqe =
  ds_cookie :: u64
  ds_buf_addr :: u64
  ds_len :: u32
  ds_op :: u32

record DevCqe =
  dc_cookie :: u64
  dc_status :: u32
  dc_bytes_xferred :: u32

definition DevSqe_of_bytes :: "block \<Rightarrow> DevSqe" where
  "DevSqe_of_bytes bs = \<lparr> ds_cookie = of_le (take 8 bs), ds_buf_addr = of_le (take 8 (drop 8 bs)),
     ds_len = of_le (take 4 (drop 16 bs)), ds_op = of_le (take 4 (drop 20 bs)) \<rparr>"

definition DevCqe_bytes :: "DevCqe \<Rightarrow> block" where
  "DevCqe_bytes c = le_bytes 8 (dc_cookie c) @ le_bytes 4 (dc_status c) @ le_bytes 4 (dc_bytes_xferred c)"

text \<open>The same descriptor in the types of the other side.\<close>

definition dev_view :: "sqe_t \<Rightarrow> DevSqe" where
  "dev_view e = \<lparr> ds_cookie = cookie e, ds_buf_addr = buf_addr e, ds_len = len_t e, ds_op = op e \<rparr>"

definition drv_view :: "DevCqe \<Rightarrow> cqe_t" where
  "drv_view c = \<lparr> cq_cookie = dc_cookie c, status = dc_status c, bytes_xferred = dc_bytes_xferred c \<rparr>"

section \<open>Lemmas\<close>

subsection \<open>Little-endian round trips\<close>

lemma length_le_bytes [simp]: "length (le_bytes n w) = n"
  by (simp add: le_bytes_def)

lemma bit_of_le:
  "bit (of_le bs :: 'w::len word) n \<longleftrightarrow>
     n < LENGTH('w) \<and> n div 8 < length bs \<and> bit (bs ! (n div 8)) (n mod 8)"
proof (induction bs arbitrary: n)
  case (Cons b bs)
  show ?case
  proof (cases "n < 8")
    case True
    then show ?thesis by (auto simp: bit_simps dest: bit_imp_le_length)
  next
    case False
    then obtain k where k: "n = 8 + k" by (metis le_iff_add not_less)
    have "\<not> bit b n" using False by (auto dest: bit_imp_le_length)
    moreover have "n div 8 = Suc (k div 8)" using k by linarith
    moreover have "n mod 8 = k mod 8" using k by simp
    ultimately show ?thesis using k Cons.IH [of k] by (auto simp: bit_simps)
  qed
qed simp

lemma bit_le_bytes:
  "i < n \<Longrightarrow> j < 8 \<Longrightarrow> bit (le_bytes n w ! i) j \<longleftrightarrow> bit w (8 * i + j)"
  by (simp add: le_bytes_def bit_simps)

lemma of_le_bytes [simp]:
  assumes "LENGTH('w) \<le> 8 * n"
  shows "of_le (le_bytes n w) = (w::'w::len word)"
proof (rule bit_word_eqI)
  fix i assume "i < LENGTH('w)"
  then have "i div 8 < n" using assms by linarith
  moreover have "8 * (i div 8) + i mod 8 = i" by simp
  ultimately show "bit (of_le (le_bytes n w) :: 'w word) i = bit w i"
    using \<open>i < LENGTH('w)\<close> by (simp add: bit_of_le bit_le_bytes)
qed

lemma length_sqe_bytes [simp]: "length (sqe_bytes e) = sizeof_sqe"
  by (simp add: sqe_bytes_def sizeof_sqe_def)

lemma length_DevCqe_bytes [simp]: "length (DevCqe_bytes c) = sizeof_cqe"
  by (simp add: DevCqe_bytes_def sizeof_cqe_def)

lemma dev_reads_sqe [simp]: "DevSqe_of_bytes (sqe_bytes e) = dev_view e"
  by (simp add: DevSqe_of_bytes_def sqe_bytes_def dev_view_def)

lemma drv_reads_cqe [simp]: "cqe_of_bytes (DevCqe_bytes c) = drv_view c"
  by (simp add: cqe_of_bytes_def DevCqe_bytes_def drv_view_def)

subsection \<open>Loads and stores\<close>

lemma length_load [simp]: "length (load m a n) = n"
  by (simp add: load_def)

lemma nth_load [simp]: "i < n \<Longrightarrow> load m a n ! i = m (a + of_nat i)"
  by (simp add: load_def)

lemma apart_sym: "apart a n b k \<longleftrightarrow> apart b k a n"
  by (auto simp: apart_def)

lemma unat_offset: "i < 2 ^ 64 \<Longrightarrow> unat (of_nat i :: u64) = i"
  by (simp add: unat_of_nat)

lemma load_store_same:
  assumes "length bs = n" "n \<le> 2 ^ 64"
  shows "load (store m a bs) a n = bs"
  using assms by (intro nth_equalityI) (simp_all add: store_def unat_offset)

lemma circular_distance:
  fixes x y M :: nat
  assumes "x \<noteq> y" "x < M" "y < M"
  shows "(if y \<le> x then x - y else x + M - y) = M - (if x \<le> y then y - x else y + M - x)"
  using assms by auto

lemma unat_minus_swap:
  fixes a b :: u64
  assumes "a \<noteq> b"
  shows "unat (a - b) = 2 ^ 64 - unat (b - a)"
proof -
  have ne: "unat a \<noteq> unat b" using assms by (simp add: word_unat_eq_iff)
  have bnd: "unat a < 2 ^ 64" "unat b < 2 ^ 64" using unsigned_less [of a] unsigned_less [of b] by simp_all
  have d: "unat (a - b) = (if unat b \<le> unat a then unat a - unat b else unat a + 2 ^ 64 - unat b)"
    "unat (b - a) = (if unat a \<le> unat b then unat b - unat a else unat b + 2 ^ 64 - unat a)"
    by (simp_all add: unat_sub_if')
  show ?thesis unfolding d by (rule circular_distance [OF ne bnd])
qed

text \<open>Two non-overlapping ranges: no byte of one lies in the other.\<close>

lemma apart_outside:
  assumes "apart a n b k" "i < n"
  shows "k \<le> unat (a + of_nat i - b)"
proof -
  have i: "i < unat (b - a)" using assms by (simp add: apart_def)
  have lt: "unat (b - a) < 2 ^ LENGTH(64)" by (rule unsigned_less)
  have "a \<noteq> b" using i by auto
  then have "unat (a - b) = 2 ^ 64 - unat (b - a)" by (rule unat_minus_swap)
  moreover have "unat (of_nat i :: u64) = i" using i lt by (simp add: unat_of_nat)
  moreover have "a + of_nat i - b = (a - b) + of_nat i" by simp
  ultimately have "unat (a + of_nat i - b) = unat (a - b) + i"
    using i lt by (simp only: unat_plus_if') simp
  then show ?thesis using assms(1) by (simp add: apart_def)
qed

lemma load_store_apart:
  "apart a n b (length bs) \<Longrightarrow> load (store m b bs) a n = load m a n"
  by (auto simp: store_def dest!: apart_outside intro!: nth_equalityI)

lemma apart_sub:
  assumes "apart a n b k" "off + n' \<le> n" "0 < n'"
  shows "apart (a + of_nat off) n' b k"
proof -
  have "off < n" using assms by simp
  then have k: "k \<le> unat (a + of_nat off - b)" by (rule apart_outside [OF assms(1)])
  have n: "n \<le> unat (b - a)" using assms(1) by (simp add: apart_def)
  have "unat (b - a) < 2 ^ LENGTH(64)" by (rule unsigned_less)
  with n \<open>off < n\<close> have o: "unat (of_nat off :: u64) = off" by (simp add: unat_of_nat)
  then have "unat (b - (a + of_nat off)) = unat (b - a) - off"
    using n \<open>off < n\<close> unat_dist_sub [of "of_nat off" b a] by simp
  with k n assms(2) show ?thesis by (simp add: apart_def)
qed

section \<open>Arrays of 32-bit numbers\<close>

text \<open>The representation of an \<^verbatim>\<open>int\<close>, \<^verbatim>\<open>uint32_t\<close> or \<^verbatim>\<open>float\<close> in memory, of an array of them, and its element \<open>i\<close>.\<close>

abbreviation rep :: "u32 \<Rightarrow> block" where "rep v \<equiv> le_bytes 4 v"

definition reps :: "u32 list \<Rightarrow> block" where
  "reps vs = concat (map rep vs)"

definition int_at :: "block \<Rightarrow> nat \<Rightarrow> u32" where
  "int_at bs i = of_le (chunk 4 bs i)"

lemma chunks_reps: "m \<le> length vs \<Longrightarrow> chunks 4 (reps vs) m = map rep (take m vs)"
  using chunk_concat [of "map rep vs" 4] by (auto simp: chunks_def reps_def intro!: nth_equalityI)

lemma length_reps [simp]: "length (reps vs) = 4 * length vs"
  by (induction vs) (simp_all add: reps_def)

lemma int_at_reps:
  assumes "i < length vs"
  shows "int_at (reps vs @ bs) i = vs ! i" "int_at (reps vs) i = vs ! i"
  using assms chunk_concat [of "map rep vs" 4 i] length_reps [of vs] by (simp_all add: int_at_def chunk_def reps_def)

end
