(* ===== verification/Fair_Rounds.thy ===== *)
theory Fair_Rounds
  imports Prelude
begin

text \<open>
  Schedules of threads, and why loops that wait for each other end. A schedule is a list of turns, each
  with a number that stands for the choices the machine has in it; it is divided into rounds. In a good
  round every thread has a number of turns and the machine does nothing untoward; the other rounds
  are arbitrary.

  The locale \<open>helpful_threads\<close> is the argument: as long as the goal has not been reached there is a thread
  whose turns bring it nearer, no other thread moves it away, and which thread it is does not change
  before some progress is made. Loads of stale values are the reason for \<open>tick\<close>: what was stored before a
  round begins is visible in the round (\<open>fresh\<close>).
\<close>

section \<open>Schedules\<close>

type_synonym ('t, 'b) moves = "'t \<Rightarrow> nat \<Rightarrow> 'b \<Rightarrow> 'b option"

fun run_moves :: "('t, 'b) moves \<Rightarrow> ('t \<times> nat) list \<Rightarrow> 'b \<Rightarrow> 'b option" where
  "run_moves move [] b = Some b"
| "run_moves move ((t, k) # ts) b = do { b \<leftarrow> move t k b; run_moves move ts b }"

fun run_rounds :: "('b \<Rightarrow> 'b) \<Rightarrow> ('t, 'b) moves \<Rightarrow> ('t \<times> nat) list list \<Rightarrow> 'b \<Rightarrow> 'b option" where
  "run_rounds tick move [] b = Some b"
| "run_rounds tick move (r # rs) b = do { b \<leftarrow> run_moves move r (tick b); run_rounds tick move rs b }"

definition turns_of :: "'t \<Rightarrow> ('t \<times> nat) list \<Rightarrow> nat" where
  "turns_of t r = length (filter (\<lambda>x. fst x = t) r)"

definition good_round :: "'t set \<Rightarrow> nat \<Rightarrow> (nat \<Rightarrow> bool) \<Rightarrow> ('t \<times> nat) list \<Rightarrow> bool" where
  "good_round T n calm r \<longleftrightarrow> (\<forall>t \<in> T. n \<le> turns_of t r) \<and> (\<forall>x \<in> set r. calm (snd x))"

definition good_rounds :: "'t set \<Rightarrow> nat \<Rightarrow> (nat \<Rightarrow> bool) \<Rightarrow> ('t \<times> nat) list list \<Rightarrow> nat" where
  "good_rounds T n calm rs = length (filter (good_round T n calm) rs)"

lemma turns_of_simps [simp]:
  "turns_of t [] = 0" "turns_of t ((u, k) # r) = (if u = t then Suc (turns_of t r) else turns_of t r)"
  by (simp_all add: turns_of_def)

lemma turns_of_append [simp]: "turns_of t (a @ b) = turns_of t a + turns_of t b"
  by (simp add: turns_of_def)

lemma turns_of_replicate: "turns_of t (replicate n (u, k)) = (if u = t then n else 0)"
  by (simp add: turns_of_def)

lemma good_rounds_replicate: "good_round T n calm r \<Longrightarrow> good_rounds T n calm (replicate k r) = k"
  by (simp add: good_rounds_def)

lemma run_moves_idle: "(\<And>t k. move t k b = Some b) \<Longrightarrow> run_moves move ts b = Some b"
  by (induction ts) auto

lemma run_moves_keeps:
  "(\<And>t k b b'. move t k b = Some b' \<Longrightarrow> f b' = f b) \<Longrightarrow> run_moves move ts b = Some b' \<Longrightarrow> f b' = f b"
  by (induction move ts b rule: run_moves.induct) (fastforce split: Option.bind_splits)+

lemma run_rounds_keeps:
  assumes "\<And>t k b b'. move t k b = Some b' \<Longrightarrow> f b' = f b" "\<And>b. f (tick b) = f b"
  shows "run_rounds tick move rs b = Some b' \<Longrightarrow> f b' = f b"
proof (induction rs arbitrary: b)
  case (Cons r rs)
  then show ?case using run_moves_keeps [of move f, OF assms(1)] assms(2) by (fastforce split: Option.bind_splits)
qed simp

section \<open>Loads\<close>

text \<open>
  The value a load returns, as an index into the values stored: any from the last one the thread has seen,
  and the last one that has become visible, on.
\<close>

definition load_choice :: "nat \<Rightarrow> nat \<Rightarrow> nat \<Rightarrow> nat \<Rightarrow> nat" where
  "load_choice seen vis len k = (let lo = max seen vis in lo + k mod (len - lo))"

lemma load_choice_bounds:
  assumes "seen < len" "vis < len"
  shows "seen \<le> load_choice seen vis len k" "vis \<le> load_choice seen vis len k" "load_choice seen vis len k < len"
proof -
  have "k mod (len - max seen vis) < len - max seen vis" using assms by simp
  then show "seen \<le> load_choice seen vis len k" "vis \<le> load_choice seen vis len k" "load_choice seen vis len k < len"
    by (auto simp: load_choice_def Let_def)
qed

lemma load_choice_newest:
  assumes "seen < len" "vis < len" "max seen vis = len - 1"
  shows "load_choice seen vis len k = len - 1"
  using load_choice_bounds [OF assms(1,2), of k] assms(3) by (auto simp: max_def split: if_splits)

section \<open>Helpful threads\<close>

locale helpful_threads =
  fixes T :: "'t set"
    and inv fresh :: "'b \<Rightarrow> bool"
    and tick :: "'b \<Rightarrow> 'b"
    and move :: "('t, 'b) moves"
    and calm :: "nat \<Rightarrow> bool"
    and progress :: "'b \<Rightarrow> nat"
    and helpful :: "'b \<Rightarrow> 't"
    and dist :: "'b \<Rightarrow> 't \<Rightarrow> nat"
    and goal pace :: nat
  assumes bound: "inv b \<Longrightarrow> progress b \<le> goal"
    and helps: "inv b \<Longrightarrow> progress b < goal \<Longrightarrow> helpful b \<in> T"
    and near: "inv b \<Longrightarrow> progress b < goal \<Longrightarrow> dist b (helpful b) < pace"
    and ticks: "inv b \<Longrightarrow> inv (tick b) \<and> fresh (tick b) \<and> progress (tick b) = progress b"
    and moves: "inv b \<Longrightarrow> \<exists>b'. move t k b = Some b' \<and> inv b' \<and> progress b \<le> progress b' \<and>
      (progress b' = progress b \<and> progress b < goal \<and> fresh b \<and> calm k \<longrightarrow>
        fresh b' \<and> helpful b' = helpful b \<and> dist b' (helpful b) \<le> dist b (helpful b) \<and>
        (t = helpful b \<longrightarrow> dist b' t < dist b t))"
begin

lemma run_defined:
  "inv b \<Longrightarrow> \<exists>b'. run_moves move ts b = Some b' \<and> inv b' \<and> progress b \<le> progress b'"
proof (induction ts arbitrary: b)
  case (Cons x ts)
  obtain t k where x: "x = (t, k)" by force
  obtain b1 where b1: "move t k b = Some b1" "inv b1" "progress b \<le> progress b1" using moves [OF Cons.prems] by blast
  with Cons.IH [OF b1(2)] show ?case by (fastforce simp: x)
qed simp

lemma rounds_defined: "inv b \<Longrightarrow> \<exists>b'. run_rounds tick move rs b = Some b' \<and> inv b' \<and> progress b \<le> progress b'"
proof (induction rs arbitrary: b)
  case (Cons r rs)
  note tk = ticks [OF Cons.prems]
  then obtain b1 where b1: "run_moves move r (tick b) = Some b1" "inv b1" "progress b \<le> progress b1"
    using run_defined [of "tick b" r] by auto
  with Cons.IH [OF b1(2)] show ?case by fastforce
qed simp

text \<open>Enough turns of the helpful thread make progress, whatever the others do in between.\<close>

lemma helpful_progress:
  "inv b \<Longrightarrow> fresh b \<Longrightarrow> progress b < goal \<Longrightarrow> \<forall>x \<in> set ts. calm (snd x) \<Longrightarrow>
   dist b (helpful b) < turns_of (helpful b) ts \<Longrightarrow> run_moves move ts b = Some b' \<Longrightarrow> progress b < progress b'"
proof (induction ts arbitrary: b)
  case (Cons x ts)
  obtain t k where x: "x = (t, k)" by force
  obtain b1 where b1: "move t k b = Some b1" "inv b1" "progress b \<le> progress b1"
    and m: "progress b1 = progress b \<Longrightarrow> fresh b1 \<and> helpful b1 = helpful b \<and> dist b1 (helpful b) \<le> dist b (helpful b) \<and>
        (t = helpful b \<longrightarrow> dist b1 t < dist b t)"
    using moves [OF Cons.prems(1), of t k] Cons.prems(2-4) by (fastforce simp: x)
  have r: "run_moves move ts b1 = Some b'" using Cons.prems(6) b1(1) by (simp add: x)
  show ?case
  proof (cases "progress b1 = progress b")
    case True
    with m have "dist b1 (helpful b1) < turns_of (helpful b1) ts" using Cons.prems(5) by (auto simp: x split: if_splits)
    with Cons.IH [OF b1(2) _ _ _ _ r] True m Cons.prems(3,4) show ?thesis by auto
  next
    case False
    with b1(3) run_defined [OF b1(2), of ts] r show ?thesis by auto
  qed
qed simp

theorem rounds_reach_goal:
  "inv b \<Longrightarrow> goal \<le> progress b + good_rounds T pace calm rs \<Longrightarrow>
     \<exists>b'. run_rounds tick move rs b = Some b' \<and> inv b' \<and> progress b' = goal"
proof (induction rs arbitrary: b)
  case Nil
  then show ?case using bound [OF Nil.prems(1)] by (simp add: good_rounds_def)
next
  case (Cons r rs)
  note tk = ticks [OF Cons.prems(1)]
  then obtain b1 where b1: "run_moves move r (tick b) = Some b1" "inv b1" "progress b \<le> progress b1"
    using run_defined [of "tick b" r] by auto
  have "progress b < progress b1" if "good_round T pace calm r" "progress b < goal"
  proof (rule helpful_progress [of "tick b" r b1, unfolded conjunct2 [OF conjunct2 [OF tk]]])
    show "dist (tick b) (helpful (tick b)) < turns_of (helpful (tick b)) r"
      using near [of "tick b"] helps [of "tick b"] tk that by (fastforce simp: good_round_def)
  qed (use tk b1 that in \<open>auto simp: good_round_def\<close>)
  then have "goal \<le> progress b1 + good_rounds T pace calm rs"
    using Cons.prems(2) b1(3) bound [OF b1(2)]
    by (cases "progress b < goal"; cases "good_round T pace calm r") (auto simp: good_rounds_def)
  with Cons.IH [OF b1(2)] b1(1) show ?case by simp
qed

end

end
