(* ===== verification/Spsc_Loops.thy ===== *)
theory Spsc_Loops
  imports Spsc_Properties Spsc_Conc_Properties Dma_Layout Fair_Rounds
begin

text \<open>
  A producer thread that pushes until it has pushed a number of elements, and a consumer thread that pops
  until it has popped as many: the loops of the concurrent test in \<^verbatim>\<open>test_spsc.c\<close> and those of
  \<^verbatim>\<open>bench_spsc.c\<close>, on the ring as \<open>Spsc_Concurrent\<close> has it. Every turn of a thread is one atomic access or the
  copy of one byte, and the loops around the calls are part of the thread programs. Which call the next
  iteration makes is a function of the loop's counter; the consumer may check what it pops, and leaves the
  process with \<^verbatim>\<open>exit(2)\<close> when the check fails.

  A load may be stale. For the loops to end, stores have to become visible at some time: here, a store
  made before a round of the schedule begins is visible in that round. Within this bound the machine
  chooses (the number a turn is given).

  The locale \<open>ring_loops\<close> says what the calls and the check owe the loops; it gives that no turn fails, that what
  was pushed are the bytes of the calls, and that the threads are \<open>helpful_threads\<close>.
\<close>

section \<open>Definitions\<close>

text \<open>Whose turn it is.\<close>

datatype turn = P | C

text \<open>
  The ring, the flag the threads wait for, the loop counters of the producer and of the consumer, the status of a
  call of \<^verbatim>\<open>exit\<close>, and how many stores of \<^verbatim>\<open>head\<close> and of \<^verbatim>\<open>tail\<close> are visible to the other thread.
\<close>

record loops =
  lp_conc :: conc
  lp_go :: bool
  lp_sent :: u32
  lp_rcvd :: u32
  lp_exit :: "int option"
  lp_vis_head :: nat
  lp_vis_tail :: nat

text \<open>
  The load of the flag, the test of the loop, entering a call, or the next step of the call; when the call returns, the
  counter goes up by the number of elements pushed or popped (a call that finds no room, or nothing, adds none).
\<close>

definition producer_loop :: "u32 \<Rightarrow> (u32 \<Rightarrow> act) \<Rightarrow> nat \<Rightarrow> loops \<Rightarrow> loops option" where
  "producer_loop items next k b =
     (let s = lp_conc b in
      if \<not> lp_go b \<or> lp_exit b \<noteq> None then Some b
      else case cc_p s of
        P_Idle \<Rightarrow>
          if lp_sent b < items then do { s' \<leftarrow> conc_step (next (lp_sent b)) s; Some (b\<lparr>lp_conc := s'\<rparr>) } else Some b
      | P_Copy [] d n h \<Rightarrow> do { s' \<leftarrow> p_step 0 s; Some (b\<lparr>lp_conc := s', lp_sent := lp_sent b + ucast n\<rparr>) }
      | _ \<Rightarrow> do { s' \<leftarrow> p_step (load_choice (cc_p_seen s) (lp_vis_tail b) (length (cc_tails s)) k) s;
                  Some (b\<lparr>lp_conc := s'\<rparr>) })"

definition consumer_loop :: "u32 \<Rightarrow> (u32 \<Rightarrow> act) \<Rightarrow> (u32 \<Rightarrow> block \<Rightarrow> bool) \<Rightarrow> nat \<Rightarrow> loops \<Rightarrow> loops option" where
  "consumer_loop items next check k b =
     (let s = lp_conc b in
      if \<not> lp_go b \<or> lp_exit b \<noteq> None then Some b
      else case cc_c s of
        C_Idle \<Rightarrow>
          if lp_rcvd b < items then do { s' \<leftarrow> conc_step (next (lp_rcvd b)) s; Some (b\<lparr>lp_conc := s'\<rparr>) } else Some b
      | C_Copy [] got n t \<Rightarrow>
          do { s' \<leftarrow> c_step 0 s;
               if \<not> check (lp_rcvd b) got then Some (b\<lparr>lp_conc := s', lp_exit := Some 2\<rparr>)
               else Some (b\<lparr>lp_conc := s', lp_rcvd := lp_rcvd b + ucast n\<rparr>) }
      | _ \<Rightarrow> do { s' \<leftarrow> c_step (load_choice (cc_c_seen s) (lp_vis_head b) (length (cc_heads s)) k) s;
                  Some (b\<lparr>lp_conc := s'\<rparr>) })"

definition loops_move :: "(nat \<Rightarrow> loops \<Rightarrow> loops option) \<Rightarrow> (nat \<Rightarrow> loops \<Rightarrow> loops option) \<Rightarrow> (turn, loops) moves" where
  "loops_move p c t k b = (case t of P \<Rightarrow> p k b | C \<Rightarrow> c k b)"

text \<open>What has been stored so far becomes visible.\<close>

definition become_visible :: "loops \<Rightarrow> loops" where
  "become_visible b =
     b\<lparr>lp_vis_head := length (cc_heads (lp_conc b)) - 1, lp_vis_tail := length (cc_tails (lp_conc b)) - 1\<rparr>"

definition loops_start :: "spsc_ring \<Rightarrow> loops" where
  "loops_start r = \<lparr>lp_conc = conc_init r, lp_go = False, lp_sent = 0, lp_rcvd = 0, lp_exit = None,
     lp_vis_head = 0, lp_vis_tail = 0\<rparr>"

text \<open>Both threads have left their loops.\<close>

definition loops_joined :: "u32 \<Rightarrow> loops \<Rightarrow> bool" where
  "loops_joined items b \<longleftrightarrow> \<not> lp_sent b < items \<and> \<not> lp_rcvd b < items"

section \<open>Calls and batches\<close>

text \<open>A call that pushes, or pops, between one and \<open>most\<close> four-byte elements, of which \<open>left\<close> are left to push.\<close>

definition push_call :: "nat \<Rightarrow> nat \<Rightarrow> act \<Rightarrow> bool" where
  "push_call most left a \<longleftrightarrow>
     (case a of Call_Push e \<Rightarrow> 4 \<le> length e \<and> 1 \<le> most
      | Call_Push_N e n \<Rightarrow> 0 < n \<and> unat n \<le> most \<and> unat n \<le> left \<and> unat n * 4 \<le> length e
      | _ \<Rightarrow> False)"

definition pop_call :: "nat \<Rightarrow> act \<Rightarrow> bool" where
  "pop_call most a \<longleftrightarrow> (case a of Call_Pop \<Rightarrow> 1 \<le> most | Call_Pop_N n \<Rightarrow> 0 < n \<and> unat n \<le> most | _ \<Rightarrow> False)"

fun call_bytes :: "act \<Rightarrow> block" where
  "call_bytes (Call_Push e) = e"
| "call_bytes (Call_Push_N e n) = e"
| "call_bytes _ = []"

text \<open>What calls that pushed \<open>ns\<close> elements, starting at element \<open>i\<close>, have put into the stream.\<close>

fun batches :: "(u32 \<Rightarrow> act) \<Rightarrow> nat \<Rightarrow> nat list \<Rightarrow> block" where
  "batches next i [] = []"
| "batches next i (n # ns) = take (n * 4) (call_bytes (next (of_nat i))) @ batches next (i + n) ns"

definition batch_sizes :: "nat \<Rightarrow> nat \<Rightarrow> nat list \<Rightarrow> bool" where
  "batch_sizes most k ns \<longleftrightarrow> list_all (\<lambda>n. 0 < n \<and> n \<le> most) ns \<and> sum_list ns = k"

lemma unat_narrow: "unat (n :: size_t) < 2 ^ 32 \<Longrightarrow> unat (ucast n :: u32) = unat n"
  by (simp add: unsigned_ucast_eq take_bit_nat_eq_self)

lemma batches_append: "batches next i (ns @ ms) = batches next i ns @ batches next (i + sum_list ns) ms"
  by (induction ns arbitrary: i) (simp_all add: add.assoc)

lemma batch_sizes_one: "batch_sizes 1 n ns \<Longrightarrow> ns = replicate n 1"
proof (induction ns arbitrary: n)
  case (Cons m ns)
  then have m: "m = 1" "n = Suc (sum_list ns)" by (auto simp: batch_sizes_def)
  with Cons show ?case by (simp add: batch_sizes_def)
qed (simp add: batch_sizes_def)

lemma batches_one:
  "batches next i (replicate n 1) = concat (map (\<lambda>j. take 4 (call_bytes (next (of_nat j)))) [i..<i + n])"
  by (induction n arbitrary: i) (simp_all add: upt_conv_Cons del: upt_Suc)

section \<open>Steps of a call\<close>

lemma copying_bytes:
  assumes "conc_inv s" "esz s = 4"
  shows "cc_p s = P_Copy todo d n h \<Longrightarrow> length todo \<le> unat n * 4 \<and> length d = unat n * 4"
    and "cc_c s = C_Copy todo' d' n t \<Longrightarrow> length todo' \<le> unat n * 4"
  using assms by (auto simp: conc_inv_def inv_p_def inv_c_def)

text \<open>What a step inside a push leaves alone: everything but the producer's fields, until the head is stored.\<close>

lemma p_step_keeps:
  assumes "p_step i s = Some s'" and "\<nexists>d n h. cc_p s = P_Copy [] d n h"
  shows "cc_heads s' = cc_heads s" "cc_tails s' = cc_tails s" "cc_c s' = cc_c s" "esz s' = esz s"
    "cc_pushed s' = cc_pushed s"
  using assms by (cases "cc_p s"; auto simp: p_step_def push_copy_def push_n_copy_def acquire_tail_def write_byte_def
      Let_def split: if_splits list.splits)+

lemma c_step_keeps:
  assumes "c_step i s = Some s'" and "\<nexists>d n t. cc_c s = C_Copy [] d n t"
  shows "cc_heads s' = cc_heads s" "cc_tails s' = cc_tails s" "cc_p s' = cc_p s" "esz s' = esz s"
    "cc_pushed s' = cc_pushed s"
  using assms by (cases "cc_c s"; auto simp: c_step_def pop_copy_def pop_n_copy_def acquire_head_def read_byte_def
      Let_def split: if_splits list.splits)+

text \<open>
  The steps before a copy: the test of the cached counter, then perhaps the load. Either leads to a copy of at
  least one and at most as many elements as asked for; the load may also end the call, when it finds no room, or no
  element.
\<close>

definition starts_push :: "block \<Rightarrow> size_t \<Rightarrow> conc \<Rightarrow> bool" where
  "starts_push e n s \<longleftrightarrow> (\<exists>todo x m h. cc_p s = P_Copy todo (take x e) m h \<and> 0 < m \<and> m \<le> n)"

definition starts_pop :: "size_t \<Rightarrow> conc \<Rightarrow> bool" where
  "starts_pop n s \<longleftrightarrow> (\<exists>todo m t. cc_c s = C_Copy todo [] m t \<and> 0 < m \<and> m \<le> n)"

lemma starts_copying:
  "starts_push e 1 (push_copy e h s)" "0 < m \<Longrightarrow> m \<le> n \<Longrightarrow> starts_push e n (push_n_copy e m h s)"
  "starts_pop 1 (pop_copy t s)" "0 < m \<Longrightarrow> m \<le> n \<Longrightarrow> starts_pop n (pop_n_copy m t s)"
  by (auto simp: starts_push_def push_copy_def push_n_copy_def starts_pop_def pop_copy_def pop_n_copy_def Let_def)

lemma push_tests:
  "cc_p s = P_Push e h \<Longrightarrow> \<exists>s'. p_step i s = Some s' \<and> (cc_p s' = P_Push_Load e h \<or> starts_push e 1 s')"
  "cc_p s = P_Push_N e n h \<Longrightarrow> 0 < n \<Longrightarrow> \<exists>s'. p_step i s = Some s' \<and> (cc_p s' = P_Push_N_Load e n h \<or> starts_push e n s')"
  by (simp_all add: p_step_def Let_def starts_copying)

lemma pop_tests:
  "cc_c s = C_Pop t \<Longrightarrow> \<exists>s'. c_step i s = Some s' \<and> (cc_c s' = C_Pop_Load t \<or> starts_pop 1 s')"
  "cc_c s = C_Pop_N n t \<Longrightarrow> 0 < n \<Longrightarrow> \<exists>s'. c_step i s = Some s' \<and> (cc_c s' = C_Pop_N_Load n t \<or> starts_pop n s')"
  by (simp_all add: c_step_def Let_def starts_copying)

lemma push_loads:
  assumes i: "cc_p_seen s \<le> i" "i < length (cc_tails s)"
  shows "cc_p s = P_Push_Load e h \<Longrightarrow> \<exists>s'. p_step i s = Some s' \<and>
      (cc_p s' = P_Idle \<and> sr_capacity (cc_ring s) \<le> h - msg_val (cc_tails s ! i) \<or> starts_push e 1 s')"
    and "cc_p s = P_Push_N_Load e n h \<Longrightarrow> 0 < n \<Longrightarrow> \<exists>s'. p_step i s = Some s' \<and>
      (cc_p s' = P_Idle \<and> sr_capacity (cc_ring s) = h - msg_val (cc_tails s ! i) \<or> starts_push e n s')"
proof -
  show "cc_p s = P_Push_Load e h \<Longrightarrow> \<exists>s'. p_step i s = Some s' \<and>
      (cc_p s' = P_Idle \<and> sr_capacity (cc_ring s) \<le> h - msg_val (cc_tails s ! i) \<or> starts_push e 1 s')"
    using i by (simp add: p_step_def Let_def acquire_tail_def starts_copying)
  assume pc: "cc_p s = P_Push_N_Load e n h" and n: "0 < n"
  let ?rem = "sr_capacity (cc_ring s) - (h - msg_val (cc_tails s ! i))"
  define m where "m = (if ?rem < n then ?rem else n)"
  have st: "p_step i s = Some (push_n_copy e m h (acquire_tail i s))"
    using i pc by (simp add: p_step_def Let_def acquire_tail_def m_def)
  show "\<exists>s'. p_step i s = Some s' \<and>
      (cc_p s' = P_Idle \<and> sr_capacity (cc_ring s) = h - msg_val (cc_tails s ! i) \<or> starts_push e n s')"
  proof (cases "m = 0")
    case True
    then have "?rem = 0" using n by (auto simp: m_def split: if_splits)
    then show ?thesis using st True by (simp add: push_n_copy_def)
  next
    case False
    then have "0 < m" "m \<le> n" by (auto simp: m_def word_neq_0_conv not_less)
    then show ?thesis using st starts_copying(2) by auto
  qed
qed

lemma pop_loads:
  assumes i: "cc_c_seen s \<le> i" "i < length (cc_heads s)"
  shows "cc_c s = C_Pop_Load t \<Longrightarrow> \<exists>s'. c_step i s = Some s' \<and>
      (cc_c s' = C_Idle \<and> t = msg_val (cc_heads s ! i) \<or> starts_pop 1 s')"
    and "cc_c s = C_Pop_N_Load n t \<Longrightarrow> 0 < n \<Longrightarrow> \<exists>s'. c_step i s = Some s' \<and>
      (cc_c s' = C_Idle \<and> t = msg_val (cc_heads s ! i) \<or> starts_pop n s')"
proof -
  show "cc_c s = C_Pop_Load t \<Longrightarrow> \<exists>s'. c_step i s = Some s' \<and>
      (cc_c s' = C_Idle \<and> t = msg_val (cc_heads s ! i) \<or> starts_pop 1 s')"
    using i by (simp add: c_step_def Let_def acquire_head_def starts_copying)
  assume pc: "cc_c s = C_Pop_N_Load n t" and n: "0 < n"
  let ?avail = "msg_val (cc_heads s ! i) - t"
  define m where "m = (if ?avail < n then ?avail else n)"
  have st: "c_step i s = Some (pop_n_copy m t (acquire_head i s))"
    using i pc by (simp add: c_step_def Let_def acquire_head_def m_def)
  show "\<exists>s'. c_step i s = Some s' \<and> (cc_c s' = C_Idle \<and> t = msg_val (cc_heads s ! i) \<or> starts_pop n s')"
  proof (cases "m = 0")
    case True
    then have "?avail = 0" using n by (auto simp: m_def split: if_splits)
    then show ?thesis using st True by (simp add: pop_n_copy_def)
  next
    case False
    then have "0 < m" "m \<le> n" by (auto simp: m_def word_neq_0_conv not_less)
    then show ?thesis using st starts_copying(4) by auto
  qed
qed

section \<open>The loops\<close>

definition loops_fresh :: "loops \<Rightarrow> bool" where
  "loops_fresh b \<longleftrightarrow>
     lp_vis_head b = length (cc_heads (lp_conc b)) - 1 \<and> lp_vis_tail b = length (cc_tails (lp_conc b)) - 1"

text \<open>The store that a load of the other thread's counter reads from.\<close>

abbreviation tail_load :: "nat \<Rightarrow> loops \<Rightarrow> nat" where
  "tail_load k b \<equiv> load_choice (cc_p_seen (lp_conc b)) (lp_vis_tail b) (length (cc_tails (lp_conc b))) k"
abbreviation head_load :: "nat \<Rightarrow> loops \<Rightarrow> nat" where
  "head_load k b \<equiv> load_choice (cc_c_seen (lp_conc b)) (lp_vis_head b) (length (cc_heads (lp_conc b))) k"

text \<open>
  \<open>next_push\<close> and \<open>next_pop\<close> are the calls of an iteration; \<open>most\<close> is the largest number of elements a call asks for. A
  check that can fail is for single elements, and holds of what was pushed.
\<close>

locale ring_loops =
  fixes items :: u32 and most :: nat and next_push next_pop :: "u32 \<Rightarrow> act" and check :: "u32 \<Rightarrow> block \<Rightarrow> bool"
  assumes pushes: "i < items \<Longrightarrow> push_call most (unat items - unat i) (next_push i)"
    and pops: "i < items \<Longrightarrow> pop_call most (next_pop i)"
    and checks: "most = 1 \<and> (\<forall>i < items. check i (take 4 (call_bytes (next_push i)))) \<or> (\<forall>i got. check i got)"
begin

definition p_pc_ok :: "u32 \<Rightarrow> ppc \<Rightarrow> bool" where
  "p_pc_ok i pc \<longleftrightarrow>
     (case pc of
        P_Idle \<Rightarrow> True
      | P_Push e h \<Rightarrow> i < items \<and> next_push i = Call_Push e
      | P_Push_Load e h \<Rightarrow> i < items \<and> next_push i = Call_Push e
      | P_Push_N e n h \<Rightarrow> i < items \<and> next_push i = Call_Push_N e n
      | P_Push_N_Load e n h \<Rightarrow> i < items \<and> next_push i = Call_Push_N e n
      | P_Copy todo d n h \<Rightarrow> 0 < n \<and> unat n \<le> most \<and> unat i + unat n \<le> unat items \<and>
          d = take (unat n * 4) (call_bytes (next_push i)))"

definition c_pc_ok :: "cpc \<Rightarrow> bool" where
  "c_pc_ok pc \<longleftrightarrow>
     (case pc of
        C_Pop t \<Rightarrow> 1 \<le> most
      | C_Pop_Load t \<Rightarrow> 1 \<le> most
      | C_Pop_N n t \<Rightarrow> 0 < n \<and> unat n \<le> most
      | C_Pop_N_Load n t \<Rightarrow> 0 < n \<and> unat n \<le> most
      | C_Copy todo d n t \<Rightarrow> 0 < n \<and> unat n \<le> most
      | C_Idle \<Rightarrow> True)"

definition loops_inv :: "loops \<Rightarrow> bool" where
  "loops_inv b \<longleftrightarrow>
     lp_go b \<and> lp_exit b = None \<and> conc_inv (lp_conc b) \<and> esz (lp_conc b) = 4 \<and>
     hcnt (lp_conc b) = unat (lp_sent b) \<and> tcnt (lp_conc b) = unat (lp_rcvd b) \<and> lp_sent b \<le> items \<and>
     (\<exists>ns. batch_sizes most (unat (lp_sent b)) ns \<and> cc_pushed (lp_conc b) = batches next_push 0 ns) \<and>
     p_pc_ok (lp_sent b) (cc_p (lp_conc b)) \<and> c_pc_ok (cc_c (lp_conc b)) \<and>
     lp_vis_head b < length (cc_heads (lp_conc b)) \<and> lp_vis_tail b < length (cc_tails (lp_conc b))"

text \<open>Own turns until the next success, when nothing the thread waits for is missing.\<close>

definition push_dist :: "loops \<Rightarrow> nat" where
  "push_dist b = (case cc_p (lp_conc b) of
     P_Idle \<Rightarrow> 4 * most + 3 | P_Push e h \<Rightarrow> 4 * most + 2 | P_Push_N e n h \<Rightarrow> 4 * most + 2
   | P_Push_Load e h \<Rightarrow> 4 * most + 1 | P_Push_N_Load e n h \<Rightarrow> 4 * most + 1 | P_Copy todo d n h \<Rightarrow> length todo)"

definition pop_dist :: "loops \<Rightarrow> nat" where
  "pop_dist b = (case cc_c (lp_conc b) of
     C_Idle \<Rightarrow> 4 * most + 3 | C_Pop t \<Rightarrow> 4 * most + 2 | C_Pop_N n t \<Rightarrow> 4 * most + 2
   | C_Pop_Load t \<Rightarrow> 4 * most + 1 | C_Pop_N_Load n t \<Rightarrow> 4 * most + 1 | C_Copy todo d n t \<Rightarrow> length todo)"

lemma loops_invD:
  assumes "loops_inv b"
  shows "lp_go b" "lp_exit b = None" "conc_inv (lp_conc b)" "esz (lp_conc b) = 4"
    "hcnt (lp_conc b) = unat (lp_sent b)" "tcnt (lp_conc b) = unat (lp_rcvd b)"
    "p_pc_ok (lp_sent b) (cc_p (lp_conc b))" "c_pc_ok (cc_c (lp_conc b))"
  using assms by (simp_all add: loops_inv_def)

lemma loops_bounds:
  assumes "loops_inv b"
  shows "unat (lp_rcvd b) \<le> unat (lp_sent b)" "unat (lp_sent b) \<le> unat items"
    "cc_p_seen (lp_conc b) < length (cc_tails (lp_conc b))" "cc_c_seen (lp_conc b) < length (cc_heads (lp_conc b))"
proof -
  note I = loops_invD [OF assms]
  show "unat (lp_rcvd b) \<le> unat (lp_sent b)" using conc_order [OF I(3)] I(5,6) by simp
  show "unat (lp_sent b) \<le> unat items" using assms by (simp add: loops_inv_def word_le_nat_alt)
  show "cc_p_seen (lp_conc b) < length (cc_tails (lp_conc b))" "cc_c_seen (lp_conc b) < length (cc_heads (lp_conc b))"
    using I(3) by (simp_all add: conc_inv_def inv_msgs_def)
qed

lemma loops_dists:
  assumes "loops_inv b"
  shows "push_dist b < 4 * most + 4" "pop_dist b < 4 * most + 4"
proof -
  note I = loops_invD [OF assms]
  have "length todo \<le> 4 * most" if "cc_p (lp_conc b) = P_Copy todo d n h" for todo d n h
    using copying_bytes(1) [OF I(3,4) that] I(7) that by (simp add: p_pc_ok_def)
  then show "push_dist b < 4 * most + 4" by (auto simp: push_dist_def split: ppc.splits)
  have "length todo \<le> 4 * most" if "cc_c (lp_conc b) = C_Copy todo d n t" for todo d n t
    using copying_bytes(2) [OF I(3,4) that] I(8) that by (simp add: c_pc_ok_def)
  then show "pop_dist b < 4 * most + 4" by (auto simp: pop_dist_def split: cpc.splits)
qed

lemma loads_ok:
  assumes inv: "loops_inv b"
  shows "cc_p_seen (lp_conc b) \<le> tail_load k b" "tail_load k b < length (cc_tails (lp_conc b))"
    "loops_fresh b \<Longrightarrow> tail_load k b = length (cc_tails (lp_conc b)) - 1"
    "cc_c_seen (lp_conc b) \<le> head_load k b" "head_load k b < length (cc_heads (lp_conc b))"
    "loops_fresh b \<Longrightarrow> head_load k b = length (cc_heads (lp_conc b)) - 1"
proof -
  have vis: "lp_vis_tail b < length (cc_tails (lp_conc b))" "lp_vis_head b < length (cc_heads (lp_conc b))"
    using inv by (simp_all add: loops_inv_def)
  note t = load_choice_bounds [OF loops_bounds(3) [OF inv] vis(1), of k]
    and h = load_choice_bounds [OF loops_bounds(4) [OF inv] vis(2), of k]
  show "cc_p_seen (lp_conc b) \<le> tail_load k b" "tail_load k b < length (cc_tails (lp_conc b))"
    "cc_c_seen (lp_conc b) \<le> head_load k b" "head_load k b < length (cc_heads (lp_conc b))" using t h by simp_all
  show "tail_load k b = length (cc_tails (lp_conc b)) - 1" "head_load k b = length (cc_heads (lp_conc b)) - 1" if "loops_fresh b"
    using t h that unfolding loops_fresh_def by linarith+
qed

text \<open>
  What a turn of the producer leads to: it succeeds, or it leaves the rest alone and is nearer to the next success if
  the ring is empty. What a turn of the consumer leads to is the same, if the ring is not empty.
\<close>

definition push_turn :: "loops \<Rightarrow> loops \<Rightarrow> bool" where
  "push_turn b b' \<longleftrightarrow> loops_inv b' \<and> unat (lp_rcvd b') = unat (lp_rcvd b) \<and> unat (lp_sent b) \<le> unat (lp_sent b') \<and>
    (unat (lp_sent b') = unat (lp_sent b) \<and> loops_fresh b \<longrightarrow> loops_fresh b' \<and> pop_dist b' = pop_dist b \<and>
      (unat (lp_sent b) < unat items \<and> unat (lp_rcvd b) = unat (lp_sent b) \<longrightarrow> push_dist b' < push_dist b))"

definition pop_turn :: "loops \<Rightarrow> loops \<Rightarrow> bool" where
  "pop_turn b b' \<longleftrightarrow> loops_inv b' \<and> unat (lp_sent b') = unat (lp_sent b) \<and> unat (lp_rcvd b) \<le> unat (lp_rcvd b') \<and>
    (unat (lp_rcvd b') = unat (lp_rcvd b) \<and> loops_fresh b \<longrightarrow> loops_fresh b' \<and> push_dist b' = push_dist b \<and>
      (unat (lp_rcvd b) < unat (lp_sent b) \<longrightarrow> pop_dist b' < pop_dist b))"

lemma push_turn_inside:
  assumes inv: "loops_inv b" and st: "p_step i (lp_conc b) = Some s'"
    and mid: "\<nexists>d n h. cc_p (lp_conc b) = P_Copy [] d n h" and pc: "p_pc_ok (lp_sent b) (cc_p s')"
    and dec: "loops_fresh b \<Longrightarrow> lp_rcvd b = lp_sent b \<Longrightarrow> push_dist (b\<lparr>lp_conc := s'\<rparr>) < push_dist b"
  shows "push_turn b (b\<lparr>lp_conc := s'\<rparr>)"
proof -
  note K = p_step_keeps [OF st mid]
  have "conc_inv s'" using p_step_inv [OF loops_invD(3) [OF inv] st] .
  then have "loops_inv (b\<lparr>lp_conc := s'\<rparr>)" using inv pc K by (simp add: loops_inv_def)
  then show ?thesis using K dec by (auto simp: push_turn_def loops_fresh_def pop_dist_def word_unat_eq_iff)
qed

lemma pop_turn_inside:
  assumes inv: "loops_inv b" and st: "c_step i (lp_conc b) = Some s'"
    and mid: "\<nexists>d n t. cc_c (lp_conc b) = C_Copy [] d n t" and pc: "c_pc_ok (cc_c s')"
    and dec: "loops_fresh b \<Longrightarrow> unat (lp_rcvd b) < unat (lp_sent b) \<Longrightarrow> pop_dist (b\<lparr>lp_conc := s'\<rparr>) < pop_dist b"
  shows "pop_turn b (b\<lparr>lp_conc := s'\<rparr>)"
proof -
  note K = c_step_keeps [OF st mid]
  have "conc_inv s'" using c_step_inv [OF loops_invD(3) [OF inv] st] .
  then have "loops_inv (b\<lparr>lp_conc := s'\<rparr>)" using inv pc K by (simp add: loops_inv_def)
  then show ?thesis using K dec by (auto simp: pop_turn_def loops_fresh_def push_dist_def)
qed

subsection \<open>Entering a call\<close>

lemma push_turn_call:
  assumes inv: "loops_inv b" and pc: "cc_p (lp_conc b) = P_Idle" and lt: "lp_sent b < items"
  shows "\<exists>s'. conc_step (next_push (lp_sent b)) (lp_conc b) = Some s' \<and> push_turn b (b\<lparr>lp_conc := s'\<rparr>)"
proof -
  let ?s = "lp_conc b"
  note I = loops_invD [OF inv]
  obtain s' where c: "conc_step (next_push (lp_sent b)) ?s = Some s'" and s': "s' = ?s\<lparr>cc_p := cc_p s'\<rparr>" "cc_p s' \<noteq> P_Idle"
    "p_pc_ok (lp_sent b) (cc_p s')" "push_dist (b\<lparr>lp_conc := s'\<rparr>) = 4 * most + 2"
    using pushes [OF lt] pc I(4) lt
    by (cases "next_push (lp_sent b)") (auto simp: push_call_def p_pc_ok_def push_dist_def)
  have "conc_inv s'" by (rule conc_step_inv [OF I(3) c])
  moreover have "cc_heads s' = cc_heads ?s" "cc_tails s' = cc_tails ?s" "cc_c s' = cc_c ?s" "cc_pushed s' = cc_pushed ?s"
    "cc_ring s' = cc_ring ?s" by (subst s'(1); simp)+
  ultimately have "push_turn b (b\<lparr>lp_conc := s'\<rparr>)"
    using inv s'(3,4) pc by (simp add: push_turn_def loops_inv_def loops_fresh_def pop_dist_def push_dist_def [of b])
  with c show ?thesis by blast
qed

lemma pop_turn_call:
  assumes inv: "loops_inv b" and pc: "cc_c (lp_conc b) = C_Idle" and lt: "lp_rcvd b < items"
  shows "\<exists>s'. conc_step (next_pop (lp_rcvd b)) (lp_conc b) = Some s' \<and> pop_turn b (b\<lparr>lp_conc := s'\<rparr>)"
proof -
  let ?s = "lp_conc b"
  note I = loops_invD [OF inv]
  obtain s' where c: "conc_step (next_pop (lp_rcvd b)) ?s = Some s'" and s': "s' = ?s\<lparr>cc_c := cc_c s'\<rparr>" "cc_c s' \<noteq> C_Idle"
    "c_pc_ok (cc_c s')" "pop_dist (b\<lparr>lp_conc := s'\<rparr>) = 4 * most + 2"
    using pops [OF lt] pc I(4) lt
    by (cases "next_pop (lp_rcvd b)") (auto simp: pop_call_def c_pc_ok_def pop_dist_def)
  have "conc_inv s'" by (rule conc_step_inv [OF I(3) c])
  moreover have "cc_heads s' = cc_heads ?s" "cc_tails s' = cc_tails ?s" "cc_p s' = cc_p ?s" "cc_pushed s' = cc_pushed ?s"
    "cc_ring s' = cc_ring ?s" by (subst s'(1); simp)+
  ultimately have "pop_turn b (b\<lparr>lp_conc := s'\<rparr>)"
    using inv s'(3,4) pc by (simp add: pop_turn_def loops_inv_def loops_fresh_def push_dist_def pop_dist_def [of b])
  with c show ?thesis by blast
qed

subsection \<open>Returning from a call\<close>

lemma push_turn_done:
  assumes inv: "loops_inv b" and pc: "cc_p (lp_conc b) = P_Copy [] d n h"
  shows "\<exists>s'. p_step 0 (lp_conc b) = Some s' \<and> push_turn b (b\<lparr>lp_conc := s', lp_sent := lp_sent b + ucast n\<rparr>)"
proof -
  let ?s = "lp_conc b"
  note I = loops_invD [OF inv]
  define s' where "s' = (release_head n h d ?s)\<lparr>cc_p := P_Idle\<rparr>"
  have st: "p_step 0 ?s = Some s'" by (simp add: p_step_def pc s'_def)
  have n: "0 < n" "unat n \<le> most" "unat (lp_sent b) + unat n \<le> unat items" "d = take (unat n * 4) (call_bytes (next_push (lp_sent b)))"
    using I(7) pc by (simp_all add: p_pc_ok_def)
  have "unat items < 2 ^ LENGTH(32)" by (rule unsigned_less)
  then have lt: "unat (lp_sent b) + unat n < 2 ^ 32" using n(3) by simp
  then have "unat (ucast n :: u32) = unat n" by (intro unat_narrow) simp
  then have up: "unat (lp_sent b + ucast n) = unat (lp_sent b) + unat n" using lt by (simp add: unat_word_ariths)
  obtain ns where ns: "batch_sizes most (unat (lp_sent b)) ns" "cc_pushed ?s = batches next_push 0 ns"
    using inv by (auto simp: loops_inv_def)
  have "0 < unat n" using n(1) by (simp add: unat_gt_0 word_neq_0_conv)
  then have "batch_sizes most (unat (lp_sent b) + unat n) (ns @ [unat n])" "cc_pushed s' = batches next_push 0 (ns @ [unat n])"
    using ns n(2,4) by (simp_all add: batch_sizes_def s'_def release_head_def batches_append)
  moreover have "conc_inv s'" using p_step_inv [OF I(3) st] .
  moreover have "lp_sent b + ucast n \<le> items" using n(3) up by (simp add: word_le_nat_alt)
  ultimately have "loops_inv (b\<lparr>lp_conc := s', lp_sent := lp_sent b + ucast n\<rparr>)"
    using inv by (auto simp: loops_inv_def up s'_def release_head_def p_pc_ok_def)
  with st up \<open>0 < unat n\<close> show ?thesis by (simp add: push_turn_def)
qed

text \<open>What a checked pop returns is the element that was pushed at its place.\<close>

lemma popped_checked:
  assumes inv: "loops_inv b" and pc: "cc_c (lp_conc b) = C_Copy [] d n t"
  shows "check (lp_rcvd b) d"
proof (cases "\<forall>i got. check i got")
  case False
  with checks have one: "most = 1" and ok: "\<And>i. i < items \<Longrightarrow> check i (take 4 (call_bytes (next_push i)))" by auto
  let ?s = "lp_conc b" and ?k = "unat (lp_rcvd b)" and ?x = "\<lambda>j. take 4 (call_bytes (next_push (of_nat j)))"
  note I = loops_invD [OF inv]
  have "0 < n" "unat n \<le> most" using I(8) pc by (simp_all add: c_pc_ok_def)
  then have n: "unat n = 1" using unat_gt_0 [of n] one by (simp add: word_neq_0_conv)
  have c: "tcnt ?s + 1 \<le> cch ?s" "length d = 4" "d = take (length d) (drop (tcnt ?s * 4) (cc_pushed ?s))"
    using I(3,4) pc n by (auto simp: conc_inv_def inv_c_def)
  have k: "?k < unat (lp_sent b)" using c(1) conc_order [OF I(3)] I(5,6) by simp
  obtain ns where ns: "batch_sizes 1 (unat (lp_sent b)) ns" "cc_pushed ?s = batches next_push 0 ns"
    using inv unfolding loops_inv_def one [symmetric] by blast
  then have pushed: "cc_pushed ?s = concat (map ?x [0..<unat (lp_sent b)])"
    using batch_sizes_one [OF ns(1)] batches_one [of next_push 0] by simp
  have lt: "of_nat j < items" if "j < unat (lp_sent b)" for j
    using that loops_bounds(2) [OF inv] by (simp add: word_less_nat_alt unat_of_nat le_less_trans [OF mod_less_eq_dividend])
  have "length (?x j) = 4" if "j < unat (lp_sent b)" for j
    using pushes [OF lt [OF that]] by (auto simp: push_call_def word_less_nat_alt min_def split: act.splits)
  then have "take 4 (drop (?k * 4) (cc_pushed ?s)) = ?x ?k"
    using chunk_concat [of "map ?x [0..<unat (lp_sent b)]" 4 ?k] k by (simp add: chunk_def pushed)
  then show ?thesis using c(2,3) I(6) ok [OF lt [OF k]] by simp
qed simp

lemma pop_turn_done:
  assumes inv: "loops_inv b" and pc: "cc_c (lp_conc b) = C_Copy [] d n t"
  shows "\<exists>s'. c_step 0 (lp_conc b) = Some s' \<and> pop_turn b (b\<lparr>lp_conc := s', lp_rcvd := lp_rcvd b + ucast n\<rparr>)"
proof -
  let ?s = "lp_conc b"
  note I = loops_invD [OF inv]
  define s' where "s' = (release_tail n t d ?s)\<lparr>cc_c := C_Idle\<rparr>"
  have st: "c_step 0 ?s = Some s'" by (simp add: c_step_def pc s'_def)
  have "0 < n" using I(8) pc by (simp add: c_pc_ok_def)
  then have n: "0 < unat n" by (simp add: unat_gt_0 word_neq_0_conv)
  have "tcnt ?s + unat n \<le> cch ?s" using I(3) pc by (auto simp: conc_inv_def inv_c_def)
  then have le: "unat (lp_rcvd b) + unat n \<le> unat (lp_sent b)" using conc_order [OF I(3)] I(5,6) by simp
  have "unat (lp_sent b) < 2 ^ LENGTH(32)" by (rule unsigned_less)
  then have lt: "unat (lp_rcvd b) + unat n < 2 ^ 32" using le by simp
  then have "unat (ucast n :: u32) = unat n" by (intro unat_narrow) simp
  then have up: "unat (lp_rcvd b + ucast n) = unat (lp_rcvd b) + unat n" using lt by (simp add: unat_word_ariths)
  have "conc_inv s'" using c_step_inv [OF I(3) st] .
  then have "loops_inv (b\<lparr>lp_conc := s', lp_rcvd := lp_rcvd b + ucast n\<rparr>)"
    using inv by (simp add: loops_inv_def up s'_def release_tail_def c_pc_ok_def)
  with st up n show ?thesis by (simp add: pop_turn_def)
qed

subsection \<open>Inside a call\<close>

lemma starts_push_ok:
  assumes "conc_inv s'" "esz s' = 4" "starts_push (call_bytes (next_push i)) n s'" "unat n \<le> most" "unat i + unat n \<le> unat items"
  shows "p_pc_ok i (cc_p s')" "push_dist (b\<lparr>lp_conc := s'\<rparr>) \<le> 4 * most"
proof -
  let ?e = "call_bytes (next_push i)"
  obtain todo x m h where s': "cc_p s' = P_Copy todo (take x ?e) m h" "0 < m" "m \<le> n" using assms(3) by (auto simp: starts_push_def)
  note c = copying_bytes(1) [OF assms(1,2) s'(1)]
  have m: "unat m \<le> unat n" using s'(3) by (simp add: word_le_nat_alt)
  have "take x ?e = take (length (take x ?e)) ?e" by (simp add: min_def)
  then have "take x ?e = take (unat m * 4) ?e" using c by simp
  then show "p_pc_ok i (cc_p s')" using s' m assms(4,5) by (simp add: p_pc_ok_def)
  show "push_dist (b\<lparr>lp_conc := s'\<rparr>) \<le> 4 * most" using c m assms(4) s'(1) by (simp add: push_dist_def)
qed

lemma starts_pop_ok:
  assumes "conc_inv s'" "esz s' = 4" "starts_pop n s'" "unat n \<le> most"
  shows "c_pc_ok (cc_c s')" "pop_dist (b\<lparr>lp_conc := s'\<rparr>) \<le> 4 * most"
proof -
  obtain todo m t where s': "cc_c s' = C_Copy todo [] m t" "0 < m" "m \<le> n" using assms(3) by (auto simp: starts_pop_def)
  note c = copying_bytes(2) [OF assms(1,2) s'(1)]
  have m: "unat m \<le> unat n" using s'(3) by (simp add: word_le_nat_alt)
  show "c_pc_ok (cc_c s')" "pop_dist (b\<lparr>lp_conc := s'\<rparr>) \<le> 4 * most"
    using c m s' assms(4) by (simp_all add: c_pc_ok_def pop_dist_def)
qed

text \<open>A load that sees the newest store finds room in an empty ring, and an element in one that is not empty.\<close>

lemma fresh_load_finds_room:
  assumes inv: "loops_inv b" and fresh: "loops_fresh b" "lp_rcvd b = lp_sent b"
  shows "\<not> sr_capacity (cc_ring (lp_conc b)) \<le> sr_head (cc_ring (lp_conc b)) - msg_val (cc_tails (lp_conc b) ! tail_load k b)"
proof -
  let ?s = "lp_conc b"
  note I = loops_invD [OF inv]
  have "msg_val (cc_tails ?s ! tail_load k b) = sr_tail (cc_ring ?s)" using newest_message(1) [OF I(3)] loads_ok(3) [OF inv fresh(1)] by simp
  moreover have "sr_tail (cc_ring ?s) = sr_head (cc_ring ?s)"
    using I(3,5,6) fresh(2) by (simp add: conc_inv_def inv_msgs_def)
  ultimately show ?thesis using I(3) by (auto simp: conc_inv_def inv_static_def is_pow2_def)
qed

lemma fresh_load_finds_element:
  assumes inv: "loops_inv b" and fresh: "loops_fresh b" "unat (lp_rcvd b) < unat (lp_sent b)"
  shows "sr_tail (cc_ring (lp_conc b)) \<noteq> msg_val (cc_heads (lp_conc b) ! head_load k b)"
proof
  let ?s = "lp_conc b"
  note I = loops_invD [OF inv]
  assume "sr_tail (cc_ring ?s) = msg_val (cc_heads ?s ! head_load k b)"
  then have "sr_tail (cc_ring ?s) = sr_head (cc_ring ?s)" using newest_message(2) [OF I(3)] loads_ok(6) [OF inv fresh(1)] by simp
  moreover have "sr_tail (cc_ring ?s) = of_nat (unat (lp_rcvd b))" "sr_head (cc_ring ?s) = of_nat (unat (lp_sent b))"
    using I(3,5,6) by (simp_all add: conc_inv_def inv_msgs_def)
  ultimately have "unat (of_nat (unat (lp_sent b)) - of_nat (unat (lp_rcvd b)) :: u64) = 0"
    by (simp del: of_nat_unat)
  moreover have "unat (lp_sent b) < 2 ^ LENGTH(32)" by (rule unsigned_less)
  ultimately show False
    using wrapped_distance [where 'w = 64, of "unat (lp_rcvd b)" "unat (lp_sent b)"] fresh(2)
    by (simp del: of_nat_unat word_of_nat_eq_0_iff) linarith
qed

text \<open>A step before the copy starts the copy, or goes on to the load, or ends the call, which an empty ring excludes.\<close>

lemma push_turn_or_copy:
  assumes inv: "loops_inv b" and st: "p_step i (lp_conc b) = Some s'" and mid: "\<nexists>d n h. cc_p (lp_conc b) = P_Copy [] d n h"
    and far: "4 * most < push_dist b" and n: "unat n \<le> most" "unat (lp_sent b) + unat n \<le> unat items"
    and alt: "p_pc_ok (lp_sent b) (cc_p s') \<and>
        (loops_fresh b \<longrightarrow> lp_rcvd b = lp_sent b \<longrightarrow> push_dist (b\<lparr>lp_conc := s'\<rparr>) < push_dist b) \<or>
      starts_push (call_bytes (next_push (lp_sent b))) n s'"
  shows "push_turn b (b\<lparr>lp_conc := s'\<rparr>)"
  using alt
proof
  assume "starts_push (call_bytes (next_push (lp_sent b))) n s'"
  moreover have "conc_inv s'" "esz s' = 4"
    using p_step_inv [OF loops_invD(3) [OF inv] st] p_step_keeps(4) [OF st mid] loops_invD(4) [OF inv] by auto
  ultimately have "p_pc_ok (lp_sent b) (cc_p s')" "push_dist (b\<lparr>lp_conc := s'\<rparr>) \<le> 4 * most" using starts_push_ok n by blast+
  then show ?thesis using far by (intro push_turn_inside [OF inv st mid]) simp_all
qed (rule push_turn_inside [OF inv st mid], blast+)

lemma pop_turn_or_copy:
  assumes inv: "loops_inv b" and st: "c_step i (lp_conc b) = Some s'" and mid: "\<nexists>d n t. cc_c (lp_conc b) = C_Copy [] d n t"
    and far: "4 * most < pop_dist b" and n: "unat n \<le> most"
    and alt: "c_pc_ok (cc_c s') \<and>
        (loops_fresh b \<longrightarrow> unat (lp_rcvd b) < unat (lp_sent b) \<longrightarrow> pop_dist (b\<lparr>lp_conc := s'\<rparr>) < pop_dist b) \<or> starts_pop n s'"
  shows "pop_turn b (b\<lparr>lp_conc := s'\<rparr>)"
  using alt
proof
  assume "starts_pop n s'"
  moreover have "conc_inv s'" "esz s' = 4"
    using c_step_inv [OF loops_invD(3) [OF inv] st] c_step_keeps(4) [OF st mid] loops_invD(4) [OF inv] by auto
  ultimately have "c_pc_ok (cc_c s')" "pop_dist (b\<lparr>lp_conc := s'\<rparr>) \<le> 4 * most" using starts_pop_ok n by blast+
  then show ?thesis using far by (intro pop_turn_inside [OF inv st mid]) simp_all
qed (rule pop_turn_inside [OF inv st mid], blast+)

lemma next_push_counts:
  assumes "lp_sent b < items"
  shows "next_push (lp_sent b) = Call_Push e \<Longrightarrow> unat (1 :: size_t) \<le> most \<and> unat (lp_sent b) + unat (1 :: size_t) \<le> unat items"
    "next_push (lp_sent b) = Call_Push_N e n \<Longrightarrow> 0 < n \<and> unat n \<le> most \<and> unat (lp_sent b) + unat n \<le> unat items"
  using pushes [OF assms] assms by (auto simp: push_call_def word_less_nat_alt)

lemma producer_inside:
  assumes inv: "loops_inv b" and busy: "cc_p (lp_conc b) \<noteq> P_Idle" "\<nexists>d n h. cc_p (lp_conc b) = P_Copy [] d n h"
  shows "\<exists>s'. p_step (tail_load k b) (lp_conc b) = Some s' \<and> push_turn b (b\<lparr>lp_conc := s'\<rparr>)"
proof -
  let ?s = "lp_conc b" and ?i = "tail_load k b"
  note I = loops_invD [OF inv] and L = loads_ok(1,2) [OF inv, of k] and room = fresh_load_finds_room [OF inv, of k]
  note turn = push_turn_or_copy [OF inv _ busy(2)]
  note defs = p_pc_ok_def push_dist_def
  show ?thesis
  proof (cases "cc_p ?s")
    case (P_Push e h)
    with I(7) have p: "lp_sent b < items" "next_push (lp_sent b) = Call_Push e" by (simp_all add: p_pc_ok_def)
    obtain s' where st: "p_step ?i ?s = Some s'" and s': "cc_p s' = P_Push_Load e h \<or> starts_push e 1 s'"
      using push_tests(1) [OF P_Push] by blast
    have "push_turn b (b\<lparr>lp_conc := s'\<rparr>)"
      by (rule turn [OF st, of 1]) (use s' next_push_counts(1) [OF p] p P_Push in \<open>auto simp: defs\<close>)
    with st show ?thesis by blast
  next
    case (P_Push_N e n h)
    with I(7) have p: "lp_sent b < items" "next_push (lp_sent b) = Call_Push_N e n" by (simp_all add: p_pc_ok_def)
    obtain s' where st: "p_step ?i ?s = Some s'" and s': "cc_p s' = P_Push_N_Load e n h \<or> starts_push e n s'"
      using push_tests(2) [OF P_Push_N] next_push_counts(2) [OF p] by blast
    have "push_turn b (b\<lparr>lp_conc := s'\<rparr>)"
      by (rule turn [OF st, of n]) (use s' next_push_counts(2) [OF p] p P_Push_N in \<open>auto simp: defs\<close>)
    with st show ?thesis by blast
  next
    case (P_Push_Load e h)
    with I(7) have p: "lp_sent b < items" "next_push (lp_sent b) = Call_Push e" by (simp_all add: p_pc_ok_def)
    have h: "h = sr_head (cc_ring ?s)" using I(3) P_Push_Load by (simp add: conc_inv_def inv_p_def)
    obtain s' where st: "p_step ?i ?s = Some s'"
      and s': "cc_p s' = P_Idle \<and> sr_capacity (cc_ring ?s) \<le> h - msg_val (cc_tails ?s ! ?i) \<or> starts_push e 1 s'"
      using push_loads(1) [OF L P_Push_Load] by blast
    have "push_turn b (b\<lparr>lp_conc := s'\<rparr>)"
      by (rule turn [OF st, of 1]) (use s' next_push_counts(1) [OF p] p P_Push_Load h room in \<open>auto simp: defs\<close>)
    with st show ?thesis by blast
  next
    case (P_Push_N_Load e n h)
    with I(7) have p: "lp_sent b < items" "next_push (lp_sent b) = Call_Push_N e n" by (simp_all add: p_pc_ok_def)
    have h: "h = sr_head (cc_ring ?s)" using I(3) P_Push_N_Load by (simp add: conc_inv_def inv_p_def)
    obtain s' where st: "p_step ?i ?s = Some s'"
      and s': "cc_p s' = P_Idle \<and> sr_capacity (cc_ring ?s) = h - msg_val (cc_tails ?s ! ?i) \<or> starts_push e n s'"
      using push_loads(2) [OF L P_Push_N_Load] next_push_counts(2) [OF p] by blast
    have "push_turn b (b\<lparr>lp_conc := s'\<rparr>)"
      by (rule turn [OF st, of n]) (use s' next_push_counts(2) [OF p] p P_Push_N_Load h room in \<open>auto simp: defs\<close>)
    with st show ?thesis by blast
  next
    case (P_Copy todo d n h)
    then obtain ab todo' where todo: "todo = ab # todo'" using busy(2) by (cases todo) auto
    obtain s' where st: "p_step ?i ?s = Some s'" and s': "cc_p s' = P_Copy todo' d n h"
      using P_Copy todo by (cases ab) (simp add: p_step_def)
    have "push_turn b (b\<lparr>lp_conc := s'\<rparr>)"
      by (rule push_turn_inside [OF inv st busy(2)]) (use s' I(7) P_Copy todo in \<open>auto simp: defs\<close>)
    with st show ?thesis by blast
  qed (use busy in simp)
qed

lemma consumer_inside:
  assumes inv: "loops_inv b" and busy: "cc_c (lp_conc b) \<noteq> C_Idle" "\<nexists>d n t. cc_c (lp_conc b) = C_Copy [] d n t"
  shows "\<exists>s'. c_step (head_load k b) (lp_conc b) = Some s' \<and> pop_turn b (b\<lparr>lp_conc := s'\<rparr>)"
proof -
  let ?s = "lp_conc b" and ?i = "head_load k b"
  note I = loops_invD [OF inv] and L = loads_ok(4,5) [OF inv, of k] and element = fresh_load_finds_element [OF inv, of k]
  note turn = pop_turn_or_copy [OF inv _ busy(2)]
  note defs = c_pc_ok_def pop_dist_def
  show ?thesis
  proof (cases "cc_c ?s")
    case (C_Pop t)
    obtain s' where st: "c_step ?i ?s = Some s'" and s': "cc_c s' = C_Pop_Load t \<or> starts_pop 1 s'"
      using pop_tests(1) [OF C_Pop] by blast
    have "pop_turn b (b\<lparr>lp_conc := s'\<rparr>)" by (rule turn [OF st, of 1]) (use s' I(8) C_Pop in \<open>auto simp: defs\<close>)
    with st show ?thesis by blast
  next
    case (C_Pop_N n t)
    obtain s' where st: "c_step ?i ?s = Some s'" and s': "cc_c s' = C_Pop_N_Load n t \<or> starts_pop n s'"
      using pop_tests(2) [OF C_Pop_N] I(8) C_Pop_N by (auto simp: c_pc_ok_def)
    have "pop_turn b (b\<lparr>lp_conc := s'\<rparr>)" by (rule turn [OF st, of n]) (use s' I(8) C_Pop_N in \<open>auto simp: defs\<close>)
    with st show ?thesis by blast
  next
    case (C_Pop_Load t)
    have t: "t = sr_tail (cc_ring ?s)" using I(3) C_Pop_Load by (simp add: conc_inv_def inv_c_def)
    obtain s' where st: "c_step ?i ?s = Some s'" and s': "cc_c s' = C_Idle \<and> t = msg_val (cc_heads ?s ! ?i) \<or> starts_pop 1 s'"
      using pop_loads(1) [OF L C_Pop_Load] by blast
    have "pop_turn b (b\<lparr>lp_conc := s'\<rparr>)" by (rule turn [OF st, of 1]) (use s' I(8) C_Pop_Load t element in \<open>auto simp: defs\<close>)
    with st show ?thesis by blast
  next
    case (C_Pop_N_Load n t)
    have t: "t = sr_tail (cc_ring ?s)" using I(3) C_Pop_N_Load by (simp add: conc_inv_def inv_c_def)
    obtain s' where st: "c_step ?i ?s = Some s'" and s': "cc_c s' = C_Idle \<and> t = msg_val (cc_heads ?s ! ?i) \<or> starts_pop n s'"
      using pop_loads(2) [OF L C_Pop_N_Load] I(8) C_Pop_N_Load by (auto simp: c_pc_ok_def)
    have "pop_turn b (b\<lparr>lp_conc := s'\<rparr>)" by (rule turn [OF st, of n]) (use s' I(8) C_Pop_N_Load t element in \<open>auto simp: defs\<close>)
    with st show ?thesis by blast
  next
    case (C_Copy todo d n t)
    then obtain a todo' where todo: "todo = a # todo'" using busy(2) by (cases todo) auto
    obtain s' d' where st: "c_step ?i ?s = Some s'" and s': "cc_c s' = C_Copy todo' d' n t"
      using C_Copy todo by (simp add: c_step_def)
    have "pop_turn b (b\<lparr>lp_conc := s'\<rparr>)"
      by (rule pop_turn_inside [OF inv st busy(2)]) (use s' I(8) C_Copy todo in \<open>auto simp: defs\<close>)
    with st show ?thesis by blast
  qed (use busy in simp)
qed

subsection \<open>Turns\<close>

lemma producer_turn:
  assumes inv: "loops_inv b"
  shows "\<exists>b'. producer_loop items next_push k b = Some b' \<and> push_turn b b'"
proof -
  note I = loops_invD [OF inv]
  consider (call) "cc_p (lp_conc b) = P_Idle" "lp_sent b < items" | (ended) "cc_p (lp_conc b) = P_Idle" "\<not> lp_sent b < items"
    | (return) d n h where "cc_p (lp_conc b) = P_Copy [] d n h"
    | (inside) "cc_p (lp_conc b) \<noteq> P_Idle" "\<nexists>d n h. cc_p (lp_conc b) = P_Copy [] d n h" by blast
  then show ?thesis
  proof cases
    case call
    then show ?thesis using push_turn_call [OF inv] I by (fastforce simp: producer_loop_def Let_def)
  next
    case ended
    then show ?thesis using inv I by (simp add: producer_loop_def Let_def push_turn_def word_less_nat_alt)
  next
    case return
    then show ?thesis using push_turn_done [OF inv] I by (fastforce simp: producer_loop_def Let_def)
  next
    case inside
    then obtain s' where "p_step (tail_load k b) (lp_conc b) = Some s'" "push_turn b (b\<lparr>lp_conc := s'\<rparr>)"
      using producer_inside [OF inv] by blast
    moreover have "producer_loop items next_push k b = do { s' \<leftarrow> p_step (tail_load k b) (lp_conc b); Some (b\<lparr>lp_conc := s'\<rparr>) }"
      using I inside by (auto simp: producer_loop_def Let_def split: ppc.splits list.splits)
    ultimately show ?thesis by simp
  qed
qed

lemma consumer_turn:
  assumes inv: "loops_inv b"
  shows "\<exists>b'. consumer_loop items next_pop check k b = Some b' \<and> pop_turn b b'"
proof -
  note I = loops_invD [OF inv]
  consider (call) "cc_c (lp_conc b) = C_Idle" "lp_rcvd b < items" | (ended) "cc_c (lp_conc b) = C_Idle" "\<not> lp_rcvd b < items"
    | (return) d n t where "cc_c (lp_conc b) = C_Copy [] d n t"
    | (inside) "cc_c (lp_conc b) \<noteq> C_Idle" "\<nexists>d n t. cc_c (lp_conc b) = C_Copy [] d n t" by blast
  then show ?thesis
  proof cases
    case call
    then show ?thesis using pop_turn_call [OF inv] I by (fastforce simp: consumer_loop_def Let_def)
  next
    case ended
    then show ?thesis using inv I loops_bounds(1,2) [OF inv] by (simp add: consumer_loop_def Let_def pop_turn_def word_less_nat_alt)
  next
    case return
    then show ?thesis using pop_turn_done [OF inv] popped_checked [OF inv] I by (fastforce simp: consumer_loop_def Let_def)
  next
    case inside
    then obtain s' where "c_step (head_load k b) (lp_conc b) = Some s'" "pop_turn b (b\<lparr>lp_conc := s'\<rparr>)"
      using consumer_inside [OF inv] by blast
    moreover have "consumer_loop items next_pop check k b = do { s' \<leftarrow> c_step (head_load k b) (lp_conc b); Some (b\<lparr>lp_conc := s'\<rparr>) }"
      using I inside by (auto simp: consumer_loop_def Let_def split: cpc.splits list.splits)
    ultimately show ?thesis by simp
  qed
qed

lemma visible_inv:
  assumes "loops_inv b"
  shows "loops_inv (become_visible b) \<and> loops_fresh (become_visible b) \<and>
    lp_sent (become_visible b) = lp_sent b \<and> lp_rcvd (become_visible b) = lp_rcvd b"
  using assms loops_bounds(3,4) [OF assms] by (auto simp: loops_inv_def loops_fresh_def become_visible_def)

end

sublocale ring_loops \<subseteq> threads: helpful_threads UNIV loops_inv loops_fresh become_visible
  "loops_move (producer_loop items next_push) (consumer_loop items next_pop check)" "\<lambda>_. True"
  "\<lambda>b. unat (lp_sent b) + unat (lp_rcvd b)" "\<lambda>b. if lp_rcvd b < lp_sent b then C else P"
  "\<lambda>b t. case t of P \<Rightarrow> push_dist b | C \<Rightarrow> pop_dist b" "2 * unat items" "4 * most + 4"
proof unfold_locales
  fix b t k assume b: "loops_inv b"
  show "\<exists>b'. loops_move (producer_loop items next_push) (consumer_loop items next_pop check) t k b = Some b' \<and> loops_inv b' \<and>
      unat (lp_sent b) + unat (lp_rcvd b) \<le> unat (lp_sent b') + unat (lp_rcvd b') \<and>
      (unat (lp_sent b') + unat (lp_rcvd b') = unat (lp_sent b) + unat (lp_rcvd b) \<and>
        unat (lp_sent b) + unat (lp_rcvd b) < 2 * unat items \<and> loops_fresh b \<and> True \<longrightarrow>
        loops_fresh b' \<and> (if lp_rcvd b' < lp_sent b' then C else P) = (if lp_rcvd b < lp_sent b then C else P) \<and>
        (case if lp_rcvd b < lp_sent b then C else P of P \<Rightarrow> push_dist b' | C \<Rightarrow> pop_dist b')
          \<le> (case if lp_rcvd b < lp_sent b then C else P of P \<Rightarrow> push_dist b | C \<Rightarrow> pop_dist b) \<and>
        (t = (if lp_rcvd b < lp_sent b then C else P) \<longrightarrow>
          (case t of P \<Rightarrow> push_dist b' | C \<Rightarrow> pop_dist b') < (case t of P \<Rightarrow> push_dist b | C \<Rightarrow> pop_dist b)))"
    using producer_turn [OF b, of k] consumer_turn [OF b, of k] loops_bounds(1,2) [OF b] unfolding push_turn_def pop_turn_def
    by (cases t) (fastforce simp: loops_move_def word_less_nat_alt)+
qed (use loops_bounds loops_dists visible_inv in \<open>force simp: word_less_nat_alt\<close>)+

context ring_loops
begin

text \<open>A ring that was just created, with the flag set.\<close>

lemma start_inv:
  assumes "spsc_ring_create aa malloc 1024 4 = (Some r, evs)" "malloc_sized malloc"
  shows "loops_inv ((loops_start r)\<lparr>lp_go := True\<rparr>)"
proof -
  have "spsc_inv r" "sr_element_size r = 4" using spsc_create_inv [OF assms] by simp_all
  moreover have "sr_head r = 0" "sr_tail r = 0" "sr_cached_tail r = 0" "sr_cached_head r = 0"
    by (rule spsc_create_Some [OF assms(1)]; simp)+
  ultimately have "fresh_ring r" "unat (sr_element_size r) = 4" by (simp_all add: fresh_ring_def)
  moreover have "batch_sizes most 0 []" by (simp add: batch_sizes_def)
  ultimately show ?thesis
    using conc_init_inv [of r]
    by (auto simp: loops_inv_def loops_start_def p_pc_ok_def c_pc_ok_def) (auto simp: conc_init_def init_msg_def)
qed

text \<open>Threads that have left their loops: everything has arrived, in order, and the ring is empty.\<close>

lemma joined_done:
  assumes inv: "loops_inv b" and joined: "loops_joined items b"
  shows "lp_sent b = items" "lp_rcvd b = items" "spsc_ring_empty (cc_ring (lp_conc b))" "cc_popped (lp_conc b) = cc_pushed (lp_conc b)"
    "\<not> cc_race (lp_conc b)" "\<not> cc_oob (lp_conc b)"
    "\<exists>ns. batch_sizes most (unat items) ns \<and> cc_popped (lp_conc b) = batches next_push 0 ns"
proof -
  note I = loops_invD [OF inv]
  have "unat (lp_sent b) = unat items" "unat (lp_rcvd b) = unat items"
    using joined loops_bounds(1,2) [OF inv] by (simp_all add: loops_joined_def word_less_nat_alt)
  then show s: "lp_sent b = items" and r: "lp_rcvd b = items" by (simp_all add: word_unat_eq_iff)
  show "spsc_ring_empty (cc_ring (lp_conc b))"
    using I(3,5,6) s r by (simp add: conc_inv_def inv_msgs_def spsc_ring_empty_def spsc_ring_size_def)
  show p: "cc_popped (lp_conc b) = cc_pushed (lp_conc b)" using I(3,4,5,6) s r by (simp add: conc_inv_def inv_data_def)
  show "\<not> cc_race (lp_conc b)" "\<not> cc_oob (lp_conc b)" using I(3) by (simp_all add: conc_inv_def)
  show "\<exists>ns. batch_sizes most (unat items) ns \<and> cc_popped (lp_conc b) = batches next_push 0 ns"
    using inv s p by (auto simp: loops_inv_def)
qed

lemma rounds_inv:
  assumes "loops_inv b"
  shows "\<exists>b'. run_rounds become_visible (loops_move (producer_loop items next_push) (consumer_loop items next_pop check)) rs b = Some b' \<and>
    loops_inv b'"
  using threads.rounds_defined [OF assms] by blast

text \<open>Enough rounds in which both threads get enough turns.\<close>

lemma rounds_join:
  assumes "loops_inv b" "2 * unat items \<le> good_rounds UNIV (4 * most + 4) (\<lambda>_. True) rs"
  shows "\<exists>b'. run_rounds become_visible (loops_move (producer_loop items next_push) (consumer_loop items next_pop check)) rs b = Some b' \<and>
    loops_inv b' \<and> loops_joined items b'"
proof -
  obtain b' where b': "run_rounds become_visible (loops_move (producer_loop items next_push) (consumer_loop items next_pop check)) rs b = Some b'"
    "loops_inv b'" "unat (lp_sent b') + unat (lp_rcvd b') = 2 * unat items"
    using threads.rounds_reach_goal [OF assms(1), of rs] assms(2) by auto
  moreover have "loops_joined items b'"
    using b'(3) loops_bounds(1,2) [OF b'(2)] by (simp add: loops_joined_def word_less_nat_alt)
  ultimately show ?thesis by blast
qed

lemma not_ready_spins:
  "\<not> lp_go b \<Longrightarrow> run_moves (loops_move (producer_loop items next_push) (consumer_loop items next_pop check)) ts b = Some b"
  by (rule run_moves_idle) (simp add: loops_move_def producer_loop_def consumer_loop_def split: turn.split)

end

end
