(* ===== verification/Bench_Spsc.thy ===== *)
theory Bench_Spsc
  imports Test_Program Spsc_Loops
begin

text \<open>
  \<^verbatim>\<open>bench_spsc.c\<close>: a producer and a consumer thread that move \<^verbatim>\<open>N_ITEMS\<close> elements through a ring, one at
  a time or in batches. The threads are loops as in \<open>Spsc_Loops\<close>: a turn is one atomic access of a call or the
  copy of one byte, loads may be stale, and the turns of the two threads come in any order. Printing and the
  clock are left out.

  The locale \<open>ring_loops\<close> is interpreted for the single-element loops and for the batch loops of \<^verbatim>\<open>main\<close>; for
  another batch size \<open>batch_loops\<close> discharges its laws.
\<close>

section \<open>Definitions\<close>

definition N_ITEMS :: u32 where "N_ITEMS = push_bit 24 1"
definition CAP :: u32 where "CAP = 1024"
definition BUFSZ :: u32 where "BUFSZ = 256"

text \<open>The threads, from the load of \<^verbatim>\<open>g_go\<close> to the end of the loop. What the consumers pop is not checked.\<close>

definition producer_single :: "nat \<Rightarrow> loops \<Rightarrow> loops option" where
  "producer_single = producer_loop N_ITEMS (\<lambda>i. Call_Push (le_bytes 4 i))"

definition consumer_single :: "nat \<Rightarrow> loops \<Rightarrow> loops option" where
  "consumer_single = consumer_loop N_ITEMS (\<lambda>_. Call_Pop) (\<lambda>_ _. True)"

definition producer_buf :: block where
  "producer_buf = concat (map (\<lambda>i. le_bytes 4 (of_nat i :: u32)) [0..<unat BUFSZ])"

text \<open>The number of elements an iteration asks for.\<close>

definition batch_want :: "u32 \<Rightarrow> u32 \<Rightarrow> u32" where
  "batch_want g_batch i = (let want = N_ITEMS - i in if want > g_batch then g_batch else want)"

definition producer_batch :: "u32 \<Rightarrow> nat \<Rightarrow> loops \<Rightarrow> loops option" where
  "producer_batch g_batch = producer_loop N_ITEMS (\<lambda>pushed. Call_Push_N producer_buf (ucast (batch_want g_batch pushed)))"

definition consumer_batch :: "u32 \<Rightarrow> nat \<Rightarrow> loops \<Rightarrow> loops option" where
  "consumer_batch g_batch = consumer_loop N_ITEMS (\<lambda>popped. Call_Pop_N (ucast (batch_want g_batch popped))) (\<lambda>_ _. True)"

text \<open>
  One benchmark: the turns \<open>before\<close> the go flag is set and the rounds after it, then the two joins and the release
  of the ring. When the ring could not be created the threads go through a null pointer.
\<close>

definition bench_run ::
  "(nat \<Rightarrow> bool) \<Rightarrow> (nat \<Rightarrow> block option) \<Rightarrow> (nat \<Rightarrow> loops \<Rightarrow> loops option) \<Rightarrow> (nat \<Rightarrow> loops \<Rightarrow> loops option) \<Rightarrow>
     (turn \<times> nat) list \<Rightarrow> (turn \<times> nat) list list \<Rightarrow> (loops \<times> heap_event list) test" where
  "bench_run aligned_alloc malloc p c before rounds =
     (case spsc_ring_create aligned_alloc malloc (ucast CAP) 4 of
        (None, evs) \<Rightarrow> Crashed
      | (Some r, evs) \<Rightarrow>
          call (run_moves (loops_move p c) before (loops_start r)) (\<lambda>b.
          call (run_rounds become_visible (loops_move p c) rounds (b\<lparr>lp_go := True\<rparr>)) (\<lambda>b.
          if \<not> loops_joined N_ITEMS b then Unfinished
          else Ok (b, evs @ spsc_ring_destroy (cc_ring (lp_conc b))))))"

definition bench_single ::
  "(nat \<Rightarrow> bool) \<Rightarrow> (nat \<Rightarrow> block option) \<Rightarrow> (turn \<times> nat) list \<Rightarrow> (turn \<times> nat) list list \<Rightarrow> (loops \<times> heap_event list) test" where
  "bench_single aligned_alloc malloc before rounds =
     bench_run aligned_alloc malloc producer_single consumer_single before rounds"

definition bench_batch ::
  "(nat \<Rightarrow> bool) \<Rightarrow> (nat \<Rightarrow> block option) \<Rightarrow> u32 \<Rightarrow> (turn \<times> nat) list \<Rightarrow> (turn \<times> nat) list list \<Rightarrow>
     (loops \<times> heap_event list) test" where
  "bench_batch aligned_alloc malloc n before rounds =
     bench_run aligned_alloc malloc (producer_batch n) (consumer_batch n) before rounds"

text \<open>\<^verbatim>\<open>main\<close>: the three benchmarks one after the other, each under its own schedule.\<close>

definition bench_main ::
  "(nat \<Rightarrow> bool) \<Rightarrow> (nat \<Rightarrow> block option) \<Rightarrow> (nat \<Rightarrow> (turn \<times> nat) list \<times> (turn \<times> nat) list list) \<Rightarrow> heap_event list test" where
  "bench_main aligned_alloc malloc sched =
     and_then (bench_single aligned_alloc malloc (fst (sched 0)) (snd (sched 0))) (\<lambda>(b, e1).
     and_then (bench_batch aligned_alloc malloc 64 (fst (sched 1)) (snd (sched 1))) (\<lambda>(b, e2).
     and_then (bench_batch aligned_alloc malloc 256 (fst (sched 2)) (snd (sched 2))) (\<lambda>(b, e3).
     Ok (e1 @ e2 @ e3))))"

section \<open>The calls of the loops\<close>

lemma N_ITEMS_unats: "unat N_ITEMS = 2 ^ 24" "(ucast CAP :: size_t) = 1024" "unat BUFSZ = 256"
  by (simp_all add: N_ITEMS_def CAP_def BUFSZ_def)

lemma length_producer_buf [simp]: "length producer_buf = 1024"
  by (simp add: producer_buf_def BUFSZ_def length_concat comp_def sum_list_triv)

lemma unat_to_size_t: "unat (ucast w :: size_t) = unat w" for w :: u32
proof -
  have "unat w < 2 ^ LENGTH(32)" by (rule unsigned_less)
  then show ?thesis by (simp add: unsigned_ucast_eq take_bit_nat_eq_self)
qed

text \<open>The number asked for is not zero and fits what is left, the batch size and the threads' buffers.\<close>

lemma batch_want_bounds:
  fixes i n :: u32
  assumes "i < N_ITEMS" "0 < n"
  shows "0 < batch_want n i" "unat (batch_want n i) \<le> unat n" "unat (batch_want n i) \<le> unat N_ITEMS - unat i"
proof -
  have s: "unat (N_ITEMS - i) = unat N_ITEMS - unat i" using assms(1) by (intro unat_sub) (simp add: order.strict_implies_order)
  then have "0 < N_ITEMS - i" using assms(1) by (simp add: word_less_nat_alt)
  then show "0 < batch_want n i" using assms(2) by (simp add: batch_want_def Let_def)
  show "unat (batch_want n i) \<le> unat n" "unat (batch_want n i) \<le> unat N_ITEMS - unat i"
    using s by (auto simp: batch_want_def Let_def word_less_nat_alt)
qed

lemma batch_loops:
  assumes "0 < n" "n \<le> BUFSZ"
  shows "ring_loops N_ITEMS (unat n) (\<lambda>pushed. Call_Push_N producer_buf (ucast (batch_want n pushed)))
    (\<lambda>popped. Call_Pop_N (ucast (batch_want n popped))) (\<lambda>_ _. True)"
proof
  fix i assume "i < N_ITEMS"
  note w = batch_want_bounds [OF this assms(1)]
  have "0 < (ucast (batch_want n i) :: size_t)" using w(1) by (simp add: word_less_nat_alt unat_to_size_t)
  moreover have "unat n \<le> 256" using assms(2) N_ITEMS_unats(3) by (simp add: word_le_nat_alt)
  ultimately show "push_call (unat n) (unat N_ITEMS - unat i) (Call_Push_N producer_buf (ucast (batch_want n i)))"
    "pop_call (unat n) (Call_Pop_N (ucast (batch_want n i)))"
    using w(2,3) by (simp_all add: push_call_def pop_call_def unat_to_size_t)
qed simp

interpretation single_threads: ring_loops N_ITEMS 1 "\<lambda>i. Call_Push (le_bytes 4 i)" "\<lambda>_. Call_Pop" "\<lambda>_ _. True"
  by unfold_locales (simp_all add: push_call_def pop_call_def)

interpretation batch64_threads: ring_loops N_ITEMS "unat (64 :: u32)" "\<lambda>pushed. Call_Push_N producer_buf (ucast (batch_want 64 pushed))"
  "\<lambda>popped. Call_Pop_N (ucast (batch_want 64 popped))" "\<lambda>_ _. True"
  by (rule batch_loops) (simp_all add: BUFSZ_def)

interpretation batch256_threads: ring_loops N_ITEMS "unat (256 :: u32)" "\<lambda>pushed. Call_Push_N producer_buf (ucast (batch_want 256 pushed))"
  "\<lambda>popped. Call_Pop_N (ucast (batch_want 256 popped))" "\<lambda>_ _. True"
  by (rule batch_loops) (simp_all add: BUFSZ_def)

lemma batches_same_buffer:
  "(\<And>i. call_bytes (next i) = e) \<Longrightarrow> batches next i ns = concat (map (\<lambda>n. take (n * 4) e) ns)"
  by (induction ns arbitrary: i) simp_all

section \<open>The benchmarks end\<close>

text \<open>Everything has been sent and received, the ring is empty, and no access raced or left the ring.\<close>

definition delivered :: "loops \<Rightarrow> bool" where
  "delivered b \<longleftrightarrow> lp_sent b = N_ITEMS \<and> lp_rcvd b = N_ITEMS \<and> cc_popped (lp_conc b) = cc_pushed (lp_conc b) \<and>
     spsc_ring_empty (cc_ring (lp_conc b)) \<and> \<not> cc_race (lp_conc b) \<and> \<not> cc_oob (lp_conc b)"

abbreviation bench_ends :: "(loops \<times> heap_event list) test \<Rightarrow> (block \<Rightarrow> bool) \<Rightarrow> bool" where
  "bench_ends t Q \<equiv> passes t (\<lambda>(b, evs). delivered b \<and> Q (cc_popped (lp_conc b)) \<and> live [] evs = [])"

text \<open>Loops over \<^verbatim>\<open>N_ITEMS\<close> elements: unfinished or done under every schedule, and done under a long enough one.\<close>

lemma bench_run_ends:
  fixes before :: "(turn \<times> nat) list" and rs :: "(turn \<times> nat) list list"
  assumes loops: "ring_loops N_ITEMS most next_push next_pop check"
    and m: "malloc_sized malloc" and c: "spsc_ring_create aa malloc (ucast CAP) 4 = (Some r, evs)"
  defines "t \<equiv> bench_run aa malloc (producer_loop N_ITEMS next_push) (consumer_loop N_ITEMS next_pop check) before rs"
    and "Q \<equiv> \<lambda>xs. \<exists>ns. batch_sizes most (2 ^ 24) ns \<and> xs = batches next_push 0 ns"
  shows "t = Unfinished \<or> bench_ends t Q"
    and "2 ^ 25 \<le> good_rounds UNIV (4 * most + 4) (\<lambda>_. True) rs \<Longrightarrow> bench_ends t Q"
proof -
  let ?move = "loops_move (producer_loop N_ITEMS next_push) (consumer_loop N_ITEMS next_pop check)"
  note inv = ring_loops.start_inv [OF loops c [unfolded N_ITEMS_unats] m]
  have l: "live [] (evs @ spsc_ring_destroy r') = []" for r'
    by (rule spsc_create_Some [OF c]) (simp add: spsc_ring_destroy_def)
  have t: "t = (if loops_joined N_ITEMS b then Ok (b, evs @ spsc_ring_destroy (cc_ring (lp_conc b))) else Unfinished)"
    if "run_rounds become_visible ?move rs ((loops_start r)\<lparr>lp_go := True\<rparr>) = Some b" for b
    using c that ring_loops.not_ready_spins [OF loops, of "loops_start r" before]
    by (simp add: t_def bench_run_def call_def loops_start_def)
  have ends: "bench_ends t Q" if "run_rounds become_visible ?move rs ((loops_start r)\<lparr>lp_go := True\<rparr>) = Some b"
    "ring_loops.loops_inv N_ITEMS most next_push b" "loops_joined N_ITEMS b" for b
    using t [OF that(1)] that(3) ring_loops.joined_done [OF loops that(2,3)] l
    by (simp add: passes_def delivered_def Q_def N_ITEMS_unats)
  show "t = Unfinished \<or> bench_ends t Q"
    using ring_loops.rounds_inv [OF loops inv, of rs] t ends by fastforce
  show "bench_ends t Q" if "2 ^ 25 \<le> good_rounds UNIV (4 * most + 4) (\<lambda>_. True) rs"
    using ring_loops.rounds_join [OF loops inv, of rs] that ends by (auto simp: N_ITEMS_unats)
qed

definition numbers_below :: "nat \<Rightarrow> block" where
  "numbers_below k = concat (map (\<lambda>i. le_bytes 4 (of_nat i :: u32)) [0..<k])"

lemma single_stream: "batch_sizes 1 k ns \<Longrightarrow> batches (\<lambda>i. Call_Push (le_bytes 4 i)) 0 ns = numbers_below k"
  using batch_sizes_one [of k ns] batches_one [of "\<lambda>i. Call_Push (le_bytes 4 i)" 0 k]
  by (simp add: numbers_below_def)

definition batched :: "nat \<Rightarrow> nat \<Rightarrow> block \<Rightarrow> bool" where
  "batched n k xs \<longleftrightarrow> (\<exists>ns. batch_sizes n k ns \<and> xs = concat (map (\<lambda>m. take (m * 4) producer_buf) ns))"

lemma single_ends:
  assumes "malloc_sized malloc" "spsc_ring_create aa malloc (ucast CAP) 4 = (Some r, evs)"
  shows "bench_single aa malloc before rs = Unfinished \<or> bench_ends (bench_single aa malloc before rs) (\<lambda>xs. xs = numbers_below (2 ^ 24))"
    and "2 ^ 25 \<le> good_rounds UNIV 8 (\<lambda>_. True) rs \<Longrightarrow>
      bench_ends (bench_single aa malloc before rs) (\<lambda>xs. xs = numbers_below (2 ^ 24))"
proof -
  let ?t = "bench_single aa malloc before rs"
  have all: "bench_ends ?t (\<lambda>xs. xs = numbers_below (2 ^ 24))"
    if "bench_ends ?t (\<lambda>xs. \<exists>ns. batch_sizes 1 (2 ^ 24) ns \<and> xs = batches (\<lambda>i. Call_Push (le_bytes 4 i)) 0 ns)"
    by (rule passes_mono [OF that]) (clarify, metis single_stream)
  note ends = bench_run_ends [OF single_threads.ring_loops_axioms assms, where before = before and rs = rs,
      folded producer_single_def consumer_single_def, folded bench_single_def]
  from ends(1) all show "?t = Unfinished \<or> bench_ends ?t (\<lambda>xs. xs = numbers_below (2 ^ 24))" by blast
  have "4 * 1 + 4 = (8 :: nat)" by simp
  from ends(2) [unfolded this] all show "2 ^ 25 \<le> good_rounds UNIV 8 (\<lambda>_. True) rs \<Longrightarrow> bench_ends ?t (\<lambda>xs. xs = numbers_below (2 ^ 24))"
    by blast
qed

lemma batch_ends:
  assumes "malloc_sized malloc" "spsc_ring_create aa malloc (ucast CAP) 4 = (Some r, evs)" "0 < n" "n \<le> BUFSZ"
  shows "bench_batch aa malloc n before rs = Unfinished \<or> bench_ends (bench_batch aa malloc n before rs) (batched (unat n) (2 ^ 24))"
    and "2 ^ 25 \<le> good_rounds UNIV (4 * unat n + 4) (\<lambda>_. True) rs \<Longrightarrow>
      bench_ends (bench_batch aa malloc n before rs) (batched (unat n) (2 ^ 24))"
proof -
  have b: "batches (\<lambda>i. Call_Push_N producer_buf (ucast (batch_want n i))) 0 ns =
    concat (map (\<lambda>m. take (m * 4) producer_buf) ns)" for ns by (rule batches_same_buffer) simp
  note ends = bench_run_ends [OF batch_loops [OF assms(3,4)] assms(1,2), where before = before and rs = rs, unfolded b]
  show "bench_batch aa malloc n before rs = Unfinished \<or> bench_ends (bench_batch aa malloc n before rs) (batched (unat n) (2 ^ 24))"
    using ends(1) unfolding bench_batch_def producer_batch_def consumer_batch_def batched_def .
  show "bench_ends (bench_batch aa malloc n before rs) (batched (unat n) (2 ^ 24))"
    if "2 ^ 25 \<le> good_rounds UNIV (4 * unat n + 4) (\<lambda>_. True) rs"
    using ends(2) [OF that] unfolding bench_batch_def producer_batch_def consumer_batch_def batched_def .
qed

section \<open>Property\<close>

text \<open>
  C14: The benchmark ends and transfers everything. The threads are interleaved at every atomic access and every
  byte copied, and loads may be stale. No schedule makes a benchmark go wrong: it is unfinished, or everything has been
  sent and received, what was popped is what was pushed, in order, the ring is empty, no access raced or left
  the ring, and every block that was allocated has been freed. The single-element consumer has then received
  the numbers from 0 to \<open>2 ^ 24 - 1\<close> in order; the batch consumer has received \<open>2 ^ 24\<close> elements, in
  batches of one to \<open>n\<close> elements, each of them the beginning of the producer's buffer. And each benchmark is finished as
  soon as its schedule has had \<open>2 ^ 25\<close> rounds with at least \<open>4 * n + 4\<close> turns of each thread (eight for single
  elements), stores becoming visible by the next round at the latest; so is \<^verbatim>\<open>main\<close>, with batches of 64 and 256. The
  batch size is one to \<^verbatim>\<open>BUFSZ\<close>, so that neither thread leaves its buffer.
\<close>

theorem bench_terminates:
  assumes m: "malloc_sized malloc" and c: "spsc_ring_create aa malloc (ucast CAP) 4 = (Some r, evs)"
    and n: "0 < n" "n \<le> BUFSZ"
  shows "(bench_single aa malloc before rs = Unfinished \<or>
      bench_ends (bench_single aa malloc before rs) (\<lambda>xs. xs = numbers_below (2 ^ 24))) \<and>
    (2 ^ 25 \<le> good_rounds UNIV 8 (\<lambda>_. True) rs \<longrightarrow>
      bench_ends (bench_single aa malloc before rs) (\<lambda>xs. xs = numbers_below (2 ^ 24))) \<and>
    (bench_batch aa malloc n before rs = Unfinished \<or>
      bench_ends (bench_batch aa malloc n before rs) (batched (unat n) (2 ^ 24))) \<and>
    (2 ^ 25 \<le> good_rounds UNIV (4 * unat n + 4) (\<lambda>_. True) rs \<longrightarrow>
      bench_ends (bench_batch aa malloc n before rs) (batched (unat n) (2 ^ 24))) \<and>
    (2 ^ 25 \<le> good_rounds UNIV 8 (\<lambda>_. True) (snd (sched 0)) \<and> 2 ^ 25 \<le> good_rounds UNIV 260 (\<lambda>_. True) (snd (sched 1)) \<and>
     2 ^ 25 \<le> good_rounds UNIV 1028 (\<lambda>_. True) (snd (sched 2)) \<longrightarrow>
      passes (bench_main aa malloc sched) (\<lambda>evs. live [] evs = []))"
proof -
  have "passes (bench_main aa malloc sched) (\<lambda>evs. live [] evs = [])"
    if g: "2 ^ 25 \<le> good_rounds UNIV 8 (\<lambda>_. True) (snd (sched 0))" "2 ^ 25 \<le> good_rounds UNIV 260 (\<lambda>_. True) (snd (sched 1))"
      "2 ^ 25 \<le> good_rounds UNIV 1028 (\<lambda>_. True) (snd (sched 2))"
    unfolding bench_main_def
    by (rule passes_then [OF single_ends(2) [OF m c g(1)]], clarify,
        rule passes_then [OF batch_ends(2) [OF m c, of 64]]; (clarify | use g(2) in \<open>simp add: BUFSZ_def\<close>)?;
        rule passes_then [OF batch_ends(2) [OF m c, of 256]]; (clarify | use g(3) in \<open>simp add: BUFSZ_def\<close>)?;
        rule passes_Ok) (simp add: live_append)
  with single_ends [OF m c] batch_ends [OF m c n] show ?thesis by blast
qed

theorem bench_terminates_witness:
  "bench_ends (bench_single (\<lambda>_. True) (\<lambda>n. Some (replicate n 0)) [(C, 3), (P, 0)]
      (replicate (2 ^ 25) (replicate 260 (P, 1) @ replicate 260 (C, 2)))) (\<lambda>xs. xs = numbers_below (2 ^ 24)) \<and>
   bench_ends (bench_batch (\<lambda>_. True) (\<lambda>n. Some (replicate n 0)) 64 [(C, 3), (P, 0)]
      (replicate (2 ^ 25) (replicate 260 (P, 1) @ replicate 260 (C, 2)))) (batched 64 (2 ^ 24))"
proof -
  let ?malloc = "\<lambda>n. Some (replicate n 0)" and ?r = "replicate 260 (P, 1 :: nat) @ replicate 260 (C, 2)"
  have m: "malloc_sized ?malloc" by (simp add: malloc_sized_def)
  obtain r evs where c: "spsc_ring_create (\<lambda>_. True) ?malloc (ucast CAP) 4 = (Some r, evs)"
    by (simp add: spsc_ring_create_def Let_def CAP_def)
  have n: "0 < (64::u32)" "64 \<le> BUFSZ" by (simp_all add: BUFSZ_def)
  have "260 \<le> turns_of t ?r" for t by (cases t) (simp_all add: turns_of_replicate)
  then have "good_round UNIV k (\<lambda>_. True) ?r" if "k \<le> 260" for k
    using that by (simp add: good_round_def) (meson order.trans)
  from good_rounds_replicate [OF this, of _ "2 ^ 25"]
  have rs: "2 ^ 25 \<le> good_rounds UNIV k (\<lambda>_. True) (replicate (2 ^ 25) ?r)" if "k \<le> 260" for k
    using that by (metis order.refl)
  have u: "unat (64 :: u32) = 64" "4 * 64 + 4 = (260 :: nat)" by simp_all
  note ends = bench_terminates [OF m c n, of "[(C, 3), (P, 0)]" "replicate (2 ^ 25) ?r", unfolded u]
  have "2 ^ 25 \<le> good_rounds UNIV 8 (\<lambda>_. True) (replicate (2 ^ 25) ?r)"
    "2 ^ 25 \<le> good_rounds UNIV 260 (\<lambda>_. True) (replicate (2 ^ 25) ?r)" by (rule rs, simp)+
  with ends show ?thesis by blast
qed

end
