(* ===== verification/Test_Spsc.thy ===== *)
theory Test_Spsc
  imports Test_Program Spsc_Loops
begin

text \<open>
  The test program \<^verbatim>\<open>test_spsc.c\<close> as a client of the ring. A test that passes returns its heap events.
  \<open>g\<close> is what an uninitialised local variable holds.
\<close>

section \<open>Definitions\<close>

definition with_ring ::
  "(nat \<Rightarrow> bool) \<Rightarrow> (nat \<Rightarrow> block option) \<Rightarrow> size_t \<Rightarrow> (spsc_ring \<Rightarrow> spsc_ring test) \<Rightarrow> heap_event list test" where
  "with_ring aa malloc capacity body =
     (case spsc_ring_create aa malloc capacity 4 of
        (None, evs) \<Rightarrow> Crashed
      | (Some r, evs) \<Rightarrow> and_then (body r) (\<lambda>r. Ok (evs @ spsc_ring_destroy r)))"

definition test_create_validation :: "(nat \<Rightarrow> bool) \<Rightarrow> (nat \<Rightarrow> block option) \<Rightarrow> heap_event list test" where
  "test_create_validation aa malloc =
     (case spsc_ring_create aa malloc 0 4 of (r0, e0) \<Rightarrow>
      ASSERT (r0 = None)
      (case spsc_ring_create aa malloc 8 0 of (r1, e1) \<Rightarrow>
       ASSERT (r1 = None)
       (case spsc_ring_create aa malloc 8 4 of
          (None, e2) \<Rightarrow> Exited 1
        | (Some r, e2) \<Rightarrow>
            ASSERT (spsc_ring_capacity r = 8) (ASSERT (spsc_ring_empty r) (ASSERT (\<not> spsc_ring_full r)
            (ASSERT (spsc_ring_size r = 0) (Ok (e0 @ e1 @ e2 @ spsc_ring_destroy r))))))))"

definition test_single_push_pop :: "(nat \<Rightarrow> bool) \<Rightarrow> (nat \<Rightarrow> block option) \<Rightarrow> heap_event list test" where
  "test_single_push_pop aa malloc = with_ring aa malloc 8 (\<lambda>r.
     call (spsc_ring_pop r (rep 0)) (\<lambda>(c, v, r). ASSERT (c = -1) (
     call (spsc_ring_push r (rep 42)) (\<lambda>(c, r). ASSERT (c = 0) (ASSERT (spsc_ring_size r = 1) (
     call (spsc_ring_pop r v) (\<lambda>(c, v, r). ASSERT (c = 0) (ASSERT (of_le v = (42::u32))
     (ASSERT (spsc_ring_empty r) (Ok r)))))))))) "

text \<open>Loops that push, pop and check, or do both for each number.\<close>

fun push_loop :: "u32 list \<Rightarrow> spsc_ring \<Rightarrow> spsc_ring test" where
  "push_loop [] r = Ok r"
| "push_loop (i # is) r = call (spsc_ring_push r (rep i)) (\<lambda>(c, r). ASSERT (c = 0) (push_loop is r))"

fun pop_loop :: "u32 list \<Rightarrow> block \<Rightarrow> spsc_ring \<Rightarrow> (block \<times> spsc_ring) test" where
  "pop_loop [] got r = Ok (got, r)"
| "pop_loop (i # is) got r =
     call (spsc_ring_pop r got) (\<lambda>(c, got, r). ASSERT (c = 0) (ASSERT (of_le got = i) (pop_loop is got r)))"

fun lap_loop :: "u32 list \<Rightarrow> block \<Rightarrow> spsc_ring \<Rightarrow> spsc_ring test" where
  "lap_loop [] got r = Ok r"
| "lap_loop (i # is) got r =
     call (spsc_ring_push r (rep i)) (\<lambda>(c, r). ASSERT (c = 0) (
     call (spsc_ring_pop r got) (\<lambda>(c, got, r). ASSERT (c = 0) (ASSERT (of_le got = i) (lap_loop is got r)))))"

definition test_fill_to_capacity :: "(nat \<Rightarrow> bool) \<Rightarrow> (nat \<Rightarrow> block option) \<Rightarrow> block \<Rightarrow> heap_event list test" where
  "test_fill_to_capacity aa malloc g = with_ring aa malloc 4 (\<lambda>r.
     and_then (push_loop [0, 1, 2, 3] r) (\<lambda>r. ASSERT (spsc_ring_full r) (
     call (spsc_ring_push r (rep 99)) (\<lambda>(c, r). ASSERT (c = -1) (ASSERT (spsc_ring_size r = 4) (
     and_then (pop_loop [0, 1, 2, 3] g r) (\<lambda>(got, r).
     call (spsc_ring_pop r got) (\<lambda>(c, got, r). ASSERT (c = -1) (Ok r)))))))))"

definition test_wrap_around :: "(nat \<Rightarrow> bool) \<Rightarrow> (nat \<Rightarrow> block option) \<Rightarrow> block \<Rightarrow> heap_event list test" where
  "test_wrap_around aa malloc g = with_ring aa malloc 4 (lap_loop (map of_nat [0..<1000]) g)"

definition test_batch_basic :: "(nat \<Rightarrow> bool) \<Rightarrow> (nat \<Rightarrow> block option) \<Rightarrow> heap_event list test" where
  "test_batch_basic aa malloc = with_ring aa malloc 8 (\<lambda>r.
     call (spsc_ring_push_n r (reps [0, 1, 2, 3, 4, 5, 6, 7, 8, 9]) 10) (\<lambda>(k, r). ASSERT (k = 8) (
     ASSERT (spsc_ring_full r) (
     call (spsc_ring_pop_n r (reps (replicate 10 0)) 10) (\<lambda>(k, out, r). ASSERT (k = 8) (
     ASSERT (list_all (\<lambda>i. int_at out i = of_nat i) [0, 1, 2, 3, 4, 5, 6, 7]) (ASSERT (spsc_ring_empty r) (Ok r))))))))"

definition test_batch_partial :: "(nat \<Rightarrow> bool) \<Rightarrow> (nat \<Rightarrow> block option) \<Rightarrow> block \<Rightarrow> heap_event list test" where
  "test_batch_partial aa malloc g5 = with_ring aa malloc 4 (\<lambda>r.
     call (spsc_ring_push_n r (reps [1, 2]) 2) (\<lambda>(k, r). ASSERT (k = 2) (
     call (spsc_ring_push_n r (reps [3, 4, 5, 6]) 4) (\<lambda>(k, r). ASSERT (k = 2) (ASSERT (spsc_ring_full r) (
     call (spsc_ring_pop_n r g5 5) (\<lambda>(k, got, r). ASSERT (k = 4) (
     ASSERT (int_at got 0 = 1) (ASSERT (int_at got 1 = 2) (ASSERT (int_at got 2 = 3) (ASSERT (int_at got 3 = 4)
     (Ok r))))))))))))"

definition test_batch_wrap :: "(nat \<Rightarrow> bool) \<Rightarrow> (nat \<Rightarrow> block option) \<Rightarrow> heap_event list test" where
  "test_batch_wrap aa malloc = with_ring aa malloc 8 (\<lambda>r.
     call (spsc_ring_push_n r (reps [0, 1, 2, 3, 4, 5]) 6) (\<lambda>(k, r). ASSERT (k = 6) (
     call (spsc_ring_pop_n r (reps (replicate 6 0)) 6) (\<lambda>(k, dump, r). ASSERT (k = 6) (
     call (spsc_ring_push_n r (reps [10, 11, 12, 13, 14]) 5) (\<lambda>(k, r). ASSERT (k = 5) (
     call (spsc_ring_pop_n r (reps (replicate 5 0)) 5) (\<lambda>(k, got, r). ASSERT (k = 5) (
     ASSERT (list_all (\<lambda>i. int_at got i = 10 + of_nat i) [0, 1, 2, 3, 4]) (Ok r))))))))))"

text \<open>
  The concurrent test. Its threads are loops over single pushes and pops; the producer pushes the numbers from
  0, the consumer compares what it pops with the number it expects and leaves the process with \<^verbatim>\<open>exit(2)\<close>
  when they differ.
\<close>

definition CONC_CAP :: u32 where "CONC_CAP = 1024"
definition CONC_ITEMS :: u32 where "CONC_ITEMS = push_bit 22 1"

definition producer_fn :: "nat \<Rightarrow> loops \<Rightarrow> loops option" where
  "producer_fn = producer_loop CONC_ITEMS (\<lambda>i. Call_Push (le_bytes 4 i))"

definition consumer_fn :: "nat \<Rightarrow> loops \<Rightarrow> loops option" where
  "consumer_fn = consumer_loop CONC_ITEMS (\<lambda>_. Call_Pop) (\<lambda>expected got. of_le got = expected)"

text \<open>
  Turns \<open>before\<close> \<^verbatim>\<open>g_ready\<close> is set, the rounds after it, the two joins, and the assertions. The
  variable \<^verbatim>\<open>done\<close> is 1 exactly when the consumer has left its loop, so it is not kept separately.
\<close>

definition test_concurrent_spsc ::
  "(nat \<Rightarrow> bool) \<Rightarrow> (nat \<Rightarrow> block option) \<Rightarrow> (turn \<times> nat) list \<Rightarrow> (turn \<times> nat) list list \<Rightarrow> heap_event list test" where
  "test_concurrent_spsc aa malloc before rounds =
     (case spsc_ring_create aa malloc (ucast CONC_CAP) 4 of
        (None, evs) \<Rightarrow> Exited 1
      | (Some r, evs) \<Rightarrow>
          call (run_moves (loops_move producer_fn consumer_fn) before (loops_start r)) (\<lambda>b.
          call (run_rounds become_visible (loops_move producer_fn consumer_fn) rounds (b\<lparr>lp_go := True\<rparr>)) (\<lambda>b.
          case lp_exit b of
            Some c \<Rightarrow> Exited c
          | None \<Rightarrow>
              if \<not> loops_joined CONC_ITEMS b then Unfinished
              else ASSERT (spsc_ring_empty (cc_ring (lp_conc b)))
                     (Ok (evs @ spsc_ring_destroy (cc_ring (lp_conc b)))))))"

definition test_main ::
  "(nat \<Rightarrow> bool) \<Rightarrow> (nat \<Rightarrow> block option) \<Rightarrow> block \<Rightarrow> (turn \<times> nat) list \<Rightarrow> (turn \<times> nat) list list \<Rightarrow> heap_event list test" where
  "test_main aa malloc g before rounds =
     and_then (test_create_validation aa malloc) (\<lambda>e1.
     and_then (test_single_push_pop aa malloc) (\<lambda>e2.
     and_then (test_fill_to_capacity aa malloc (take 4 g)) (\<lambda>e3.
     and_then (test_wrap_around aa malloc (take 4 g)) (\<lambda>e4.
     and_then (test_batch_basic aa malloc) (\<lambda>e5.
     and_then (test_batch_partial aa malloc g) (\<lambda>e6.
     and_then (test_batch_wrap aa malloc) (\<lambda>e7.
     and_then (test_concurrent_spsc aa malloc before rounds) (\<lambda>e8.
     Ok (e1 @ e2 @ e3 @ e4 @ e5 @ e6 @ e7 @ e8)))))))))"

section \<open>Lemmas\<close>

text \<open>A ring of \<open>c\<close> slots that holds the numbers \<open>xs\<close>.\<close>

definition holds :: "spsc_ring \<Rightarrow> nat \<Rightarrow> u32 list \<Rightarrow> bool" where
  "holds r c xs \<longleftrightarrow> spsc_inv r \<and> sr_element_size r = 4 \<and> unat (sr_capacity r) = c \<and> spsc_elems r = map rep xs"

lemma holds_length: "holds r c xs \<Longrightarrow> unat (spsc_ring_size r) = length xs"
  by (metis holds_def length_map length_spsc_elems spsc_ring_size_def)

lemma holds_queries:
  assumes "holds r c xs"
  shows "spsc_ring_empty r \<longleftrightarrow> xs = []" "spsc_ring_full r \<longleftrightarrow> length xs = c" "spsc_ring_size r = of_nat (length xs)"
    "spsc_ring_capacity r = of_nat c"
proof -
  note l = holds_length [OF assms]
  show s: "spsc_ring_size r = of_nat (length xs)" by (simp flip: l)
  show "spsc_ring_empty r \<longleftrightarrow> xs = []" using l by (auto simp: spsc_ring_empty_def unat_eq_0 simp flip: length_0_conv)
  show "spsc_ring_full r \<longleftrightarrow> length xs = c" using l assms by (auto simp: spsc_ring_full_def holds_def word_unat_eq_iff)
  show "spsc_ring_capacity r = of_nat c" using assms by (auto simp: spsc_ring_capacity_def holds_def)
qed

lemma passes_push:
  assumes "holds r c xs"
    and "\<And>r'. holds r' c (if length xs < c then xs @ [v] else xs) \<Longrightarrow> passes (k (if length xs < c then 0 else -1, r')) Q"
  shows "passes (call (spsc_ring_push r (rep v)) k) Q"
proof -
  obtain r' where "spsc_ring_push r (rep v) = Some (if length xs < c then 0 else -1, r')"
    "holds r' c (if length xs < c then xs @ [v] else xs)"
    using assms(1) spsc_push_refines [of r "rep v"] by (auto simp: holds_def split: if_splits)
  with assms(2) show ?thesis by (simp add: call_def)
qed

lemma passes_pop:
  assumes "holds r c xs" and g: "length g = 4"
    and "\<And>r'. holds r' c (tl xs) \<Longrightarrow> passes (k (if xs = [] then -1 else 0, if xs = [] then g else rep (hd xs), r')) Q"
  shows "passes (call (spsc_ring_pop r g) k) Q"
proof -
  obtain r' where "spsc_ring_pop r g = Some (if xs = [] then -1 else 0, if xs = [] then g else rep (hd xs), r')"
    "holds r' c (tl xs)"
    using assms(1) g spsc_pop_refines [of r g] by (cases xs) (auto simp: holds_def)
  with assms(3) show ?thesis by (simp add: call_def)
qed

lemma passes_push_n:
  assumes "holds r c xs" and n: "unat n = length vs"
    and "\<And>r'. holds r' c (xs @ take (c - length xs) vs) \<Longrightarrow> passes (k (of_nat (min (length vs) (c - length xs)), r')) Q"
  shows "passes (call (spsc_ring_push_n r (reps vs) n) k) Q"
proof -
  let ?m = "min (length vs) (c - length xs)"
  obtain r' where "spsc_ring_push_n r (reps vs) n = Some (of_nat ?m, r')" "holds r' c (xs @ take ?m vs)"
    using assms(1) n spsc_push_n_refines [of r n "reps vs" ?m] by (auto simp: holds_def chunks_reps)
  moreover have "take ?m vs = take (c - length xs) vs" by (simp add: min_def)
  ultimately show ?thesis using assms(3) by (simp add: call_def)
qed

lemma passes_pop_n:
  assumes "holds r c xs" and g: "unat n * 4 \<le> length g"
    and "\<And>r'. holds r' c (drop (unat n) xs) \<Longrightarrow> passes (k (of_nat (min (unat n) (length xs)),
      reps (take (unat n) xs) @ drop (min (unat n) (length xs) * 4) g, r')) Q"
  shows "passes (call (spsc_ring_pop_n r g n) k) Q"
proof -
  let ?m = "min (unat n) (length xs)"
  obtain r' where "spsc_ring_pop_n r g n = Some (of_nat ?m, reps (take ?m xs) @ drop (?m * 4) g, r')"
    "holds r' c (drop ?m xs)"
    using assms(1) g spsc_pop_n_refines [of r n g ?m] by (auto simp: holds_def take_map drop_map reps_def)
  moreover have "take ?m xs = take (unat n) xs" "drop ?m xs = drop (unat n) xs" by (simp_all add: min_def)
  ultimately show ?thesis using assms(3) by (simp add: call_def)
qed

lemma passes_with_ring:
  assumes m: "malloc_sized malloc" and ok: "\<And>n. aa n" "\<And>n. malloc n \<noteq> None"
    and c: "is_pow2 c" "unat c * 4 < 2 ^ 64" and body: "\<And>r. holds r (unat c) [] \<Longrightarrow> passes (body r) (\<lambda>_. True)"
  shows "passes (with_ring aa malloc c body) (\<lambda>evs. live [] evs = [])"
proof -
  obtain r evs where r: "spsc_ring_create aa malloc c 4 = (Some r, evs)"
    using ok(1) ok(2) [of "unat (c * 4)"] c by (auto simp: spsc_ring_create_def Let_def is_pow2_def)
  have "holds r (unat c) []" using spsc_create_inv [OF r m] c by (simp add: holds_def)
  then obtain r' where b: "body r = Ok r'" using body by (auto simp: passes_def)
  have "live [] (evs @ spsc_ring_destroy r') = []" by (rule spsc_create_Some [OF r]) (simp add: spsc_ring_destroy_def)
  with r b show ?thesis by (simp add: with_ring_def passes_def)
qed

lemma passes_push_loop:
  "holds r c xs \<Longrightarrow> length xs + length vs \<le> c \<Longrightarrow> passes (push_loop vs r) (\<lambda>r'. holds r' c (xs @ vs))"
proof (induction vs arbitrary: r xs)
  case (Cons v vs)
  then show ?case by (auto intro!: passes_push [OF Cons.prems(1)] passes_ASSERT dest: Cons.IH)
qed (simp add: passes_Ok)

lemma passes_pop_loop:
  "holds r c (vs @ xs) \<Longrightarrow> length g = 4 \<Longrightarrow> passes (pop_loop vs g r) (\<lambda>(g', r'). holds r' c xs \<and> length g' = 4)"
proof (induction vs arbitrary: r g)
  case (Cons v vs)
  then show ?case by (auto intro!: passes_pop [OF Cons.prems] passes_ASSERT Cons.IH)
qed (simp add: passes_Ok)

lemma passes_then_pop_loop:
  assumes "holds r c (vs @ xs)" "length g = 4"
    and "\<And>g' r'. holds r' c xs \<Longrightarrow> length g' = 4 \<Longrightarrow> passes (k (g', r')) Q"
  shows "passes (and_then (pop_loop vs g r) k) Q"
  by (rule passes_then [OF passes_pop_loop [OF assms(1,2)]]) (use assms(3) in auto)

lemma passes_lap_loop:
  "holds r c [] \<Longrightarrow> 0 < c \<Longrightarrow> length g = 4 \<Longrightarrow> passes (lap_loop vs g r) (\<lambda>_. True)"
proof (induction vs arbitrary: r g)
  case (Cons v vs)
  show ?case
    using Cons.prems(2,3) by (auto intro!: passes_push [OF Cons.prems(1)] passes_pop passes_ASSERT Cons.IH)
qed (simp add: passes_Ok)

section \<open>The sequential tests\<close>

lemma create_validation_passes:
  assumes m: "malloc_sized malloc" and ok: "\<And>n. aa n" "\<And>n. malloc n \<noteq> None"
  shows "passes (test_create_validation aa malloc) (\<lambda>evs. live [] evs = [])"
proof -
  have z: "spsc_ring_create aa malloc 0 4 = (None, [])" "spsc_ring_create aa malloc 8 0 = (None, [])"
    by (simp_all add: spsc_ring_create_def)
  obtain r evs where r: "spsc_ring_create aa malloc 8 4 = (Some r, evs)"
    using ok(1) ok(2) [of 32] by (auto simp: spsc_ring_create_def Let_def)
  have "holds r 8 []" using spsc_create_inv [OF r m] by (simp add: holds_def)
  note q = holds_queries [OF this]
  have "live [] (evs @ spsc_ring_destroy r) = []" by (rule spsc_create_Some [OF r]) (simp add: spsc_ring_destroy_def)
  then show ?thesis by (simp add: test_create_validation_def z r q ASSERT_def passes_Ok)
qed

lemmas passes_rules = passes_ASSERT passes_push passes_pop passes_push_n passes_pop_n passes_Ok

lemma single_push_pop_passes:
  assumes "malloc_sized malloc" "\<And>n. aa n" "\<And>n. malloc n \<noteq> None"
  shows "passes (test_single_push_pop aa malloc) (\<lambda>evs. live [] evs = [])"
  unfolding test_single_push_pop_def
  by (rule passes_with_ring [OF assms]; (simp add: is_pow2_def)?)
    ((rule passes_rules, (assumption | simp add: holds_queries)+)+)

lemma fill_to_capacity_passes:
  assumes "malloc_sized malloc" "\<And>n. aa n" "\<And>n. malloc n \<noteq> None" "length g = 4"
  shows "passes (test_fill_to_capacity aa malloc g) (\<lambda>evs. live [] evs = [])"
  unfolding test_fill_to_capacity_def
  supply [simp del] = push_loop.simps pop_loop.simps
  by (rule passes_with_ring [OF assms(1-3)]; (simp add: is_pow2_def)?)
    ((rule passes_then [OF passes_push_loop] passes_then_pop_loop [where xs = "[]"] passes_rules,
      (assumption | simp add: holds_queries assms(4))+)+)

lemma batch_basic_passes:
  assumes "malloc_sized malloc" "\<And>n. aa n" "\<And>n. malloc n \<noteq> None"
  shows "passes (test_batch_basic aa malloc) (\<lambda>evs. live [] evs = [])"
  unfolding test_batch_basic_def
  by (rule passes_with_ring [OF assms]; (simp add: is_pow2_def)?)
    ((rule passes_rules, (assumption | simp add: holds_queries int_at_reps)+)+)

lemma wrap_around_passes:
  assumes "malloc_sized malloc" "\<And>n. aa n" "\<And>n. malloc n \<noteq> None" "length g = 4"
  shows "passes (test_wrap_around aa malloc g) (\<lambda>evs. live [] evs = [])"
  unfolding test_wrap_around_def
  by (rule passes_with_ring [OF assms(1-3)]) (auto intro!: passes_lap_loop simp: is_pow2_def assms(4))

lemma batch_partial_passes:
  assumes "malloc_sized malloc" "\<And>n. aa n" "\<And>n. malloc n \<noteq> None" "length g = 20"
  shows "passes (test_batch_partial aa malloc g) (\<lambda>evs. live [] evs = [])"
  unfolding test_batch_partial_def
  by (rule passes_with_ring [OF assms(1-3)]; (simp add: is_pow2_def)?)
    ((rule passes_rules, (assumption | simp add: holds_queries int_at_reps assms(4))+)+)

lemma batch_wrap_passes:
  assumes "malloc_sized malloc" "\<And>n. aa n" "\<And>n. malloc n \<noteq> None"
  shows "passes (test_batch_wrap aa malloc) (\<lambda>evs. live [] evs = [])"
  unfolding test_batch_wrap_def
  by (rule passes_with_ring [OF assms]; (simp add: is_pow2_def)?)
    ((rule passes_rules, (assumption | simp add: holds_queries int_at_reps)+)+)

section \<open>The concurrent test\<close>

lemma CONC_unats: "unat CONC_ITEMS = 2 ^ 22" "(ucast CONC_CAP :: size_t) = 1024"
  by (simp_all add: CONC_ITEMS_def CONC_CAP_def)

interpretation test_threads: ring_loops CONC_ITEMS 1 "\<lambda>i. Call_Push (le_bytes 4 i)" "\<lambda>_. Call_Pop" "\<lambda>expected got. of_le got = expected"
  rewrites "producer_loop CONC_ITEMS (\<lambda>i. Call_Push (le_bytes 4 i)) = producer_fn"
    and "consumer_loop CONC_ITEMS (\<lambda>_. Call_Pop) (\<lambda>expected got. of_le got = expected) = consumer_fn"
proof -
  show "ring_loops CONC_ITEMS 1 (\<lambda>i. Call_Push (le_bytes 4 i)) (\<lambda>_. Call_Pop) (\<lambda>expected got. of_le got = expected)"
    by unfold_locales (simp_all add: push_call_def pop_call_def)
qed (simp_all add: producer_fn_def consumer_fn_def)

text \<open>Whatever the schedule, the test does not fail; it is unfinished or has passed.\<close>

lemma concurrent_never_fails:
  assumes m: "malloc_sized malloc" and c: "spsc_ring_create aa malloc (ucast CONC_CAP) 4 = (Some r, evs)"
  shows "test_concurrent_spsc aa malloc before rs = Unfinished \<or>
    passes (test_concurrent_spsc aa malloc before rs) (\<lambda>evs. live [] evs = [])"
proof -
  note inv = test_threads.start_inv [OF c [unfolded CONC_unats] m]
  obtain b where b: "run_rounds become_visible (loops_move producer_fn consumer_fn) rs ((loops_start r)\<lparr>lp_go := True\<rparr>) = Some b"
    "test_threads.loops_inv b" using test_threads.threads.rounds_defined [OF inv] by blast
  have l: "live [] (evs @ spsc_ring_destroy r') = []" for r'
    by (rule spsc_create_Some [OF c]) (simp add: spsc_ring_destroy_def)
  show ?thesis
    using c b(1) test_threads.not_ready_spins [of "loops_start r" before] test_threads.loops_invD(2) [OF b(2)]
      test_threads.joined_done(3) [OF b(2)] l
    by (auto simp: test_concurrent_spsc_def call_def loops_start_def passes_def ASSERT_def)
qed

lemma concurrent_finishes:
  assumes m: "malloc_sized malloc" and c: "spsc_ring_create aa malloc (ucast CONC_CAP) 4 = (Some r, evs)"
    and rs: "2 ^ 23 \<le> good_rounds UNIV 8 (\<lambda>_. True) rs"
  shows "passes (test_concurrent_spsc aa malloc before rs) (\<lambda>evs. live [] evs = [])"
proof -
  note inv = test_threads.start_inv [OF c [unfolded CONC_unats] m]
  obtain b where b: "run_rounds become_visible (loops_move producer_fn consumer_fn) rs ((loops_start r)\<lparr>lp_go := True\<rparr>) = Some b"
    "test_threads.loops_inv b" "loops_joined CONC_ITEMS b"
    using test_threads.rounds_join [OF inv] rs by (auto simp: CONC_unats)
  have "test_concurrent_spsc aa malloc before rs \<noteq> Unfinished"
    using c b(1,3) test_threads.loops_invD(2) [OF b(2)] test_threads.not_ready_spins [of "loops_start r" before]
    by (simp add: test_concurrent_spsc_def call_def loops_start_def ASSERT_def)
  then show ?thesis using concurrent_never_fails [OF m c] by blast
qed

section \<open>Property\<close>


text \<open>
  C4: The test program passes. With memory available, the sequential tests pass whatever uninitialised
  variables hold. The concurrent test, with its threads interleaved at every atomic access and every
  byte copied, never reports a drift, never trips an assertion and never leaves the ring under any
  schedule and with any stale loads. It has passed as soon as the schedule has had \<open>2 ^ 23\<close> rounds with at
  least eight turns of each thread, stores becoming visible by the next round at the latest. Then \<^verbatim>\<open>main\<close> returns, and every block that was
  allocated has been freed.
\<close>

theorem spsc_tests_pass:
  assumes m: "malloc_sized malloc" and ok: "\<And>n. aa n" "\<And>n. malloc n \<noteq> None" and g: "length g = 20"
    and rs: "2 ^ 23 \<le> good_rounds UNIV 8 (\<lambda>_. True) rs"
  shows "(\<exists>evs. test_main aa malloc g before rs = Ok evs \<and> live [] evs = []) \<and>
    (\<forall>rs'. test_concurrent_spsc aa malloc before rs' = Unfinished \<or> (\<exists>evs. test_concurrent_spsc aa malloc before rs' = Ok evs))"
proof -
  obtain r evs where c: "spsc_ring_create aa malloc (ucast CONC_CAP) 4 = (Some r, evs)"
    using ok(1) ok(2) [of 4096] by (auto simp: spsc_ring_create_def Let_def CONC_CAP_def)
  have g4: "length (take 4 g) = 4" using g by simp
  have "passes (test_main aa malloc g before rs) (\<lambda>evs. live [] evs = [])"
    unfolding test_main_def
    by (rule passes_then [OF create_validation_passes [OF m ok]] passes_then [OF single_push_pop_passes [OF m ok]]
        passes_then [OF fill_to_capacity_passes [OF m ok g4]] passes_then [OF wrap_around_passes [OF m ok g4]]
        passes_then [OF batch_basic_passes [OF m ok]] passes_then [OF batch_partial_passes [OF m ok g]]
        passes_then [OF batch_wrap_passes [OF m ok]] passes_then [OF concurrent_finishes [OF m c rs]])+
      (simp add: passes_Ok live_append)
  with concurrent_never_fails [OF m c] show ?thesis by (auto simp: passes_def)
qed

theorem spsc_tests_pass_witness:
  "\<exists>evs. test_main (\<lambda>_. True) (\<lambda>n. Some (replicate n 0)) (replicate 20 7) [(C, 3), (P, 0)]
      (replicate (2 ^ 23) (replicate 8 (P, 1) @ replicate 8 (C, 2))) = Ok evs \<and> live [] evs = []"
proof -
  let ?r = "replicate 8 (P, 1) @ replicate 8 (C, 2)"
  have "8 \<le> turns_of t ?r" for t by (cases t) (simp_all add: turns_of_replicate)
  then have "good_round UNIV 8 (\<lambda>_. True) ?r" by (simp add: good_round_def)
  from good_rounds_replicate [OF this, of "2 ^ 23"] have rs: "2 ^ 23 \<le> good_rounds UNIV 8 (\<lambda>_. True) (replicate (2 ^ 23) ?r)"
    by (rule eq_refl [OF sym])
  have "malloc_sized (\<lambda>n. Some (replicate n 0))" by (simp add: malloc_sized_def)
  from spsc_tests_pass [OF this _ _ _ rs, of "\<lambda>_. True" "replicate 20 7" "[(C, 3), (P, 0)]"]
  show ?thesis unfolding length_replicate by simp
qed

end
