(* ===== verification/Mpsc_Queue.thy ===== *)
theory Mpsc_Queue
  imports Ring_Interfaces
begin

text \<open>
  The bounded queue of \<^verbatim>\<open>mpmc_queue.hpp\<close> (class \<^verbatim>\<open>MpscQueue\<close>), one call at a time. The concurrent
  reading of the same code, with any number of producers, is \<open>Mpsc_Concurrent\<close>.

  \<^verbatim>\<open>size_type\<close> is \<^verbatim>\<open>std::size_t\<close>, 64 bits wide. The element type is a type variable; the value of
  \<^verbatim>\<open>T()\<close> and what \<^verbatim>\<open>std::move\<close> leaves behind in a moved-from object are arguments. A compare-exchange
  of the weak kind may fail although the values agree: how often it does so in one call is an argument
  of \<open>mpsc_push\<close>, and no result depends on it. \<open>None\<close> is undefined behaviour: a division by a zero
  capacity, or an access outside the array of cells.
\<close>

section \<open>Definitions\<close>

record 'a cell =
  cell_data :: 'a
  cell_is_ready :: bool

record 'a mpsc_queue =
  mq_capacity :: size_t
  mq_items :: "'a cell list"
  mq_head :: size_t
  mq_tail :: size_t

text \<open>What constructor and destructor do to storage, in order.\<close>

datatype storage_event = Allocate size_t | Construct nat | Destroy nat | Deallocate size_t

datatype mpsc_error = Bad_Alloc

text \<open>
  The constructor; \<open>d\<close> is \<^verbatim>\<open>T()\<close>, and \<open>available\<close> whether the allocator has room for a number of cells
  (it throws otherwise).
\<close>

definition mpsc_create ::
  "(size_t \<Rightarrow> bool) \<Rightarrow> 'a \<Rightarrow> size_t \<Rightarrow> mpsc_error + 'a mpsc_queue \<times> storage_event list" where
  "mpsc_create available d capacity =
     (if available capacity
      then Inr (\<lparr>mq_capacity = capacity,
                 mq_items = map (\<lambda>i. \<lparr>cell_data = d, cell_is_ready = False\<rparr>) [0..<unat capacity],
                 mq_head = 0, mq_tail = 0\<rparr>,
                Allocate capacity # map Construct [0..<unat capacity])
      else Inl Bad_Alloc)"

definition mpsc_destroy :: "'a mpsc_queue \<Rightarrow> storage_event list" where
  "mpsc_destroy q = map Destroy [0..<unat (mq_capacity q)] @ [Deallocate (mq_capacity q)]"

definition mpsc_is_empty :: "size_t \<Rightarrow> size_t \<Rightarrow> bool" where
  "mpsc_is_empty head tail \<longleftrightarrow> head = tail"

definition mpsc_is_full :: "size_t \<Rightarrow> size_t \<Rightarrow> size_t \<Rightarrow> bool" where
  "mpsc_is_full capacity head tail \<longleftrightarrow> head - tail \<ge> capacity"

definition mpsc_element :: "size_t \<Rightarrow> size_t \<Rightarrow> nat option" where
  "mpsc_element capacity idx = (if capacity = 0 then None else Some (unat (idx mod capacity)))"

text \<open>
  The claim loop of \<^verbatim>\<open>push\<close>: \<open>n\<close> compare-exchanges fail spuriously before one succeeds. The result is
  the claimed counter value, or \<open>None\<close> when the queue is full.
\<close>

function mpsc_claim :: "nat \<Rightarrow> size_t \<Rightarrow> 'a mpsc_queue \<Rightarrow> (size_t \<times> 'a mpsc_queue) option" where
  "mpsc_claim n head q =
     (let tail = mq_tail q in
      if mpsc_is_full (mq_capacity q) head tail then None
      else if n > 0 then mpsc_claim (n - 1) (mq_head q) q
      else if mq_head q = head then Some (head, q\<lparr>mq_head := head + 1\<rparr>)
      else mpsc_claim 0 (mq_head q) q)"
  by pat_completeness auto
termination
  by (relation "measure (\<lambda>(n, head, q). 2 * n + (if mq_head q = head then 0 else 1))") auto

declare mpsc_claim.simps [simp del]

definition mpsc_push :: "nat \<Rightarrow> 'a mpsc_queue \<Rightarrow> 'a \<Rightarrow> (bool \<times> 'a mpsc_queue) option" where
  "mpsc_push n q value =
     (let head = mq_head q in
      case mpsc_claim n head q of
        None \<Rightarrow> Some (False, q)
      | Some (head, q) \<Rightarrow>
          do { i \<leftarrow> mpsc_element (mq_capacity q) head;
               if i < length (mq_items q)
               then let c = (mq_items q ! i)\<lparr>cell_data := value\<rparr>;
                        c = c\<lparr>cell_is_ready := True\<rparr>
                    in Some (True, q\<lparr>mq_items := (mq_items q)[i := c]\<rparr>)
               else None })"

text \<open>\<open>mv\<close> is what moving out of an object leaves there.\<close>

definition mpsc_pop :: "('a \<Rightarrow> 'a) \<Rightarrow> 'a mpsc_queue \<Rightarrow> ('a option \<times> 'a mpsc_queue) option" where
  "mpsc_pop mv q =
     (let tail = mq_tail q; head = mq_head q in
      if mpsc_is_empty head tail then Some (None, q)
      else do { i \<leftarrow> mpsc_element (mq_capacity q) tail;
                if i < length (mq_items q)
                then if \<not> cell_is_ready (mq_items q ! i) then Some (None, q)
                     else let value = cell_data (mq_items q ! i);
                              c = (mq_items q ! i)\<lparr>cell_data := mv value\<rparr>;
                              c = c\<lparr>cell_is_ready := False\<rparr>
                          in Some (Some value, q\<lparr>mq_items := (mq_items q)[i := c], mq_tail := tail + 1\<rparr>)
                else None })"

definition mpsc_size :: "'a mpsc_queue \<Rightarrow> size_t" where
  "mpsc_size q = (let h = mq_head q; t = mq_tail q in h - t)"

definition mpsc_empty :: "'a mpsc_queue \<Rightarrow> bool" where
  "mpsc_empty q \<longleftrightarrow> mpsc_size q = 0"

definition mpsc_full :: "'a mpsc_queue \<Rightarrow> bool" where
  "mpsc_full q \<longleftrightarrow> mpsc_size q = mq_capacity q"

definition mpsc_capacity :: "'a mpsc_queue \<Rightarrow> size_t" where
  "mpsc_capacity q = mq_capacity q"

subsection \<open>The abstract view\<close>

text \<open>Which counters are safe: any for a power of two, only those before the wrap-around otherwise.\<close>

definition no_wrap :: "size_t \<Rightarrow> size_t \<Rightarrow> bool" where
  "no_wrap c t \<longleftrightarrow> c \<noteq> 0 \<and> (unat c dvd 2 ^ 64 \<or> unat t + unat c \<le> 2 ^ 64)"

definition mpsc_elems :: "'a mpsc_queue \<Rightarrow> 'a list" where
  "mpsc_elems q =
     ring_window (\<lambda>i. unat (i mod mq_capacity q)) (\<lambda>k. cell_data (mq_items q ! k)) (mq_tail q)
       (unat (mq_head q - mq_tail q))"

text \<open>Between calls, exactly the cells between the counters are ready.\<close>

definition mpsc_wf :: "'a mpsc_queue \<Rightarrow> bool" where
  "mpsc_wf q \<longleftrightarrow>
     length (mq_items q) = unat (mq_capacity q) \<and> mq_head q - mq_tail q \<le> mq_capacity q \<and>
     (\<forall>i < unat (mq_capacity q).
        cell_is_ready (mq_items q ! unat ((mq_tail q + of_nat i) mod mq_capacity q)) \<longleftrightarrow>
        i < unat (mq_head q - mq_tail q))"

definition mpsc_inv :: "'a mpsc_queue \<Rightarrow> bool" where
  "mpsc_inv q \<longleftrightarrow> mpsc_wf q \<and> is_pow2 (mq_capacity q)"

section \<open>Indices\<close>

interpretation mod_ring: ring_index "\<lambda>c i. unat (i mod c)" unat no_wrap
proof unfold_locales
  fix c t i :: size_t assume "no_wrap c t"
  then show "unat (i mod c) < unat c" by (simp add: no_wrap_def unat_mod unat_gt_0)
next
  fix c t :: size_t and i j
  assume ok: "no_wrap c t" and b: "i < unat c" "j < unat c"
    and e: "unat ((t + of_nat i) mod c) = unat ((t + of_nat j) mod c)"
  have "unat (t + of_nat k) mod unat c = (unat t + k) mod unat c" if "k < unat c" for k
  proof (cases "unat c dvd 2 ^ 64")
    case True
    then show ?thesis using unat_plus_mod_dvd [where 'w = 64, of "unat c" t k] by simp
  next
    case False
    with ok that have lt: "unat t + k < 2 ^ 64" by (simp add: no_wrap_def)
    then have "unat (t + of_nat k) = unat t + k"
      by (simp add: unat_word_ariths unat_of_nat)
    then show ?thesis by simp
  qed
  with b e have "(unat t + i) mod unat c = (unat t + j) mod unat c"
    by (simp add: unat_mod)
  with b show "i = j" by (rule mod_window_inj)
qed

lemma no_wrap_pow2: "is_pow2 c \<Longrightarrow> no_wrap c t"
  using is_pow2_dvd [of c] by (auto simp: no_wrap_def is_pow2_def)

lemma mod_period:
  fixes c t :: size_t
  assumes "is_pow2 c"
  shows "unat ((t + of_nat (unat c)) mod c) = unat (t mod c)"
  using unat_plus_mod_dvd [where 'w = 64, of "unat c" t "unat c"] is_pow2_dvd [OF assms]
  by (simp add: unat_mod)

section \<open>The operations refine a bounded list\<close>

abbreviation mpsc_count :: "'a mpsc_queue \<Rightarrow> nat" where
  "mpsc_count q \<equiv> unat (mq_head q - mq_tail q)"

abbreviation mpsc_slot :: "'a mpsc_queue \<Rightarrow> nat \<Rightarrow> nat" where
  "mpsc_slot q i \<equiv> unat ((mq_tail q + of_nat i) mod mq_capacity q)"

lemma mpsc_wfD:
  assumes "mpsc_wf q"
  shows "length (mq_items q) = unat (mq_capacity q)" "mpsc_count q \<le> unat (mq_capacity q)"
    and "i < unat (mq_capacity q) \<Longrightarrow> cell_is_ready (mq_items q ! mpsc_slot q i) \<longleftrightarrow> i < mpsc_count q"
  using assms by (auto simp: mpsc_wf_def word_le_nat_alt)

lemma length_mpsc_elems [simp]: "length (mpsc_elems q) = mpsc_count q"
  by (simp add: mpsc_elems_def)

text \<open>Spurious failures of the compare-exchange do not change the outcome of the claim loop.\<close>

lemma mpsc_claim_eq:
  "mpsc_claim n (mq_head q) q =
     (if mpsc_is_full (mq_capacity q) (mq_head q) (mq_tail q) then None
      else Some (mq_head q, q\<lparr>mq_head := mq_head q + 1\<rparr>))"
  by (induction n) (subst mpsc_claim.simps; simp add: Let_def)+

text \<open>What \<^verbatim>\<open>push\<close> leaves when there is room, and what \<^verbatim>\<open>pop\<close> leaves when there is an element.\<close>

definition after_push :: "'a mpsc_queue \<Rightarrow> 'a \<Rightarrow> 'a mpsc_queue" where
  "after_push q x = (let j = mpsc_slot q (mpsc_count q) in
     q\<lparr>mq_head := mq_head q + 1, mq_items := (mq_items q)[j := (mq_items q ! j)\<lparr>cell_data := x, cell_is_ready := True\<rparr>]\<rparr>)"

definition after_pop :: "('a \<Rightarrow> 'a) \<Rightarrow> 'a mpsc_queue \<Rightarrow> 'a mpsc_queue" where
  "after_pop mv q = (let j = mpsc_slot q 0 in
     q\<lparr>mq_items := (mq_items q)[j := (mq_items q ! j)\<lparr>cell_data := mv (cell_data (mq_items q ! j)), cell_is_ready := False\<rparr>],
       mq_tail := mq_tail q + 1\<rparr>)"

lemma after_push_simps [simp]:
  "mq_capacity (after_push q x) = mq_capacity q" "mq_tail (after_push q x) = mq_tail q" "mq_head (after_push q x) = mq_head q + 1"
  "length (mq_items (after_push q x)) = length (mq_items q)"
  by (simp_all add: after_push_def Let_def)

lemma after_pop_simps [simp]:
  "mq_capacity (after_pop mv q) = mq_capacity q" "mq_tail (after_pop mv q) = mq_tail q + 1" "mq_head (after_pop mv q) = mq_head q"
  "length (mq_items (after_pop mv q)) = length (mq_items q)"
  by (simp_all add: after_pop_def Let_def)

lemma mpsc_push_stores:
  assumes wf: "mpsc_wf q" and nw: "no_wrap (mq_capacity q) (mq_tail q)" and room: "mpsc_count q < unat (mq_capacity q)"
  shows "mpsc_push n q x = Some (True, after_push q x)" "unat (mq_head q + 1 - mq_tail q) = Suc (mpsc_count q)"
proof -
  let ?j = "mpsc_slot q (mpsc_count q)"
  have "mq_capacity q \<noteq> 0" using nw by (simp add: no_wrap_def)
  then have "mpsc_element (mq_capacity q) (mq_head q) = Some ?j" by (simp add: mpsc_element_def)
  moreover have "\<not> mpsc_is_full (mq_capacity q) (mq_head q) (mq_tail q)"
    using room by (simp add: mpsc_is_full_def word_le_nat_alt)
  moreover have "?j < length (mq_items q)" unfolding mpsc_wfD(1) [OF wf] by (rule mod_ring.slot_less [OF nw])
  ultimately show "mpsc_push n q x = Some (True, after_push q x)"
    by (simp add: mpsc_push_def mpsc_claim_eq Let_def after_push_def)
  have "unat (mq_capacity q) < 2 ^ LENGTH(64)" by (rule unsigned_less)
  with room have "mpsc_count q + 1 < 2 ^ LENGTH(64)" by linarith
  then show "unat (mq_head q + 1 - mq_tail q) = Suc (mpsc_count q)" using unat_dist_Suc [of "mq_head q" "mq_tail q"] by simp
qed

text \<open>The cell that \<^verbatim>\<open>push\<close> writes is none of the others in use.\<close>

lemma after_push_items:
  assumes wf: "mpsc_wf q" and nw: "no_wrap (mq_capacity q) (mq_tail q)" and room: "mpsc_count q < unat (mq_capacity q)"
  shows "mq_items (after_push q x) ! mpsc_slot q (mpsc_count q) =
      (mq_items q ! mpsc_slot q (mpsc_count q))\<lparr>cell_data := x, cell_is_ready := True\<rparr>"
    "k \<noteq> mpsc_slot q (mpsc_count q) \<Longrightarrow> mq_items (after_push q x) ! k = mq_items q ! k"
    "i < unat (mq_capacity q) \<Longrightarrow> i \<noteq> mpsc_count q \<Longrightarrow> mq_items (after_push q x) ! mpsc_slot q i = mq_items q ! mpsc_slot q i"
proof -
  let ?j = "mpsc_slot q (mpsc_count q)"
  have j: "?j < length (mq_items q)" unfolding mpsc_wfD(1) [OF wf] by (rule mod_ring.slot_less [OF nw])
  then show "mq_items (after_push q x) ! ?j = (mq_items q ! ?j)\<lparr>cell_data := x, cell_is_ready := True\<rparr>"
    by (simp add: after_push_def Let_def)
  show o: "mq_items (after_push q x) ! k = mq_items q ! k" if "k \<noteq> ?j" for k using that by (simp add: after_push_def Let_def)
  show "mq_items (after_push q x) ! mpsc_slot q i = mq_items q ! mpsc_slot q i" if "i < unat (mq_capacity q)" "i \<noteq> mpsc_count q"
    using mod_ring.slot_inj [OF nw, of "mpsc_count q" i] that room by (intro o) auto
qed

lemma mpsc_push_room:
  assumes wf: "mpsc_wf q" and nw: "no_wrap (mq_capacity q) (mq_tail q)"
    and room: "mpsc_count q < unat (mq_capacity q)"
  obtains q' where "mpsc_push n q x = Some (True, q')" "mpsc_wf q'" "mpsc_elems q' = mpsc_elems q @ [x]"
    "mq_capacity q' = mq_capacity q" "mq_tail q' = mq_tail q" "mq_head q' = mq_head q + 1"
proof -
  note P = mpsc_push_stores [OF wf nw room] and I = after_push_items [OF wf nw room, where x = x]
  have "cell_is_ready (mq_items (after_push q x) ! mpsc_slot q i) \<longleftrightarrow> i < Suc (mpsc_count q)" if i: "i < unat (mq_capacity q)" for i
    using I(1) I(3) [OF i] mpsc_wfD(3) [OF wf i] by (cases "i = mpsc_count q") (simp, auto simp del: of_nat_unat)
  then have "mpsc_wf (after_push q x)"
    using room P(2) mpsc_wfD(1) [OF wf] by (simp add: mpsc_wf_def word_le_nat_alt)
  moreover have "ring_window (\<lambda>i. unat (i mod mq_capacity q)) (\<lambda>k. cell_data (mq_items (after_push q x) ! k)) (mq_tail q) (Suc (mpsc_count q)) =
      ring_window (\<lambda>i. unat (i mod mq_capacity q)) (\<lambda>k. cell_data (mq_items q ! k)) (mq_tail q) (mpsc_count q) @ [x]"
    by (intro mod_ring.window_push [OF nw]) (use room I(1,2) in simp_all)
  then have "mpsc_elems (after_push q x) = mpsc_elems q @ [x]" using P(2) by (simp add: mpsc_elems_def)
  ultimately show ?thesis using P(1) by (intro that [of "after_push q x"]) simp_all
qed

lemma mpsc_push_full:
  assumes "mpsc_wf q" "unat (mq_capacity q) \<le> mpsc_count q"
  shows "mpsc_push n q x = Some (False, q)"
  using assms by (simp add: mpsc_push_def mpsc_claim_eq mpsc_is_full_def word_le_nat_alt)

lemma mpsc_pop_empty: "mpsc_count q = 0 \<Longrightarrow> mpsc_pop mv q = Some (None, q)"
  by (simp add: mpsc_pop_def mpsc_is_empty_def unat_eq_0)

lemma mpsc_pop_takes:
  assumes wf: "mpsc_wf q" and p2: "is_pow2 (mq_capacity q)" and ne: "mpsc_elems q = y # ys"
  shows "mpsc_pop mv q = Some (Some y, after_pop mv q)" "mpsc_count q = Suc (length ys)" "mpsc_count (after_pop mv q) = length ys"
    "ys = ring_window (\<lambda>i. unat (i mod mq_capacity q)) (\<lambda>k. cell_data (mq_items q ! k)) (mq_tail q + 1) (length ys)"
proof -
  let ?j = "mpsc_slot q 0"
  show cnt: "mpsc_count q = Suc (length ys)" using ne length_mpsc_elems [of q] by simp
  then show "mpsc_count (after_pop mv q) = length ys" using unat_dist_sub [of 1 "mq_head q" "mq_tail q"] by simp
  have win: "mpsc_elems q = cell_data (mq_items q ! ?j) #
      ring_window (\<lambda>i. unat (i mod mq_capacity q)) (\<lambda>k. cell_data (mq_items q ! k)) (mq_tail q + 1) (length ys)"
    by (simp add: mpsc_elems_def cnt ring_window_Suc)
  then show "ys = ring_window (\<lambda>i. unat (i mod mq_capacity q)) (\<lambda>k. cell_data (mq_items q ! k)) (mq_tail q + 1) (length ys)"
    using ne by simp
  have "cell_is_ready (mq_items q ! ?j)" using mpsc_wfD(2) [OF wf] mpsc_wfD(3) [OF wf, of 0] cnt by simp
  moreover have "mq_head q \<noteq> mq_tail q" using cnt by auto
  moreover have "mpsc_element (mq_capacity q) (mq_tail q) = Some ?j" using p2 by (simp add: mpsc_element_def is_pow2_def)
  moreover have "cell_data (mq_items q ! ?j) = y" using win ne by simp
  moreover have "?j < length (mq_items q)" unfolding mpsc_wfD(1) [OF wf] by (rule mod_ring.slot_less [OF no_wrap_pow2 [OF p2]])
  ultimately show "mpsc_pop mv q = Some (Some y, after_pop mv q)"
    by (simp add: mpsc_pop_def mpsc_is_empty_def Let_def after_pop_def)
qed

lemma after_pop_items:
  assumes wf: "mpsc_wf q" and p2: "is_pow2 (mq_capacity q)"
  shows "\<not> cell_is_ready (mq_items (after_pop mv q) ! mpsc_slot q 0)"
    "Suc i < unat (mq_capacity q) \<Longrightarrow> mq_items (after_pop mv q) ! mpsc_slot q (Suc i) = mq_items q ! mpsc_slot q (Suc i)"
proof -
  note nw = no_wrap_pow2 [OF p2, of "mq_tail q"]
  have "mpsc_slot q 0 < length (mq_items q)" unfolding mpsc_wfD(1) [OF wf] by (rule mod_ring.slot_less [OF nw])
  then show "\<not> cell_is_ready (mq_items (after_pop mv q) ! mpsc_slot q 0)" by (simp add: after_pop_def Let_def)
  show "mq_items (after_pop mv q) ! mpsc_slot q (Suc i) = mq_items q ! mpsc_slot q (Suc i)" if "Suc i < unat (mq_capacity q)"
  proof -
    have "mpsc_slot q 0 \<noteq> mpsc_slot q (Suc i)" using mod_ring.slot_inj [OF nw, of 0 "Suc i"] that by linarith
    then show ?thesis by (simp add: after_pop_def Let_def del: of_nat_Suc)
  qed
qed

lemma mpsc_pop_some:
  assumes wf: "mpsc_wf q" and p2: "is_pow2 (mq_capacity q)" and ne: "mpsc_elems q = y # ys"
  obtains q' where "mpsc_pop mv q = Some (Some y, q')" "mpsc_wf q'" "mpsc_elems q' = ys"
    "mq_capacity q' = mq_capacity q" "mq_tail q' = mq_tail q + 1" "mq_head q' = mq_head q"
proof -
  note P = mpsc_pop_takes [OF wf p2 ne] and I = after_pop_items [OF wf p2, where mv = mv]
  have cap: "Suc (length ys) \<le> unat (mq_capacity q)" using mpsc_wfD(2) [OF wf] P(2) by simp
  have slot: "mpsc_slot (after_pop mv q) i = mpsc_slot q (Suc i)" for i by (simp add: add.assoc)
  have "cell_is_ready (mq_items (after_pop mv q) ! mpsc_slot (after_pop mv q) i) \<longleftrightarrow> i < length ys" if i: "i < unat (mq_capacity q)" for i
  proof (cases "Suc i < unat (mq_capacity q)")
    case True
    with I(2) [OF True] mpsc_wfD(3) [OF wf True] P(2) show ?thesis unfolding slot by simp
  next
    case False
    with i have "Suc i = unat (mq_capacity q)" by simp
    then have "mpsc_slot (after_pop mv q) i = mpsc_slot q 0"
      unfolding slot using mod_period [OF p2, of "mq_tail q"] by (simp flip: of_nat_Suc)
    with False cap I(1) show ?thesis by simp
  qed
  then have "mpsc_wf (after_pop mv q)" using P(3) cap mpsc_wfD(1) [OF wf] by (simp add: mpsc_wf_def word_le_nat_alt)
  moreover have "mpsc_elems (after_pop mv q) = ys"
    using P(3) I(2) cap by (subst P(4)) (auto simp: mpsc_elems_def ring_window_def add.assoc)
  ultimately show ?thesis using P(1) by (intro that [of "after_pop mv q"]) simp_all
qed

interpretation mpsc_fifo: bounded_fifo mpsc_inv mpsc_elems "\<lambda>q. unat (mq_capacity q)" "\<lambda>_ _. True"
  "mpsc_push n" "mpsc_pop mv" for n and mv :: "'a \<Rightarrow> 'a"
proof unfold_locales
  fix q :: "'a mpsc_queue" and x
  assume inv: "mpsc_inv q" and room: "length (mpsc_elems q) < unat (mq_capacity q)"
  from inv have "mpsc_wf q" "no_wrap (mq_capacity q) (mq_tail q)"
    by (simp_all add: mpsc_inv_def no_wrap_pow2)
  with inv room show "\<exists>q'. mpsc_push n q x = Some (True, q') \<and> mpsc_inv q' \<and> mpsc_elems q' = mpsc_elems q @ [x] \<and>
      unat (mq_capacity q') = unat (mq_capacity q) \<and> (\<lambda>_. True) = (\<lambda>_. True)"
    by (elim mpsc_push_room [of q n x]) (auto simp: mpsc_inv_def)
next
  fix q :: "'a mpsc_queue" and x
  assume "mpsc_inv q" "unat (mq_capacity q) \<le> length (mpsc_elems q)"
  then show "\<exists>q'. mpsc_push n q x = Some (False, q') \<and> mpsc_inv q' \<and> mpsc_elems q' = mpsc_elems q \<and>
      unat (mq_capacity q') = unat (mq_capacity q) \<and> (\<lambda>_. True) = (\<lambda>_. True)"
    by (simp add: mpsc_push_full mpsc_inv_def)
next
  fix q :: "'a mpsc_queue" and y ys
  assume inv: "mpsc_inv q" and ne: "mpsc_elems q = y # ys"
  then have "mpsc_wf q" "is_pow2 (mq_capacity q)" by (simp_all add: mpsc_inv_def)
  then show "\<exists>q'. mpsc_pop mv q = Some (Some y, q') \<and> mpsc_inv q' \<and> mpsc_elems q' = ys \<and>
      unat (mq_capacity q') = unat (mq_capacity q) \<and> (\<lambda>_. True) = (\<lambda>_. True)"
    using ne by (elim mpsc_pop_some [of q y ys mv]) (auto simp: mpsc_inv_def)
next
  fix q :: "'a mpsc_queue"
  assume "mpsc_inv q" "mpsc_elems q = []"
  then show "\<exists>q'. mpsc_pop mv q = Some (None, q') \<and> mpsc_inv q' \<and> mpsc_elems q' = [] \<and>
      unat (mq_capacity q') = unat (mq_capacity q) \<and> (\<lambda>_. True) = (\<lambda>_. True)"
    using length_mpsc_elems [of q] by (simp add: mpsc_pop_empty)
qed

lemma mpsc_create_wf:
  assumes "mpsc_create av d c = Inr (q, ev)"
  shows "mpsc_wf q" "mpsc_elems q = []" "mq_capacity q = c" "mq_head q = 0" "mq_tail q = 0"
proof -
  have q: "q = \<lparr>mq_capacity = c, mq_items = map (\<lambda>i. \<lparr>cell_data = d, cell_is_ready = False\<rparr>) [0..<unat c],
      mq_head = 0, mq_tail = 0\<rparr>"
    using assms by (simp add: mpsc_create_def split: if_splits)
  have "unat (of_nat i mod c) < unat c" if "i < unat c" for i
    using that by (simp add: unat_mod)
  then show "mpsc_wf q" by (simp add: q mpsc_wf_def)
qed (use assms in \<open>auto simp: mpsc_create_def mpsc_elems_def split: if_splits\<close>)

section \<open>Around the wrap-around of the counters\<close>

text \<open>
  The queue after \<open>n\<close> push/pop pairs, for any capacity: both counters have advanced, and no
  cell is ready.
\<close>

fun push_pop_pairs :: "('a \<Rightarrow> 'a) \<Rightarrow> 'a \<Rightarrow> nat \<Rightarrow> 'a mpsc_queue \<Rightarrow> 'a mpsc_queue option" where
  "push_pop_pairs mv x 0 q = Some q"
| "push_pop_pairs mv x (Suc n) q =
     do { (_, q) \<leftarrow> mpsc_push 0 q x; (_, q) \<leftarrow> mpsc_pop mv q; push_pop_pairs mv x n q }"

definition drained_at :: "size_t \<Rightarrow> size_t \<Rightarrow> 'a mpsc_queue \<Rightarrow> bool" where
  "drained_at c t q \<longleftrightarrow> mq_capacity q = c \<and> mq_head q = t \<and> mq_tail q = t \<and>
     length (mq_items q) = unat c \<and> (\<forall>k < unat c. \<not> cell_is_ready (mq_items q ! k))"

lemma cell_updates: "c\<lparr>cell_data := x, cell_is_ready := b\<rparr> = \<lparr>cell_data = x, cell_is_ready = b\<rparr>"
  for c :: "'a cell"
  by (cases c) simp

lemma push_drained:
  assumes "drained_at c t q" "c \<noteq> 0"
  shows "mpsc_push n q x = Some (True, q\<lparr>mq_head := t + 1, mq_items := (mq_items q)[unat (t mod c) :=
           \<lparr>cell_data = x, cell_is_ready = True\<rparr>]\<rparr>)"
proof -
  have lt: "unat (t mod c) < unat c" using assms(2) by (simp add: unat_mod unat_gt_0)
  have q: "mq_head q = t" "mq_tail q = t" "mq_capacity q = c" "length (mq_items q) = unat c"
    using assms(1) by (simp_all add: drained_at_def)
  then have "mpsc_claim n t q = Some (t, q\<lparr>mq_head := t + 1\<rparr>)"
    using mpsc_claim_eq [of n q] assms(2) by (simp add: mpsc_is_full_def)
  with q assms(2) lt show ?thesis
    by (simp add: mpsc_push_def mpsc_element_def Let_def cell_updates)
qed

lemma pair_drained:
  assumes "drained_at c t q" "c \<noteq> 0"
  obtains q1 q2 where "mpsc_push 0 q x = Some (True, q1)" "mpsc_pop mv q1 = Some (Some x, q2)"
    "drained_at c (t + 1) q2"
proof -
  have lt: "unat (t mod c) < unat c" using assms(2) by (simp add: unat_mod unat_gt_0)
  define q1 where "q1 = q\<lparr>mq_head := t + 1, mq_items := (mq_items q)[unat (t mod c) :=
           \<lparr>cell_data = x, cell_is_ready = True\<rparr>]\<rparr>"
  define q2 where "q2 = q1\<lparr>mq_items := (mq_items q)[unat (t mod c) :=
           \<lparr>cell_data = mv x, cell_is_ready = False\<rparr>], mq_tail := t + 1\<rparr>"
  have "mpsc_pop mv q1 = Some (Some x, q2)"
    using assms lt by (simp add: drained_at_def mpsc_pop_def q1_def q2_def mpsc_is_empty_def mpsc_element_def Let_def)
  moreover have "drained_at c (t + 1) q2"
    using assms lt by (auto simp: drained_at_def q1_def q2_def nth_list_update)
  ultimately show ?thesis using that [of q1 q2] push_drained [OF assms] by (simp add: q1_def)
qed

lemma push_pop_pairs_drained:
  "drained_at c t q \<Longrightarrow> c \<noteq> 0 \<Longrightarrow>
     \<exists>q'. push_pop_pairs mv x n q = Some q' \<and> drained_at c (t + of_nat n) q'"
proof (induction n arbitrary: t q)
  case 0
  then show ?case by simp
next
  case (Suc n)
  from pair_drained [OF Suc.prems] obtain q1 q2 where
    "mpsc_push 0 q x = Some (True, q1)" "mpsc_pop mv q1 = Some (Some x, q2)" "drained_at c (t + 1) q2" .
  with Suc.IH [of "t + 1" q2] Suc.prems show ?case by (auto simp: algebra_simps)
qed

end
