(* ===== verification/Mpsc_Concurrent.thy ===== *)
theory Mpsc_Concurrent
  imports Mpsc_Queue
begin

text \<open>
  \<^verbatim>\<open>push\<close> and \<^verbatim>\<open>pop\<close> of \<^verbatim>\<open>mpmc_queue.hpp\<close> as thread programs: any number of producers (numbered) and
  one consumer, interleaved at every atomic access and at every access to a cell, with the memory
  orders of the source.

  The values stored to \<^verbatim>\<open>head_\<close>, to \<^verbatim>\<open>tail_\<close> and to the \<^verbatim>\<open>is_ready\<close> flag of each cell are kept in
  modification order. A load returns any value not older than the last one the thread has seen of
  that location; a successful compare-exchange reads the last value of \<^verbatim>\<open>head_\<close>, a failed one is a
  load, and a weak one may fail for no reason. A release store carries the vector clock of its
  thread, which an acquire load joins; relaxed stores carry nothing. Every access to a cell, and
  every store to its flag, must be ordered by happens-before after the previous one, otherwise
  \<open>mc_race\<close> is set: this excludes data races on \<^verbatim>\<open>data_\<close>, which moving out of a cell also writes, and
  shows that the flag's stores are totally ordered, as their list supposes. An access outside the
  array, or an index modulo zero, sets \<open>mc_oob\<close>.

  \<open>mc_claims\<close> (values and producers in the order of the successful compare-exchanges), \<open>mc_phase\<close>
  (how far each claim has come), \<open>mc_done\<close> (values for which \<^verbatim>\<open>push\<close> returned true, per producer) and
  \<open>mc_popped\<close> are observers: no step reads them.
\<close>

section \<open>Definitions\<close>

subsection \<open>State\<close>

type_synonym tid = nat

datatype thread = Pr tid | Co

type_synonym vclk = "thread \<Rightarrow> nat"

definition vjoin :: "vclk \<Rightarrow> vclk \<Rightarrow> vclk" where
  "vjoin a b = (\<lambda>t. max (a t) (b t))"

text \<open>The access with epoch \<open>snd a\<close> of thread \<open>fst a\<close> happened before the point of clock \<open>v\<close>.\<close>

definition covers :: "vclk \<Rightarrow> thread \<times> nat \<Rightarrow> bool" where
  "covers v a \<longleftrightarrow> snd a \<le> v (fst a)"

text \<open>Program points of \<^verbatim>\<open>push\<close>, named by what comes next, with the locals \<^verbatim>\<open>value\<close> and \<^verbatim>\<open>head\<close>.\<close>

datatype 'a push_pc =
    Push_Idle
  | Push_Head 'a
  | Push_Tail 'a size_t
  | Push_Cas 'a size_t
  | Push_Write 'a size_t
  | Push_Publish 'a size_t

text \<open>Program points of \<^verbatim>\<open>pop\<close>, with the local \<^verbatim>\<open>tail\<close> and, once read, the value.\<close>

datatype 'a pop_pc =
    Pop_Idle
  | Pop_Head size_t
  | Pop_Ready size_t
  | Pop_Move size_t
  | Pop_Clear 'a size_t
  | Pop_Advance 'a size_t

datatype phase = Claimed | Written | Published | Moved | Cleared

record 'a mpsc_conc =
  mc_capacity :: size_t
  mc_data :: "'a list"
  mc_ready :: "nat \<Rightarrow> (bool \<times> vclk) list"
  mc_heads :: "size_t list"
  mc_tails :: "(size_t \<times> vclk) list"
  mc_prod :: "tid \<Rightarrow> 'a push_pc"
  mc_push_ret :: "tid \<Rightarrow> bool option"
  mc_cons :: "'a pop_pc"
  mc_pop_ret :: "bool option"
  mc_clk :: "thread \<Rightarrow> vclk"
  mc_head_seen :: "thread \<Rightarrow> nat"
  mc_tail_seen :: "tid \<Rightarrow> nat"
  mc_ready_seen :: "nat \<Rightarrow> nat"
  mc_last :: "nat \<Rightarrow> thread \<times> nat"
  mc_race :: bool
  mc_oob :: bool
  mc_claims :: "('a \<times> tid) list"
  mc_phase :: "nat \<Rightarrow> phase"
  mc_done :: "tid \<Rightarrow> 'a list"
  mc_popped :: "'a list"

subsection \<open>Accesses to a cell\<close>

definition cell_of :: "'a mpsc_conc \<Rightarrow> size_t \<Rightarrow> nat" where
  "cell_of s idx = (case mpsc_element (mc_capacity s) idx of None \<Rightarrow> length (mc_data s) | Some i \<Rightarrow> i)"

definition cell_access :: "thread \<Rightarrow> nat \<Rightarrow> 'a mpsc_conc \<Rightarrow> 'a mpsc_conc" where
  "cell_access t i s =
     (let e = mc_clk s t t + 1 in
      s\<lparr>mc_clk := (mc_clk s)(t := (mc_clk s t)(t := e)),
        mc_last := (mc_last s)(i := (t, e)),
        mc_race := (mc_race s \<or> \<not> covers (mc_clk s t) (mc_last s i)),
        mc_oob := (mc_oob s \<or> length (mc_data s) \<le> i)\<rparr>)"

subsection \<open>The steps of push\<close>

text \<open>\<^verbatim>\<open>head_.load(relaxed)\<close>: the value of index \<open>i\<close> in modification order.\<close>

definition push_load_head :: "tid \<Rightarrow> nat \<Rightarrow> 'a \<Rightarrow> 'a mpsc_conc \<Rightarrow> 'a mpsc_conc option" where
  "push_load_head p i x s =
     (if mc_head_seen s (Pr p) \<le> i \<and> i < length (mc_heads s)
      then Some (s\<lparr>mc_head_seen := (mc_head_seen s)(Pr p := i),
                   mc_prod := (mc_prod s)(p := Push_Tail x (mc_heads s ! i))\<rparr>)
      else None)"

text \<open>\<^verbatim>\<open>tail_.load(acquire)\<close> and the test for a full queue.\<close>

definition push_load_tail :: "tid \<Rightarrow> nat \<Rightarrow> 'a \<Rightarrow> size_t \<Rightarrow> 'a mpsc_conc \<Rightarrow> 'a mpsc_conc option" where
  "push_load_tail p i x head s =
     (if mc_tail_seen s p \<le> i \<and> i < length (mc_tails s)
      then let (tail, v) = mc_tails s ! i;
               s = s\<lparr>mc_tail_seen := (mc_tail_seen s)(p := i),
                     mc_clk := (mc_clk s)(Pr p := vjoin (mc_clk s (Pr p)) v)\<rparr>
           in if mpsc_is_full (mc_capacity s) head tail
              then Some (s\<lparr>mc_prod := (mc_prod s)(p := Push_Idle),
                           mc_push_ret := (mc_push_ret s)(p := Some False)\<rparr>)
              else Some (s\<lparr>mc_prod := (mc_prod s)(p := Push_Cas x head)\<rparr>)
      else None)"

text \<open>
  \<^verbatim>\<open>head_.compare_exchange_weak(head, head + 1, relaxed, relaxed)\<close>. It succeeds only on the last value
  of \<^verbatim>\<open>head_\<close>, and not when it fails spuriously; a failure reloads \<^verbatim>\<open>head\<close>.
\<close>

definition push_cas :: "tid \<Rightarrow> nat \<Rightarrow> bool \<Rightarrow> 'a \<Rightarrow> size_t \<Rightarrow> 'a mpsc_conc \<Rightarrow> 'a mpsc_conc option" where
  "push_cas p i spurious x head s =
     (if mc_head_seen s (Pr p) \<le> i \<and> i < length (mc_heads s)
      then if Suc i = length (mc_heads s) \<and> mc_heads s ! i = head \<and> \<not> spurious
           then Some (s\<lparr>mc_heads := mc_heads s @ [head + 1],
                        mc_head_seen := (mc_head_seen s)(Pr p := Suc i),
                        mc_prod := (mc_prod s)(p := Push_Write x head),
                        mc_claims := mc_claims s @ [(x, p)],
                        mc_phase := (mc_phase s)(length (mc_claims s) := Claimed)\<rparr>)
           else Some (s\<lparr>mc_head_seen := (mc_head_seen s)(Pr p := i),
                        mc_prod := (mc_prod s)(p := Push_Tail x (mc_heads s ! i))\<rparr>)
      else None)"

text \<open>\<^verbatim>\<open>cell.data_ = value\<close>.\<close>

definition push_write :: "tid \<Rightarrow> 'a \<Rightarrow> size_t \<Rightarrow> 'a mpsc_conc \<Rightarrow> 'a mpsc_conc" where
  "push_write p x head s =
     (let i = cell_of s head; s = cell_access (Pr p) i s in
      s\<lparr>mc_data := (mc_data s)[i := x],
        mc_prod := (mc_prod s)(p := Push_Publish x head),
        mc_phase := (mc_phase s)(unat head := Written)\<rparr>)"

text \<open>\<^verbatim>\<open>cell.is_ready.store(true, release)\<close> and \<^verbatim>\<open>return true\<close>.\<close>

definition push_publish :: "tid \<Rightarrow> 'a \<Rightarrow> size_t \<Rightarrow> 'a mpsc_conc \<Rightarrow> 'a mpsc_conc" where
  "push_publish p x head s =
     (let i = cell_of s head; s = cell_access (Pr p) i s in
      s\<lparr>mc_ready := (mc_ready s)(i := mc_ready s i @ [(True, mc_clk s (Pr p))]),
        mc_prod := (mc_prod s)(p := Push_Idle),
        mc_push_ret := (mc_push_ret s)(p := Some True),
        mc_phase := (mc_phase s)(unat head := Published),
        mc_done := (mc_done s)(p := mc_done s p @ [x])\<rparr>)"

definition push_step :: "tid \<Rightarrow> nat \<Rightarrow> bool \<Rightarrow> 'a mpsc_conc \<Rightarrow> 'a mpsc_conc option" where
  "push_step p i spurious s =
     (case mc_prod s p of
        Push_Idle \<Rightarrow> None
      | Push_Head x \<Rightarrow> push_load_head p i x s
      | Push_Tail x head \<Rightarrow> push_load_tail p i x head s
      | Push_Cas x head \<Rightarrow> push_cas p i spurious x head s
      | Push_Write x head \<Rightarrow> Some (push_write p x head s)
      | Push_Publish x head \<Rightarrow> Some (push_publish p x head s))"

subsection \<open>The steps of pop\<close>

text \<open>\<^verbatim>\<open>head_.load(acquire)\<close> and the test for an empty queue; stores to \<^verbatim>\<open>head_\<close> release nothing.\<close>

definition pop_load_head :: "nat \<Rightarrow> size_t \<Rightarrow> 'a mpsc_conc \<Rightarrow> 'a mpsc_conc option" where
  "pop_load_head i tail s =
     (if mc_head_seen s Co \<le> i \<and> i < length (mc_heads s)
      then let s = s\<lparr>mc_head_seen := (mc_head_seen s)(Co := i)\<rparr> in
           if mpsc_is_empty (mc_heads s ! i) tail
           then Some (s\<lparr>mc_cons := Pop_Idle, mc_pop_ret := Some False\<rparr>)
           else Some (s\<lparr>mc_cons := Pop_Ready tail\<rparr>)
      else None)"

text \<open>\<^verbatim>\<open>cell.is_ready.load(acquire)\<close>.\<close>

definition pop_load_ready :: "nat \<Rightarrow> size_t \<Rightarrow> 'a mpsc_conc \<Rightarrow> 'a mpsc_conc option" where
  "pop_load_ready i tail s =
     (let c = cell_of s tail in
      if mc_ready_seen s c \<le> i \<and> i < length (mc_ready s c)
      then let (ready, v) = mc_ready s c ! i;
               s = s\<lparr>mc_ready_seen := (mc_ready_seen s)(c := i),
                     mc_clk := (mc_clk s)(Co := vjoin (mc_clk s Co) v)\<rparr>
           in if \<not> ready then Some (s\<lparr>mc_cons := Pop_Idle, mc_pop_ret := Some False\<rparr>)
              else Some (s\<lparr>mc_cons := Pop_Move tail\<rparr>)
      else None)"

text \<open>\<^verbatim>\<open>value = std::move(cell.data_)\<close>.\<close>

definition pop_move :: "('a \<Rightarrow> 'a) \<Rightarrow> size_t \<Rightarrow> 'a mpsc_conc \<Rightarrow> 'a mpsc_conc" where
  "pop_move mv tail s =
     (let c = cell_of s tail; value = mc_data s ! c; s = cell_access Co c s in
      s\<lparr>mc_data := (mc_data s)[c := mv value],
        mc_cons := Pop_Clear value tail,
        mc_phase := (mc_phase s)(unat tail := Moved)\<rparr>)"

text \<open>\<^verbatim>\<open>cell.is_ready.store(false, relaxed)\<close>.\<close>

definition pop_clear :: "'a \<Rightarrow> size_t \<Rightarrow> 'a mpsc_conc \<Rightarrow> 'a mpsc_conc" where
  "pop_clear value tail s =
     (let c = cell_of s tail; s = cell_access Co c s in
      s\<lparr>mc_ready := (mc_ready s)(c := mc_ready s c @ [(False, \<lambda>_. 0)]),
        mc_ready_seen := (mc_ready_seen s)(c := length (mc_ready s c)),
        mc_cons := Pop_Advance value tail,
        mc_phase := (mc_phase s)(unat tail := Cleared)\<rparr>)"

text \<open>\<^verbatim>\<open>tail_.store(tail + 1, release)\<close> and \<^verbatim>\<open>return true\<close>.\<close>

definition pop_advance :: "'a \<Rightarrow> size_t \<Rightarrow> 'a mpsc_conc \<Rightarrow> 'a mpsc_conc" where
  "pop_advance value tail s =
     s\<lparr>mc_tails := mc_tails s @ [(tail + 1, mc_clk s Co)],
       mc_cons := Pop_Idle,
       mc_pop_ret := Some True,
       mc_popped := mc_popped s @ [value]\<rparr>"

definition pop_step :: "('a \<Rightarrow> 'a) \<Rightarrow> nat \<Rightarrow> 'a mpsc_conc \<Rightarrow> 'a mpsc_conc option" where
  "pop_step mv i s =
     (case mc_cons s of
        Pop_Idle \<Rightarrow> None
      | Pop_Head tail \<Rightarrow> pop_load_head i tail s
      | Pop_Ready tail \<Rightarrow> pop_load_ready i tail s
      | Pop_Move tail \<Rightarrow> Some (pop_move mv tail s)
      | Pop_Clear value tail \<Rightarrow> Some (pop_clear value tail s)
      | Pop_Advance value tail \<Rightarrow> Some (pop_advance value tail s))"

subsection \<open>Interleavings\<close>

text \<open>
  A producer enters \<^verbatim>\<open>push\<close>; the consumer enters \<^verbatim>\<open>pop\<close>, loading the counter only it writes; a thread
  takes its next step. \<open>i\<close> is the value a load returns.
\<close>

datatype 'a mact = Do_Push tid 'a | Do_Pop | Prod_Step tid nat bool | Cons_Step nat

fun mpsc_step :: "('a \<Rightarrow> 'a) \<Rightarrow> 'a mact \<Rightarrow> 'a mpsc_conc \<Rightarrow> 'a mpsc_conc option" where
  "mpsc_step mv (Do_Push p x) s =
     (case mc_prod s p of Push_Idle \<Rightarrow> Some (s\<lparr>mc_prod := (mc_prod s)(p := Push_Head x)\<rparr>) | _ \<Rightarrow> None)"
| "mpsc_step mv Do_Pop s =
     (case mc_cons s of Pop_Idle \<Rightarrow> Some (s\<lparr>mc_cons := Pop_Head (fst (last (mc_tails s)))\<rparr>) | _ \<Rightarrow> None)"
| "mpsc_step mv (Prod_Step p i spurious) s = push_step p i spurious s"
| "mpsc_step mv (Cons_Step i) s = pop_step mv i s"

fun mpsc_run :: "('a \<Rightarrow> 'a) \<Rightarrow> 'a mact list \<Rightarrow> 'a mpsc_conc \<Rightarrow> 'a mpsc_conc option" where
  "mpsc_run mv [] s = Some s"
| "mpsc_run mv (a # as) s = (case mpsc_step mv a s of None \<Rightarrow> None | Some s' \<Rightarrow> mpsc_run mv as s')"

text \<open>A queue as the constructor leaves it, before the threads start.\<close>

definition mpsc_conc_init :: "'a mpsc_queue \<Rightarrow> 'a mpsc_conc" where
  "mpsc_conc_init q = \<lparr>
     mc_capacity = mq_capacity q, mc_data = map cell_data (mq_items q),
     mc_ready = (\<lambda>i. [(if i < length (mq_items q) then cell_is_ready (mq_items q ! i) else False, \<lambda>_. 0)]),
     mc_heads = [mq_head q], mc_tails = [(mq_tail q, \<lambda>_. 0)],
     mc_prod = (\<lambda>_. Push_Idle), mc_push_ret = (\<lambda>_. None), mc_cons = Pop_Idle, mc_pop_ret = None,
     mc_clk = (\<lambda>_ _. 0), mc_head_seen = (\<lambda>_. 0), mc_tail_seen = (\<lambda>_. 0), mc_ready_seen = (\<lambda>_. 0),
     mc_last = (\<lambda>_. (Co, 0)), mc_race = False, mc_oob = False,
     mc_claims = [], mc_phase = (\<lambda>_. Claimed), mc_done = (\<lambda>_. []), mc_popped = [] \<rparr>"

inductive mpsc_reachable :: "('a \<Rightarrow> 'a) \<Rightarrow> 'a mpsc_conc \<Rightarrow> bool" for mv where
  fresh: "mpsc_create av d c = Inr (q, ev) \<Longrightarrow> mpsc_reachable mv (mpsc_conc_init q)"
| further: "mpsc_reachable mv s \<Longrightarrow> mpsc_step mv a s = Some s' \<Longrightarrow> mpsc_reachable mv s'"

end
