(* ===== verification/Mpsc_Invariant.thy ===== *)
theory Mpsc_Invariant
  imports Mpsc_Concurrent
begin

text \<open>
  The invariant of the concurrent queue and its preservation by every step.

  Claim \<open>c\<close> is the successful compare-exchange of \<^verbatim>\<open>head_\<close> from \<open>c\<close> to \<open>c + 1\<close>; it uses cell
  \<open>c mod capacity\<close>. The claims from \<open>npo s\<close> to \<open>ncl s\<close> are live, at most a capacity of them, so their
  cells differ. \<open>claim_inv\<close> says, for each phase of a live claim, what its cell holds and who has seen
  its last access; \<open>free_inv\<close> says that whoever loads a value of \<^verbatim>\<open>tail_\<close> that frees a cell has seen the
  consumer's last access to it. All of this holds as long as fewer than \<open>2 ^ 64\<close> values have been
  claimed; after that a stale \<^verbatim>\<open>tail_\<close> could be mistaken for a recent one.
\<close>

section \<open>Definitions\<close>

abbreviation ncl :: "'a mpsc_conc \<Rightarrow> nat" where "ncl s \<equiv> length (mc_claims s)"
abbreviation npo :: "'a mpsc_conc \<Rightarrow> nat" where "npo s \<equiv> length (mc_popped s)"
abbreviation mcap :: "'a mpsc_conc \<Rightarrow> nat" where "mcap s \<equiv> unat (mc_capacity s)"
abbreviation slot_of :: "'a mpsc_conc \<Rightarrow> nat \<Rightarrow> nat" where "slot_of s c \<equiv> c mod mcap s"
abbreviation is_rdy :: "'a mpsc_conc \<Rightarrow> nat \<Rightarrow> bool" where "is_rdy s i \<equiv> fst (last (mc_ready s i))"
abbreviation rdy_clk :: "'a mpsc_conc \<Rightarrow> nat \<Rightarrow> vclk" where "rdy_clk s i \<equiv> snd (last (mc_ready s i))"

definition counts_inv :: "'a mpsc_conc \<Rightarrow> bool" where
  "counts_inv s \<longleftrightarrow>
     ncl s < 2 ^ 64 \<and> npo s \<le> ncl s \<and> ncl s \<le> npo s + mcap s \<and> length (mc_data s) = mcap s \<and>
     mc_heads s = map of_nat [0..<Suc (ncl s)] \<and> map fst (mc_tails s) = map of_nat [0..<Suc (npo s)] \<and>
     mc_popped s = take (npo s) (map fst (mc_claims s)) \<and>
     npo s \<le> mc_head_seen s Co \<and> (\<forall>t. mc_head_seen s t \<le> ncl s) \<and> (\<forall>p. mc_tail_seen s p \<le> npo s) \<and>
     (\<forall>t. snd (last (mc_tails s)) t \<le> mc_clk s Co t)"

definition claim_inv :: "'a mpsc_conc \<Rightarrow> nat \<Rightarrow> bool" where
  "claim_inv s c \<longleftrightarrow>
     (let x = fst (mc_claims s ! c); p = snd (mc_claims s ! c); i = slot_of s c in
      case mc_phase s c of
        Claimed \<Rightarrow> mc_prod s p = Push_Write x (of_nat c) \<and> \<not> is_rdy s i \<and>
                   covers (mc_clk s (Pr p)) (mc_last s i)
      | Written \<Rightarrow> mc_prod s p = Push_Publish x (of_nat c) \<and> \<not> is_rdy s i \<and>
                   covers (mc_clk s (Pr p)) (mc_last s i) \<and> mc_data s ! i = x
      | Published \<Rightarrow> is_rdy s i \<and> covers (rdy_clk s i) (mc_last s i) \<and> mc_data s ! i = x
      | Moved \<Rightarrow> c = npo s \<and> mc_cons s = Pop_Clear x (of_nat c) \<and> is_rdy s i \<and>
                 covers (mc_clk s Co) (mc_last s i)
      | Cleared \<Rightarrow> c = npo s \<and> mc_cons s = Pop_Advance x (of_nat c) \<and> \<not> is_rdy s i \<and>
                   covers (mc_clk s Co) (mc_last s i))"

definition free_inv :: "'a mpsc_conc \<Rightarrow> nat \<Rightarrow> bool" where
  "free_inv s c \<longleftrightarrow> \<not> is_rdy s (slot_of s c) \<and>
     (\<forall>j \<le> npo s. c < j + mcap s \<longrightarrow> covers (snd (mc_tails s ! j)) (mc_last s (slot_of s c)))"

definition prod_inv :: "'a mpsc_conc \<Rightarrow> tid \<Rightarrow> bool" where
  "prod_inv s p \<longleftrightarrow>
     (case mc_prod s p of
        Push_Cas x h \<Rightarrow> \<exists>j \<le> npo s. \<not> mpsc_is_full (mc_capacity s) h (of_nat j) \<and>
                          (\<forall>t. snd (mc_tails s ! j) t \<le> mc_clk s (Pr p) t)
      | Push_Write x h \<Rightarrow> \<exists>c. npo s \<le> c \<and> c < ncl s \<and> h = of_nat c \<and>
                            mc_claims s ! c = (x, p) \<and> mc_phase s c = Claimed
      | Push_Publish x h \<Rightarrow> \<exists>c. npo s \<le> c \<and> c < ncl s \<and> h = of_nat c \<and>
                              mc_claims s ! c = (x, p) \<and> mc_phase s c = Written
      | _ \<Rightarrow> True)"

definition cons_inv :: "'a mpsc_conc \<Rightarrow> bool" where
  "cons_inv s \<longleftrightarrow>
     (let k = npo s in
      case mc_cons s of
        Pop_Idle \<Rightarrow> True
      | Pop_Head t \<Rightarrow> t = of_nat k
      | Pop_Ready t \<Rightarrow> t = of_nat k \<and> k < mc_head_seen s Co
      | Pop_Move t \<Rightarrow> t = of_nat k \<and> k < mc_head_seen s Co \<and> mc_phase s k = Published \<and>
                      covers (mc_clk s Co) (mc_last s (slot_of s k))
      | Pop_Clear v t \<Rightarrow> t = of_nat k \<and> k < mc_head_seen s Co \<and> mc_phase s k = Moved \<and> v = fst (mc_claims s ! k)
      | Pop_Advance v t \<Rightarrow> t = of_nat k \<and> k < mc_head_seen s Co \<and> mc_phase s k = Cleared \<and> v = fst (mc_claims s ! k))"

text \<open>Among the values of a flag that the consumer may still read, only the last can be true.\<close>

definition ready_inv :: "'a mpsc_conc \<Rightarrow> nat \<Rightarrow> bool" where
  "ready_inv s i \<longleftrightarrow> mc_ready_seen s i < length (mc_ready s i) \<and>
     (\<forall>l. mc_ready_seen s i \<le> l \<longrightarrow> Suc l < length (mc_ready s i) \<longrightarrow> \<not> fst (mc_ready s i ! l))"

text \<open>A producer's successful calls are its claims, but for the one it is working on.\<close>

definition pending_push :: "'a push_pc \<Rightarrow> 'a list" where
  "pending_push pc = (case pc of Push_Write x h \<Rightarrow> [x] | Push_Publish x h \<Rightarrow> [x] | _ \<Rightarrow> [])"

definition claimed_by :: "'a mpsc_conc \<Rightarrow> tid \<Rightarrow> 'a list" where
  "claimed_by s p = map fst (filter (\<lambda>a. snd a = p) (mc_claims s))"

definition done_inv :: "'a mpsc_conc \<Rightarrow> bool" where
  "done_inv s \<longleftrightarrow> (\<forall>p. claimed_by s p = mc_done s p @ pending_push (mc_prod s p))"

definition mpsc_conc_inv :: "'a mpsc_conc \<Rightarrow> bool" where
  "mpsc_conc_inv s \<longleftrightarrow>
     counts_inv s \<and> (\<forall>c. npo s \<le> c \<longrightarrow> c < ncl s \<longrightarrow> claim_inv s c) \<and>
     (\<forall>c. ncl s \<le> c \<longrightarrow> c < npo s + mcap s \<longrightarrow> free_inv s c) \<and>
     (\<forall>p. prod_inv s p) \<and> cons_inv s \<and> (\<forall>i. ready_inv s i) \<and> done_inv s \<and>
     \<not> mc_race s \<and> \<not> mc_oob s"

section \<open>Basic facts\<close>

lemma covers_mono: "covers v a \<Longrightarrow> (\<And>t. v t \<le> w t) \<Longrightarrow> covers w a"
  by (auto simp: covers_def intro: order_trans)

lemma vjoin_ge [simp]: "a t \<le> vjoin a b t" "b t \<le> vjoin a b t"
  by (simp_all add: vjoin_def)

lemma mpsc_conc_invI:
  assumes "counts_inv s" "\<And>c. npo s \<le> c \<Longrightarrow> c < ncl s \<Longrightarrow> claim_inv s c"
    "\<And>c. ncl s \<le> c \<Longrightarrow> c < npo s + mcap s \<Longrightarrow> free_inv s c" "\<And>p. prod_inv s p" "cons_inv s"
    "\<And>i. ready_inv s i" "done_inv s" "\<not> mc_race s" "\<not> mc_oob s"
  shows "mpsc_conc_inv s"
  using assms by (simp add: mpsc_conc_inv_def)

lemma mpsc_conc_invD:
  assumes "mpsc_conc_inv s"
  shows "counts_inv s" "npo s \<le> c \<Longrightarrow> c < ncl s \<Longrightarrow> claim_inv s c"
    "ncl s \<le> c \<Longrightarrow> c < npo s + mcap s \<Longrightarrow> free_inv s c" "prod_inv s p" "cons_inv s"
    "ready_inv s i" "done_inv s" "\<not> mc_race s" "\<not> mc_oob s"
  using assms by (simp_all add: mpsc_conc_inv_def)

lemma counts_invD:
  assumes "counts_inv s"
  shows "ncl s < 2 ^ 64" "npo s \<le> ncl s" "ncl s \<le> npo s + mcap s" "length (mc_data s) = mcap s"
    "mc_heads s = map of_nat [0..<Suc (ncl s)]" "map fst (mc_tails s) = map of_nat [0..<Suc (npo s)]"
    "mc_popped s = take (npo s) (map fst (mc_claims s))"
    "npo s \<le> mc_head_seen s Co" "mc_head_seen s t \<le> ncl s" "mc_tail_seen s p \<le> npo s"
    "snd (last (mc_tails s)) t \<le> mc_clk s Co t"
  using assms by (simp_all add: counts_inv_def)

lemma tails_nth:
  assumes "counts_inv s"
  shows "length (mc_tails s) = Suc (npo s)" "j \<le> npo s \<Longrightarrow> fst (mc_tails s ! j) = of_nat j"
    "last (mc_tails s) = mc_tails s ! npo s"
proof -
  have m: "map fst (mc_tails s) = map of_nat [0..<Suc (npo s)]" using assms by (rule counts_invD)
  then show l: "length (mc_tails s) = Suc (npo s)" by (metis length_map length_upt diff_zero)
  show "fst (mc_tails s ! j) = of_nat j" if "j \<le> npo s"
    using arg_cong [OF m, of "\<lambda>xs. xs ! j"] that l by (simp del: upt_Suc)
  show "last (mc_tails s) = mc_tails s ! npo s" using l by (subst last_conv_nth) auto
qed

lemma heads_nth:
  assumes "counts_inv s"
  shows "length (mc_heads s) = Suc (ncl s)" "j \<le> ncl s \<Longrightarrow> mc_heads s ! j = of_nat j"
  using counts_invD(5) [OF assms] by (simp_all del: upt_Suc)

lemma unat_claim: "c < 2 ^ 64 \<Longrightarrow> unat (of_nat c :: size_t) = c"
  by (simp add: unat_of_nat)

lemma cell_of_claim:
  assumes "c < 2 ^ 64" "0 < mcap s"
  shows "cell_of s (of_nat c) = slot_of s c"
  using assms by (simp add: cell_of_def mpsc_element_def unat_mod unat_claim unat_gt_0)

text \<open>Live and free claims within one capacity use different cells.\<close>

lemma slot_of_inj:
  assumes "npo s \<le> c" "c < npo s + mcap s" "npo s \<le> d" "d < npo s + mcap s" "slot_of s c = slot_of s d"
  shows "c = d"
proof -
  have "c - npo s = d - npo s"
    by (rule mod_window_inj [of _ "mcap s" _ "npo s"]) (use assms in auto)
  with assms show ?thesis by linarith
qed

lemma newest_values:
  assumes "mpsc_conc_inv s"
  shows "length (mc_heads s) = Suc (ncl s)" "mc_heads s ! ncl s = of_nat (ncl s)" "last (mc_heads s) = of_nat (ncl s)"
    "length (mc_tails s) = Suc (npo s)" "fst (mc_tails s ! npo s) = of_nat (npo s)"
    "fst (last (mc_tails s)) = of_nat (npo s)" "mc_head_seen s t \<le> ncl s" "mc_tail_seen s p \<le> npo s"
proof -
  note C = mpsc_conc_invD(1) [OF assms]
  show "length (mc_heads s) = Suc (ncl s)" "mc_heads s ! ncl s = of_nat (ncl s)"
    using heads_nth [OF C] by simp_all
  then show "last (mc_heads s) = of_nat (ncl s)" by (subst last_conv_nth) auto
  show "length (mc_tails s) = Suc (npo s)" "fst (mc_tails s ! npo s) = of_nat (npo s)"
    "fst (last (mc_tails s)) = of_nat (npo s)" using tails_nth [OF C] by simp_all
  show "mc_head_seen s t \<le> ncl s" "mc_tail_seen s p \<le> npo s" using counts_invD(9,10) [OF C] by simp_all
qed

section \<open>What a step leaves alone\<close>

text \<open>
  A claim is undisturbed by a step that keeps its cell, its phase and the program point of the
  thread working on it. Clocks only grow.
\<close>

lemma claim_inv_frame:
  assumes "claim_inv s c"
    and "npo s' = npo s" "mc_capacity s' = mc_capacity s" "mc_claims s' ! c = mc_claims s ! c"
    and "mc_phase s' c = mc_phase s c"
    and "mc_ready s' (slot_of s c) = mc_ready s (slot_of s c)"
    and "mc_last s' (slot_of s c) = mc_last s (slot_of s c)"
    and "mc_data s' ! slot_of s c = mc_data s ! slot_of s c"
    and "\<And>t u. mc_clk s t u \<le> mc_clk s' t u"
    and "mc_phase s c \<in> {Claimed, Written} \<Longrightarrow>
           mc_prod s' (snd (mc_claims s ! c)) = mc_prod s (snd (mc_claims s ! c))"
    and "mc_phase s c \<in> {Moved, Cleared} \<Longrightarrow> mc_cons s' = mc_cons s"
  shows "claim_inv s' c"
  using assms by (auto simp: claim_inv_def Let_def split: phase.splits intro: covers_mono)

lemma free_inv_frame:
  assumes "free_inv s c"
    and "mc_tails s' = mc_tails s" "npo s' = npo s" "mc_capacity s' = mc_capacity s"
    and "mc_ready s' (slot_of s c) = mc_ready s (slot_of s c)"
    and "mc_last s' (slot_of s c) = mc_last s (slot_of s c)"
  shows "free_inv s' c"
  using assms by (simp add: free_inv_def)

lemma prod_inv_frame:
  assumes "prod_inv s p" "mc_prod s' p = mc_prod s p"
    and "mc_tails s' = mc_tails s" "npo s' = npo s" "mc_capacity s' = mc_capacity s"
    and "ncl s \<le> ncl s'" "\<And>c. c < ncl s \<Longrightarrow> mc_claims s' ! c = mc_claims s ! c"
    and "\<And>c. c < ncl s \<Longrightarrow> npo s \<le> c \<Longrightarrow> snd (mc_claims s ! c) = p \<Longrightarrow> mc_phase s c \<in> {Claimed, Written} \<Longrightarrow>
           mc_phase s' c = mc_phase s c"
    and "\<And>u. mc_clk s (Pr p) u \<le> mc_clk s' (Pr p) u"
  shows "prod_inv s' p"
proof -
  have own: "\<exists>c. npo s' \<le> c \<and> c < ncl s' \<and> h = of_nat c \<and> mc_claims s' ! c = (x, p) \<and> mc_phase s' c = ph"
    if "\<exists>c. npo s \<le> c \<and> c < ncl s \<and> h = of_nat c \<and> mc_claims s ! c = (x, p) \<and> mc_phase s c = ph"
      "ph \<in> {Claimed, Written}" for x h ph
    using that assms(4,6,7,8) by (metis order.strict_trans2 snd_conv)
  show ?thesis
    using assms(1-5) own assms(9)
    by (auto simp: prod_inv_def split: push_pc.splits; blast intro: order_trans)
qed

text \<open>
  Steps that only load: the shared state is the same, and no thread is in the middle of work on a
  cell before or after, other than those that do not move.
\<close>

lemma local_step_inv:
  assumes inv: "mpsc_conc_inv s"
    and same: "mc_capacity s' = mc_capacity s" "mc_data s' = mc_data s" "mc_ready s' = mc_ready s"
      "mc_heads s' = mc_heads s" "mc_tails s' = mc_tails s" "mc_last s' = mc_last s"
      "mc_race s' = mc_race s" "mc_oob s' = mc_oob s" "mc_claims s' = mc_claims s"
      "mc_phase s' = mc_phase s" "mc_done s' = mc_done s" "mc_popped s' = mc_popped s"
    and clk: "\<And>t u. mc_clk s t u \<le> mc_clk s' t u"
    and seen: "\<And>t. mc_head_seen s' t \<le> ncl s" "npo s \<le> mc_head_seen s' Co" "\<And>p. mc_tail_seen s' p \<le> npo s"
    and prod: "\<And>p. mc_prod s' p = mc_prod s p \<or>
                 prod_inv s' p \<and> pending_push (mc_prod s p) = [] \<and> pending_push (mc_prod s' p) = []"
    and cons: "mc_cons s' = mc_cons s \<or> (npo s < ncl s \<longrightarrow> mc_phase s (npo s) \<notin> {Moved, Cleared})"
    and "cons_inv s'" "\<And>i. ready_inv s' i"
  shows "mpsc_conc_inv s'"
proof (rule mpsc_conc_invI)
  note D = mpsc_conc_invD [OF inv]
  note C = counts_invD [OF D(1)]
  show "counts_inv s'"
    using C seen order_trans [OF C(11) clk] unfolding counts_inv_def same by simp
  show "claim_inv s' c" if c: "npo s' \<le> c" "c < ncl s'" for c
  proof (rule claim_inv_frame)
    show ci: "claim_inv s c" using D(2) c same by simp
    show "mc_prod s' (snd (mc_claims s ! c)) = mc_prod s (snd (mc_claims s ! c))"
      if "mc_phase s c \<in> {Claimed, Written}"
      using that ci prod [of "snd (mc_claims s ! c)"]
      by (auto simp: claim_inv_def Let_def pending_push_def)
    show "mc_cons s' = mc_cons s" if "mc_phase s c \<in> {Moved, Cleared}"
      using that ci cons c same(9,12) by (auto simp: claim_inv_def Let_def)
  qed (use same clk in simp_all)
  show "free_inv s' c" if "ncl s' \<le> c" "c < npo s' + mcap s'" for c
    by (rule free_inv_frame [OF D(3)]) (use that same in simp_all)
  show "prod_inv s' p" for p
  proof (cases "mc_prod s' p = mc_prod s p")
    case True
    show ?thesis by (rule prod_inv_frame [OF D(4)]) (use True same clk in simp_all)
  qed (use prod in blast)
  show "done_inv s'"
    unfolding done_inv_def claimed_by_def same
  proof
    fix p
    have "pending_push (mc_prod s' p) = pending_push (mc_prod s p)" using prod [of p] by auto
    then show "map fst (filter (\<lambda>a. snd a = p) (mc_claims s)) = mc_done s p @ pending_push (mc_prod s' p)"
      using D(7) by (simp add: done_inv_def claimed_by_def)
  qed
qed (use assms mpsc_conc_invD [OF inv] in simp_all)

lemma ready_inv_frame:
  "ready_inv s i \<Longrightarrow> mc_ready s' i = mc_ready s i \<Longrightarrow> mc_ready_seen s' i = mc_ready_seen s i \<Longrightarrow> ready_inv s' i"
  by (simp add: ready_inv_def)

lemma cons_inv_frame:
  assumes "cons_inv s" "mc_cons s' = mc_cons s" "npo s' = npo s" "mc_capacity s' = mc_capacity s"
    and "mc_phase s (npo s) \<in> {Published, Moved, Cleared} \<Longrightarrow> npo s < mc_head_seen s Co \<Longrightarrow> mc_phase s' (npo s) = mc_phase s (npo s)"
    and "npo s < mc_head_seen s Co \<Longrightarrow> mc_claims s' ! npo s = mc_claims s ! npo s"
    and "mc_phase s (npo s) = Published \<Longrightarrow> npo s < mc_head_seen s Co \<Longrightarrow> mc_last s' (slot_of s (npo s)) = mc_last s (slot_of s (npo s))"
    and "mc_head_seen s' Co = mc_head_seen s Co" "\<And>u. mc_clk s Co u \<le> mc_clk s' Co u"
  shows "cons_inv s'"
  using assms by (auto simp: cons_inv_def Let_def split: pop_pc.splits intro: covers_mono)

text \<open>Outside \<^verbatim>\<open>pop\<close>'s work on a cell, the oldest live claim is still its producer's or published.\<close>

lemma not_popping:
  assumes "mpsc_conc_inv s" "npo s < ncl s" "\<And>v t. mc_cons s \<noteq> Pop_Clear v t" "\<And>v t. mc_cons s \<noteq> Pop_Advance v t"
  shows "mc_phase s (npo s) \<notin> {Moved, Cleared}"
  using mpsc_conc_invD(2) [OF assms(1), of "npo s"] assms(2-4) by (auto simp: claim_inv_def Let_def)

section \<open>The steps that only load\<close>

lemma push_load_head_inv:
  assumes inv: "mpsc_conc_inv s" and pc: "mc_prod s p = Push_Head x"
    and st: "push_load_head p i x s = Some s'"
  shows "mpsc_conc_inv s'"
proof -
  note D = mpsc_conc_invD [OF inv]
  note C = counts_invD(8-10) [OF D(1)]
  from st have i: "i \<le> ncl s"
    and s': "s' = s\<lparr>mc_head_seen := (mc_head_seen s)(Pr p := i), mc_prod := (mc_prod s)(p := Push_Tail x (mc_heads s ! i))\<rparr>"
    using heads_nth(1) [OF D(1)] by (auto simp: push_load_head_def split: if_splits)
  have "cons_inv s'" by (rule cons_inv_frame [OF D(5)]) (simp_all add: s')
  moreover have "ready_inv s' j" for j by (rule ready_inv_frame [OF D(6)]) (simp_all add: s')
  ultimately show ?thesis
    by (rule local_step_inv [OF inv, rotated -2]) (use C i pc in \<open>auto simp: s' prod_inv_def pending_push_def\<close>)
qed

lemma push_load_tail_inv:
  assumes inv: "mpsc_conc_inv s" and pc: "mc_prod s p = Push_Tail x h"
    and st: "push_load_tail p i x h s = Some s'"
  shows "mpsc_conc_inv s'"
proof -
  note D = mpsc_conc_invD [OF inv]
  note C = counts_invD(8-10) [OF D(1)]
  define v where "v = snd (mc_tails s ! i)"
  from st have i: "i \<le> npo s" using tails_nth(1) [OF D(1)] by (auto simp: push_load_tail_def split: if_splits)
  define full where "full = mpsc_is_full (mc_capacity s) h (of_nat i)"
  define pc' where "pc' = (if full then Push_Idle else Push_Cas x h)"
  define r where "r = (if full then (mc_push_ret s)(p := Some False) else mc_push_ret s)"
  have s': "s' = s\<lparr>mc_tail_seen := (mc_tail_seen s)(p := i),
       mc_clk := (mc_clk s)(Pr p := vjoin (mc_clk s (Pr p)) v), mc_prod := (mc_prod s)(p := pc'), mc_push_ret := r\<rparr>"
    using st tails_nth(2) [OF D(1) i]
    by (auto simp: push_load_tail_def case_prod_beta Let_def v_def full_def pc'_def r_def split: if_splits)
  have pc': "pc' = Push_Idle \<or> pc' = Push_Cas x h \<and> \<not> mpsc_is_full (mc_capacity s) h (of_nat i)"
    by (simp add: pc'_def full_def)
  have "cons_inv s'" by (rule cons_inv_frame [OF D(5)]) (simp_all add: s')
  moreover have "ready_inv s' j" for j by (rule ready_inv_frame [OF D(6)]) (simp_all add: s')
  moreover
  have "prod_inv s' p"
    using pc' i by (auto simp: s' prod_inv_def v_def intro!: exI [of _ i])
  then have "mc_prod s' q = mc_prod s q \<or>
      prod_inv s' q \<and> pending_push (mc_prod s q) = [] \<and> pending_push (mc_prod s' q) = []" for q
    using pc pc' by (cases "q = p") (auto simp: s' pending_push_def)
  ultimately show ?thesis
    by (intro local_step_inv [OF inv]) (use C i in \<open>auto simp: s'\<close>)
qed

lemma push_cas_fails_inv:
  assumes inv: "mpsc_conc_inv s" and pc: "mc_prod s p = Push_Cas x h"
    and st: "push_cas p i w x h s = Some s'"
    and f: "\<not> (Suc i = length (mc_heads s) \<and> mc_heads s ! i = h \<and> \<not> w)"
  shows "mpsc_conc_inv s'"
proof -
  note D = mpsc_conc_invD [OF inv]
  note C = counts_invD(8-10) [OF D(1)]
  from st f have i: "i \<le> ncl s"
    and s': "s' = s\<lparr>mc_head_seen := (mc_head_seen s)(Pr p := i), mc_prod := (mc_prod s)(p := Push_Tail x (mc_heads s ! i))\<rparr>"
    using heads_nth(1) [OF D(1)] by (auto simp: push_cas_def split: if_splits)
  have "cons_inv s'" by (rule cons_inv_frame [OF D(5)]) (simp_all add: s')
  moreover have "ready_inv s' j" for j by (rule ready_inv_frame [OF D(6)]) (simp_all add: s')
  ultimately show ?thesis
    by (rule local_step_inv [OF inv, rotated -2]) (use C i pc in \<open>auto simp: s' prod_inv_def pending_push_def\<close>)
qed

lemma call_inv:
  assumes inv: "mpsc_conc_inv s" and st: "mpsc_step mv a s = Some s'" and a: "a = Do_Push p x \<or> a = Do_Pop"
  shows "mpsc_conc_inv s'"
  using a
proof
  assume "a = Do_Push p x"
  note D = mpsc_conc_invD [OF inv]
  note C = counts_invD(8-10) [OF D(1)]
  have pc: "mc_prod s p = Push_Idle" and s': "s' = s\<lparr>mc_prod := (mc_prod s)(p := Push_Head x)\<rparr>"
    using st \<open>a = Do_Push p x\<close> by (auto split: push_pc.splits)
  have "cons_inv s'" by (rule cons_inv_frame [OF D(5)]) (simp_all add: s')
  moreover have "ready_inv s' j" for j by (rule ready_inv_frame [OF D(6)]) (simp_all add: s')
  ultimately show ?thesis
    by (rule local_step_inv [OF inv, rotated -2]) (use C pc in \<open>auto simp: s' prod_inv_def pending_push_def\<close>)
next
  assume "a = Do_Pop"
  note D = mpsc_conc_invD [OF inv]
  note C = counts_invD(8-10) [OF D(1)]
  have pc: "mc_cons s = Pop_Idle" and s': "s' = s\<lparr>mc_cons := Pop_Head (of_nat (npo s))\<rparr>"
    using st \<open>a = Do_Pop\<close> tails_nth(2,3) [OF D(1)] by (auto split: pop_pc.splits)
  have "cons_inv s'" by (simp add: s' cons_inv_def)
  moreover have "ready_inv s' j" for j by (rule ready_inv_frame [OF D(6)]) (simp_all add: s')
  ultimately show ?thesis
    by (rule local_step_inv [OF inv, rotated -2]) (use C pc not_popping [OF inv] in \<open>auto simp: s'\<close>)
qed

lemma pop_load_head_inv:
  fixes s :: "'a mpsc_conc"
  assumes inv: "mpsc_conc_inv s" and pc: "mc_cons s = Pop_Head t"
    and st: "pop_load_head i t s = Some s'"
  shows "mpsc_conc_inv s'"
proof -
  note D = mpsc_conc_invD [OF inv]
  note C = counts_invD(8-10) [OF D(1)]
  have t: "t = of_nat (npo s)" using D(5) pc by (simp add: cons_inv_def)
  from st have i: "i \<le> ncl s" "mc_head_seen s Co \<le> i"
    using heads_nth(1) [OF D(1)] by (auto simp: pop_load_head_def split: if_splits)
  define pc' where "pc' = (if of_nat i = t then Pop_Idle else Pop_Ready t :: 'a pop_pc)"
  define r where "r = (if of_nat i = t then Some False else mc_pop_ret s)"
  have s': "s' = s\<lparr>mc_head_seen := (mc_head_seen s)(Co := i), mc_cons := pc', mc_pop_ret := r\<rparr>"
    using st heads_nth(2) [OF D(1) i(1)]
    by (auto simp: pop_load_head_def Let_def mpsc_is_empty_def pc'_def r_def split: if_splits)
  have pc': "pc' = Pop_Idle \<or> pc' = Pop_Ready t \<and> npo s < i"
    using C(1) i t by (cases "npo s = i") (auto simp: pc'_def)
  have "cons_inv s'" using t pc' by (auto simp: s' cons_inv_def)
  moreover have "ready_inv s' j" for j by (rule ready_inv_frame [OF D(6)]) (simp_all add: s')
  moreover have "npo s \<le> i" using C(1) i(2) by simp
  ultimately show ?thesis
    by (intro local_step_inv [OF inv]) (use C i pc not_popping [OF inv] in \<open>auto simp: s'\<close>)
qed

lemma pop_load_ready_inv:
  fixes s :: "'a mpsc_conc"
  assumes inv: "mpsc_conc_inv s" and pc: "mc_cons s = Pop_Ready t"
    and st: "pop_load_ready i t s = Some s'"
  shows "mpsc_conc_inv s'"
proof -
  note D = mpsc_conc_invD [OF inv]
  note C = counts_invD(8-10) [OF D(1)]
  define k where "k = npo s"
  define v where "v = snd (mc_ready s (slot_of s k) ! i)"
  have t: "t = of_nat k" and k: "k < mc_head_seen s Co" using D(5) pc by (simp_all add: cons_inv_def k_def Let_def)
  then have kn: "k < ncl s" using C(2) [of Co] by simp
  then have cap: "0 < mcap s" and k64: "k < 2 ^ 64"
    using counts_invD(1,3) [OF D(1)] by (auto simp: k_def)
  have cell: "cell_of s t = slot_of s k" using cell_of_claim [OF k64 cap] t by simp
  have i: "mc_ready_seen s (slot_of s k) \<le> i" "i < length (mc_ready s (slot_of s k))"
    using st by (auto simp: pop_load_ready_def cell Let_def split: if_splits)
  define rdy where "rdy = fst (mc_ready s (slot_of s k) ! i)"
  define pc' where "pc' = (if rdy then Pop_Move t else Pop_Idle :: 'a pop_pc)"
  define r where "r = (if rdy then mc_pop_ret s else Some False)"
  have s': "s' = s\<lparr>mc_ready_seen := (mc_ready_seen s)(slot_of s k := i),
       mc_clk := (mc_clk s)(Co := vjoin (mc_clk s Co) v), mc_cons := pc', mc_pop_ret := r\<rparr>"
    using st i by (auto simp: pop_load_ready_def cell Let_def case_prod_beta v_def rdy_def pc'_def r_def split: if_splits)
  have pc': "pc' = Pop_Idle \<or> pc' = Pop_Move t \<and> fst (mc_ready s (slot_of s k) ! i)"
    by (simp add: pc'_def rdy_def)
  have np: "mc_phase s k \<notin> {Moved, Cleared}" using not_popping [OF inv] kn pc by (simp add: k_def)
  have "cons_inv s'"
  proof (cases "pc' = Pop_Idle")
    case False
    with pc' have rdy: "fst (mc_ready s (slot_of s k) ! i)" and pc': "pc' = Pop_Move t" by auto
    with D(6) [of "slot_of s k"] i have "Suc i = length (mc_ready s (slot_of s k))"
      unfolding ready_inv_def by (metis Suc_lessI)
    then have last: "mc_ready s (slot_of s k) ! i = last (mc_ready s (slot_of s k))"
      by (metis Zero_not_Suc diff_Suc_1 last_conv_nth list.size(3))
    have "claim_inv s k" using D(2) kn by (simp add: k_def)
    with rdy np last have "mc_phase s k = Published" "covers v (mc_last s (slot_of s k))"
      by (auto simp: claim_inv_def Let_def v_def split: phase.splits)
    moreover have "covers (vjoin (mc_clk s Co) v) (mc_last s (slot_of s k))"
      using calculation(2) by (rule covers_mono) simp
    ultimately show ?thesis using t k pc' by (simp add: s' cons_inv_def k_def)
  qed (simp add: s' cons_inv_def)
  moreover have "ready_inv s' j" for j
    using D(6) [of j] i by (auto simp: s' ready_inv_def)
  ultimately show ?thesis
    by (intro local_step_inv [OF inv]) (use C i np k in \<open>auto simp: s' k_def\<close>)
qed

section \<open>The steps on a cell\<close>

text \<open>A step on the cell of a live claim \<open>c\<close>, by its producer or by the consumer, concerns no other claim.\<close>

lemma cell_step_inv:
  assumes inv: "mpsc_conc_inv s" and c: "npo s \<le> c" "c < ncl s" and own: "snd (mc_claims s ! c) = p"
    and same: "mc_capacity s' = mc_capacity s" "mc_heads s' = mc_heads s" "mc_tails s' = mc_tails s"
      "mc_claims s' = mc_claims s" "mc_popped s' = mc_popped s" "length (mc_data s') = length (mc_data s)"
      "mc_head_seen s' = mc_head_seen s" "mc_tail_seen s' = mc_tail_seen s"
    and cells: "\<And>j. j \<noteq> slot_of s c \<Longrightarrow> mc_data s' ! j = mc_data s ! j"
      "\<And>j. j \<noteq> slot_of s c \<Longrightarrow> mc_ready s' j = mc_ready s j"
      "\<And>j. j \<noteq> slot_of s c \<Longrightarrow> mc_ready_seen s' j = mc_ready_seen s j"
      "\<And>j. j \<noteq> slot_of s c \<Longrightarrow> mc_last s' j = mc_last s j"
    and phases: "\<And>d. d \<noteq> c \<Longrightarrow> mc_phase s' d = mc_phase s d"
    and clk: "\<And>t u. mc_clk s t u \<le> mc_clk s' t u"
    and prod: "\<And>q. q \<noteq> p \<Longrightarrow> mc_prod s' q = mc_prod s q"
      "mc_prod s' p = mc_prod s p \<or>
       (\<exists>y. mc_prod s p = Push_Write y (of_nat c) \<or> mc_prod s p = Push_Publish y (of_nat c))"
    and cons: "mc_cons s' = mc_cons s \<or> c = npo s"
    and new: "claim_inv s' c" "prod_inv s' p" "cons_inv s'" "ready_inv s' (slot_of s c)" "done_inv s'"
      "\<not> mc_race s'" "\<not> mc_oob s'"
  shows "mpsc_conc_inv s'"
proof (rule mpsc_conc_invI)
  note D = mpsc_conc_invD [OF inv]
  note C = counts_invD [OF D(1)]
  have c_range: "c < npo s + mcap s" using c C(3) by simp
  show "counts_inv s'"
    using C order_trans [OF C(11) clk] unfolding counts_inv_def same by simp
  show "claim_inv s' d" if d: "npo s' \<le> d" "d < ncl s'" for d
  proof (cases "d = c")
    case False
    from d same have d: "npo s \<le> d" "d < ncl s" by simp_all
    then have ne: "slot_of s d \<noteq> slot_of s c"
      using slot_of_inj [of s d c] False c c_range C(3) by auto
    have ci: "claim_inv s d" using D(2) d by simp
    have "of_nat d \<noteq> (of_nat c :: size_t)"
      using False unat_claim [of c] unat_claim [of d] c d C(1) by (metis order.strict_trans)
    then have "mc_prod s' (snd (mc_claims s ! d)) = mc_prod s (snd (mc_claims s ! d))"
      if "mc_phase s d \<in> {Claimed, Written}"
      using that ci prod by (cases "snd (mc_claims s ! d) = p") (auto simp: claim_inv_def Let_def)
    moreover have "mc_cons s' = mc_cons s" if "mc_phase s d \<in> {Moved, Cleared}"
      using that ci cons False by (auto simp: claim_inv_def Let_def)
    ultimately show ?thesis
      by (intro claim_inv_frame [OF ci]) (use same cells ne phases False clk in simp_all)
  qed (use new in simp)
  show "free_inv s' d" if d: "ncl s' \<le> d" "d < npo s' + mcap s'" for d
  proof -
    from d same have d: "ncl s \<le> d" "d < npo s + mcap s" by simp_all
    then have "slot_of s d \<noteq> slot_of s c"
      using slot_of_inj [of s d c] c c_range C(2) by auto
    then show ?thesis
      by (intro free_inv_frame [OF D(3)]) (use d same cells in simp_all)
  qed
  show "prod_inv s' q" for q
  proof (cases "q = p")
    case False
    then have "mc_phase s' d = mc_phase s d" if "snd (mc_claims s ! d) = q" for d
      using that own phases by (cases "d = c") auto
    then show ?thesis by (intro prod_inv_frame [OF D(4)]) (use False prod same clk in simp_all)
  qed (use new in simp)
  show "ready_inv s' i" for i
  proof (cases "i = slot_of s c")
    case False
    then show ?thesis by (intro ready_inv_frame [OF D(6)]) (use cells in simp_all)
  qed (use new in simp)
qed (use new in simp_all)

lemma claim_facts:
  assumes inv: "mpsc_conc_inv s" and c: "npo s \<le> c" "c < ncl s"
  shows "cell_of s (of_nat c) = slot_of s c" "slot_of s c < length (mc_data s)"
    "unat (of_nat c :: size_t) = c" "claim_inv s c" "slot_of s (npo s) = slot_of s c \<Longrightarrow> c = npo s"
proof -
  note D = mpsc_conc_invD [OF inv]
  note C = counts_invD [OF D(1)]
  have "c < 2 ^ 64" "0 < mcap s" using c C(1,3) by linarith+
  then show "cell_of s (of_nat c) = slot_of s c" "slot_of s c < length (mc_data s)"
    "unat (of_nat c :: size_t) = c"
    using C(4) by (simp_all add: cell_of_claim unat_claim)
  show "claim_inv s c" using D(2) c by simp
  show "c = npo s" if "slot_of s (npo s) = slot_of s c"
    using slot_of_inj [of s c "npo s"] that c C(3) \<open>0 < mcap s\<close> by simp
qed

lemma push_write_inv:
  assumes inv: "mpsc_conc_inv s" and pc: "mc_prod s p = Push_Write x h"
  shows "mpsc_conc_inv (push_write p x h s)"
proof -
  define s' where "s' = push_write p x h s"
  note D = mpsc_conc_invD [OF inv]
  from D(4) [of p] pc obtain c where c: "npo s \<le> c" "c < ncl s" and h: "h = of_nat c"
    and cl: "mc_claims s ! c = (x, p)" and ph: "mc_phase s c = Claimed"
    by (auto simp: prod_inv_def)
  note F = claim_facts [OF inv c]
  define i where "i = slot_of s c"
  define e where "e = Suc (mc_clk s (Pr p) (Pr p))"
  have ci: "\<not> is_rdy s i" "covers (mc_clk s (Pr p)) (mc_last s i)"
    using F(4) ph cl by (simp_all add: claim_inv_def Let_def i_def)
  have s': "s' = s\<lparr>mc_clk := (mc_clk s)(Pr p := (mc_clk s (Pr p))(Pr p := e)),
      mc_last := (mc_last s)(i := (Pr p, e)), mc_race := mc_race s, mc_oob := mc_oob s,
      mc_data := (mc_data s)[i := x], mc_prod := (mc_prod s)(p := Push_Publish x h),
      mc_phase := (mc_phase s)(c := Written)\<rparr>"
    using F ci(2) by (simp add: s'_def push_write_def cell_access_def Let_def h i_def e_def)
  have li: "i < length (mc_data s)" using F(2) by (simp add: i_def)
  have "mpsc_conc_inv s'"
  proof (rule cell_step_inv [OF inv c, of p])
    show "claim_inv s' c"
      using ci(1) cl li by (simp add: claim_inv_def s' h covers_def i_def)
    show "prod_inv s' p" using c h cl by (auto simp: prod_inv_def s' intro!: exI [of _ c])
    show "cons_inv s'"
      using ph F(5) by (intro cons_inv_frame [OF D(5)]) (auto simp: s' e_def i_def)
    show "done_inv s'"
      using D(7) pc by (auto simp: done_inv_def s' claimed_by_def pending_push_def)
    show "ready_inv s' (slot_of s c)" by (rule ready_inv_frame [OF D(6)]) (simp_all add: s')
  qed (use D(8,9) pc h cl in \<open>auto simp: s' i_def e_def\<close>)
  then show ?thesis by (simp add: s'_def)
qed

lemma push_publish_inv:
  assumes inv: "mpsc_conc_inv s" and pc: "mc_prod s p = Push_Publish x h"
  shows "mpsc_conc_inv (push_publish p x h s)"
proof -
  define s' where "s' = push_publish p x h s"
  note D = mpsc_conc_invD [OF inv]
  from D(4) [of p] pc obtain c where c: "npo s \<le> c" "c < ncl s" and h: "h = of_nat c"
    and cl: "mc_claims s ! c = (x, p)" and ph: "mc_phase s c = Written"
    by (auto simp: prod_inv_def)
  note F = claim_facts [OF inv c]
  define i where "i = slot_of s c"
  define e where "e = Suc (mc_clk s (Pr p) (Pr p))"
  define v where "v = (mc_clk s (Pr p))(Pr p := e)"
  have ci: "\<not> is_rdy s i" "covers (mc_clk s (Pr p)) (mc_last s i)" "mc_data s ! i = x"
    using F(4) ph cl by (simp_all add: claim_inv_def Let_def i_def)
  have s': "s' = s\<lparr>mc_clk := (mc_clk s)(Pr p := v),
      mc_last := (mc_last s)(i := (Pr p, e)), mc_race := mc_race s, mc_oob := mc_oob s,
      mc_ready := (mc_ready s)(i := mc_ready s i @ [(True, v)]), mc_prod := (mc_prod s)(p := Push_Idle),
      mc_push_ret := (mc_push_ret s)(p := Some True),
      mc_phase := (mc_phase s)(c := Published), mc_done := (mc_done s)(p := mc_done s p @ [x])\<rparr>"
    using F ci(2) by (simp add: s'_def push_publish_def cell_access_def Let_def h i_def e_def v_def)
  have ri: "ready_inv s i" by (rule D(6))
  have "mpsc_conc_inv s'"
  proof (rule cell_step_inv [OF inv c, of p])
    show "claim_inv s' c"
      using ci cl by (simp add: claim_inv_def s' h covers_def i_def v_def)
    show "prod_inv s' p" by (simp add: prod_inv_def s')
    show "cons_inv s'"
      using ph F(5) by (intro cons_inv_frame [OF D(5)]) (auto simp: s' e_def v_def i_def)
    show "done_inv s'"
      using D(7) pc by (auto simp: done_inv_def s' claimed_by_def pending_push_def)
    have "\<not> fst (mc_ready s i ! l)" if "mc_ready_seen s i \<le> l" "l < length (mc_ready s i)" for l
    proof (cases "Suc l = length (mc_ready s i)")
      case True
      then have "last (mc_ready s i) = mc_ready s i ! l"
        by (metis Zero_not_Suc diff_Suc_1 last_conv_nth list.size(3))
      with ci(1) show ?thesis by simp
    qed (use that ri in \<open>simp add: ready_inv_def\<close>)
    then show "ready_inv s' (slot_of s c)"
      using ri by (simp add: s' ready_inv_def nth_append flip: i_def)
  qed (use D(8,9) pc h cl in \<open>auto simp: s' i_def e_def v_def\<close>)
  then show ?thesis by (simp add: s'_def)
qed

lemma pop_move_inv:
  assumes inv: "mpsc_conc_inv s" and pc: "mc_cons s = Pop_Move t"
  shows "mpsc_conc_inv (pop_move mv t s)"
proof -
  define s' where "s' = pop_move mv t s"
  note D = mpsc_conc_invD [OF inv]
  define c where "c = npo s"
  from D(5) pc have t: "t = of_nat c" and k: "c < mc_head_seen s Co" and ph: "mc_phase s c = Published"
    and cov: "covers (mc_clk s Co) (mc_last s (slot_of s c))"
    by (simp_all add: cons_inv_def c_def Let_def)
  have c: "npo s \<le> c" "c < ncl s" using k counts_invD(9) [OF D(1), of Co] by (simp_all add: c_def)
  note F = claim_facts [OF inv c]
  define i where "i = slot_of s c"
  define e where "e = Suc (mc_clk s Co Co)"
  define p where "p = snd (mc_claims s ! c)"
  define x where "x = fst (mc_claims s ! c)"
  have ci: "is_rdy s i" "mc_data s ! i = x"
    using F(4) ph by (simp_all add: claim_inv_def Let_def i_def x_def)
  have s': "s' = s\<lparr>mc_clk := (mc_clk s)(Co := (mc_clk s Co)(Co := e)),
      mc_last := (mc_last s)(i := (Co, e)), mc_race := mc_race s, mc_oob := mc_oob s,
      mc_data := (mc_data s)[i := mv x], mc_cons := Pop_Clear x t,
      mc_phase := (mc_phase s)(c := Moved)\<rparr>"
    using F cov ci by (simp add: s'_def pop_move_def cell_access_def Let_def t i_def e_def)
  have "mpsc_conc_inv s'"
  proof (rule cell_step_inv [OF inv c, of p])
    show "claim_inv s' c"
      using ci by (simp add: claim_inv_def s' t covers_def i_def x_def c_def)
    show "cons_inv s'" using t k by (simp add: cons_inv_def s' c_def x_def Let_def)
    show "prod_inv s' p"
      using ph by (intro prod_inv_frame [OF D(4)]) (auto simp: s' e_def)
    show "done_inv s'" using D(7) by (simp add: done_inv_def s' claimed_by_def)
    show "ready_inv s' (slot_of s c)" by (rule ready_inv_frame [OF D(6)]) (simp_all add: s')
  qed (use D(8,9) in \<open>auto simp: s' i_def e_def c_def p_def\<close>)
  then show ?thesis by (simp add: s'_def)
qed

lemma pop_clear_inv:
  assumes inv: "mpsc_conc_inv s" and pc: "mc_cons s = Pop_Clear w t"
  shows "mpsc_conc_inv (pop_clear w t s)"
proof -
  define s' where "s' = pop_clear w t s"
  note D = mpsc_conc_invD [OF inv]
  define c where "c = npo s"
  define x where "x = fst (mc_claims s ! c)"
  from D(5) pc have t: "t = of_nat c" and k: "c < mc_head_seen s Co" and ph: "mc_phase s c = Moved" and w: "w = x"
    by (simp_all add: cons_inv_def c_def x_def Let_def)
  have c: "npo s \<le> c" "c < ncl s" using k counts_invD(9) [OF D(1), of Co] by (simp_all add: c_def)
  note F = claim_facts [OF inv c]
  define i where "i = slot_of s c"
  define e where "e = Suc (mc_clk s Co Co)"
  define p where "p = snd (mc_claims s ! c)"
  have ci: "covers (mc_clk s Co) (mc_last s i)"
    using F(4) ph by (auto simp: claim_inv_def Let_def i_def)
  have s': "s' = s\<lparr>mc_clk := (mc_clk s)(Co := (mc_clk s Co)(Co := e)),
      mc_last := (mc_last s)(i := (Co, e)), mc_race := mc_race s, mc_oob := mc_oob s,
      mc_ready := (mc_ready s)(i := mc_ready s i @ [(False, \<lambda>_. 0)]),
      mc_ready_seen := (mc_ready_seen s)(i := length (mc_ready s i)), mc_cons := Pop_Advance x t,
      mc_phase := (mc_phase s)(c := Cleared)\<rparr>"
    using F ci by (simp add: s'_def pop_clear_def cell_access_def Let_def t i_def e_def w)
  have "mpsc_conc_inv s'"
  proof (rule cell_step_inv [OF inv c, of p])
    show "claim_inv s' c"
      by (simp add: claim_inv_def s' t covers_def i_def x_def c_def)
    show "cons_inv s'" using t k by (simp add: cons_inv_def s' c_def x_def Let_def)
    show "prod_inv s' p"
      using ph by (intro prod_inv_frame [OF D(4)]) (auto simp: s' e_def)
    show "done_inv s'" using D(7) by (simp add: done_inv_def s' claimed_by_def)
    show "ready_inv s' (slot_of s c)" by (simp add: s' ready_inv_def flip: i_def)
  qed (use D(8,9) in \<open>auto simp: s' i_def e_def c_def p_def\<close>)
  then show ?thesis by (simp add: s'_def)
qed

section \<open>Claiming and freeing a cell\<close>

lemma claim_has_room:
  assumes "\<not> mpsc_is_full c (of_nat n) (of_nat j)" "j \<le> n" "n < 2 ^ 64"
  shows "n < j + unat c"
proof -
  have "unat (of_nat n - of_nat j :: size_t) = n - j"
    using assms(2,3) by (metis unat_claim of_nat_diff diff_le_self le_less_trans)
  with assms(1,2) show ?thesis by (auto simp: mpsc_is_full_def word_le_nat_alt)
qed

text \<open>The state after a compare-exchange that succeeds.\<close>

definition claim_next :: "tid \<Rightarrow> 'a \<Rightarrow> 'a mpsc_conc \<Rightarrow> 'a mpsc_conc" where
  "claim_next p x s = s\<lparr>mc_heads := mc_heads s @ [of_nat (Suc (ncl s))], mc_head_seen := (mc_head_seen s)(Pr p := Suc (ncl s)),
      mc_prod := (mc_prod s)(p := Push_Write x (of_nat (ncl s))), mc_claims := mc_claims s @ [(x, p)],
      mc_phase := (mc_phase s)(ncl s := Claimed)\<rparr>"

lemma push_cas_claims:
  assumes inv: "mpsc_conc_inv s" and pc: "mc_prod s p = Push_Cas x h"
    and st: "push_cas p i w x h s = Some s'" and ok: "Suc i = length (mc_heads s)" "mc_heads s ! i = h" "\<not> w"
  obtains j where "s' = claim_next p x s" "j \<le> npo s" "ncl s < j + mcap s" "\<And>t. snd (mc_tails s ! j) t \<le> mc_clk s (Pr p) t"
proof -
  note D = mpsc_conc_invD [OF inv] and C = counts_invD [OF mpsc_conc_invD(1) [OF inv]]
  have i: "i = ncl s" and h: "h = of_nat (ncl s)" using ok heads_nth [OF D(1)] by auto
  have s': "s' = claim_next p x s"
    using st ok(2,3) heads_nth(1) [OF D(1)] by (simp add: push_cas_def i h claim_next_def add.commute split: if_splits)
  from D(4) [of p] pc h obtain j where j: "j \<le> npo s" "\<not> mpsc_is_full (mc_capacity s) (of_nat (ncl s)) (of_nat j)"
    "\<And>t. snd (mc_tails s ! j) t \<le> mc_clk s (Pr p) t"
    by (auto simp: prod_inv_def)
  have "ncl s < j + mcap s" by (rule claim_has_room [OF j(2)]) (use j C(1,2) in simp_all)
  with s' j that show ?thesis by blast
qed

lemma claim_next_counts:
  assumes inv: "mpsc_conc_inv s" and j: "j \<le> npo s" "ncl s < j + mcap s" and small: "Suc (ncl s) < 2 ^ 64"
  shows "counts_inv (claim_next p x s)"
proof -
  note C = counts_invD [OF mpsc_conc_invD(1) [OF inv]]
  let ?s = "claim_next p x s"
  have "mc_heads ?s = map of_nat [0..<Suc (ncl ?s)]" using C(5) by (simp add: claim_next_def)
  moreover have "mc_popped ?s = take (npo ?s) (map fst (mc_claims ?s))" using C(2,7) by (simp add: claim_next_def)
  moreover have "mc_head_seen ?s t \<le> ncl ?s" for t using C(9) [of t] by (simp add: claim_next_def)
  ultimately show ?thesis
    using C(2,4,6,8,10,11) j small unfolding counts_inv_def by (simp add: claim_next_def)
qed

lemma claim_next_claims:
  assumes inv: "mpsc_conc_inv s" and pc: "mc_prod s p = Push_Cas y h"
    and j: "j \<le> npo s" "ncl s < j + mcap s" "\<And>t. snd (mc_tails s ! j) t \<le> mc_clk s (Pr p) t"
    and c: "npo s \<le> c" "c < Suc (ncl s)"
  shows "claim_inv (claim_next p x s) c"
proof (cases "c = ncl s")
  case True
  have "ncl s < npo s + mcap s" using j by simp
  with mpsc_conc_invD(3) [OF inv, of "ncl s"] j(1,2)
  have "\<not> is_rdy s (slot_of s (ncl s))" "covers (snd (mc_tails s ! j)) (mc_last s (slot_of s (ncl s)))"
    by (simp_all add: free_inv_def)
  with True j(3) show ?thesis by (simp add: claim_inv_def claim_next_def covers_mono [of "snd (mc_tails s ! j)"])
next
  case False
  with c have ci: "claim_inv s c" and c': "c < ncl s" using mpsc_conc_invD(2) [OF inv] by simp_all
  have "snd (mc_claims s ! c) \<noteq> p" if "mc_phase s c \<in> {Claimed, Written}"
    using that ci pc by (auto simp: claim_inv_def Let_def)
  with c c' show ?thesis by (intro claim_inv_frame [OF ci]) (auto simp: claim_next_def nth_append)
qed

lemma push_cas_succeeds_inv:
  assumes inv: "mpsc_conc_inv s" and pc: "mc_prod s p = Push_Cas x h"
    and st: "push_cas p i w x h s = Some s'" and small: "ncl s' < 2 ^ 64"
    and ok: "Suc i = length (mc_heads s)" "mc_heads s ! i = h" "\<not> w"
  shows "mpsc_conc_inv s'"
proof (rule mpsc_conc_invI)
  note D = mpsc_conc_invD [OF inv] and C = counts_invD [OF mpsc_conc_invD(1) [OF inv]]
  obtain j where s': "s' = claim_next p x s" and j: "j \<le> npo s" "ncl s < j + mcap s" "\<And>t. snd (mc_tails s ! j) t \<le> mc_clk s (Pr p) t"
    using inv pc st ok by (rule push_cas_claims) blast
  show "counts_inv s'" unfolding s' using small by (intro claim_next_counts [OF inv j(1,2)]) (simp add: s' claim_next_def)
  show "claim_inv s' c" if c: "npo s' \<le> c" "c < ncl s'" for c
    unfolding s' using c by (intro claim_next_claims [OF inv pc j]) (simp_all add: s' claim_next_def)
  show "free_inv s' c" if "ncl s' \<le> c" "c < npo s' + mcap s'" for c
    by (rule free_inv_frame [OF D(3)]) (use that in \<open>simp_all add: s' claim_next_def\<close>)
  show "prod_inv s' q" for q
  proof (cases "q = p")
    case True
    then show ?thesis using C(2) by (auto simp: prod_inv_def s' claim_next_def nth_append intro!: exI [of _ "ncl s"])
  next
    case False
    then show ?thesis by (intro prod_inv_frame [OF D(4)]) (auto simp: s' claim_next_def nth_append)
  qed
  show "cons_inv s'" using C(9) [of Co] by (intro cons_inv_frame [OF D(5)]) (auto simp: s' claim_next_def nth_append)
  show "ready_inv s' k" for k by (rule ready_inv_frame [OF D(6)]) (simp_all add: s' claim_next_def)
  have "pending_push (mc_prod s p) = []" by (simp add: pc pending_push_def)
  with D(7) show "done_inv s'" by (auto simp: done_inv_def s' claim_next_def claimed_by_def) (simp_all add: pending_push_def)
  show "\<not> mc_race s'" "\<not> mc_oob s'" using D(8,9) by (simp_all add: s' claim_next_def)
qed

text \<open>The consumer is about to store \<^verbatim>\<open>tail_\<close>: where it stands, and the state afterwards.\<close>

lemma pop_advance_facts:
  assumes inv: "mpsc_conc_inv s" and pc: "mc_cons s = Pop_Advance w t"
  shows "pop_advance w t s = s\<lparr>mc_tails := mc_tails s @ [(of_nat (Suc (npo s)), mc_clk s Co)], mc_cons := Pop_Idle,
      mc_pop_ret := Some True, mc_popped := mc_popped s @ [fst (mc_claims s ! npo s)]\<rparr>"
    "npo s < ncl s" "npo s < mc_head_seen s Co" "mc_phase s (npo s) = Cleared"
proof -
  note D = mpsc_conc_invD [OF inv]
  from D(5) pc have t: "t = of_nat (npo s)" and w: "w = fst (mc_claims s ! npo s)" by (simp_all add: cons_inv_def Let_def)
  show k: "npo s < mc_head_seen s Co" "mc_phase s (npo s) = Cleared" using D(5) pc by (simp_all add: cons_inv_def Let_def)
  show "npo s < ncl s" using k counts_invD(9) [OF D(1), of Co] by simp
  show "pop_advance w t s = s\<lparr>mc_tails := mc_tails s @ [(of_nat (Suc (npo s)), mc_clk s Co)], mc_cons := Pop_Idle,
      mc_pop_ret := Some True, mc_popped := mc_popped s @ [fst (mc_claims s ! npo s)]\<rparr>"
    by (simp add: pop_advance_def t w add.commute)
qed

lemma pop_advance_free:
  assumes inv: "mpsc_conc_inv s" and pc: "mc_cons s = Pop_Advance w t" and c: "ncl s \<le> c" "c < Suc (npo s) + mcap s"
  shows "free_inv (pop_advance w t s) c"
proof -
  note D = mpsc_conc_invD [OF inv] and T = tails_nth [OF mpsc_conc_invD(1) [OF inv]] and A = pop_advance_facts [OF inv pc]
  show ?thesis
  proof (cases "c = npo s + mcap s")
    case True
    have "\<not> is_rdy s (slot_of s (npo s))" "covers (mc_clk s Co) (mc_last s (slot_of s (npo s)))"
      using claim_facts(4) [OF inv, of "npo s"] A(2,4) by (auto simp: claim_inv_def Let_def)
    then show ?thesis unfolding A(1) using True T(1) by (auto simp: free_inv_def nth_append)
  next
    case False
    with c have "c < npo s + mcap s" "free_inv s c" using D(3) by simp_all
    moreover from this have "covers (mc_clk s Co) (mc_last s (slot_of s c))"
      using counts_invD(11) [OF D(1)] T(3) by (auto simp: free_inv_def intro: covers_mono [of "snd (mc_tails s ! npo s)"])
    ultimately show ?thesis unfolding A(1) using T(1) by (auto simp: free_inv_def nth_append le_Suc_eq)
  qed
qed

lemma pop_advance_prod:
  assumes inv: "mpsc_conc_inv s" and pc: "mc_cons s = Pop_Advance w t"
  shows "prod_inv (pop_advance w t s) p"
proof -
  note D = mpsc_conc_invD [OF inv] and T = tails_nth [OF mpsc_conc_invD(1) [OF inv]] and A = pop_advance_facts [OF inv pc]
  have later: "Suc (npo s) \<le> c" if "npo s \<le> c" "mc_phase s c \<in> {Claimed, Written}" for c
    using that A(4) by (cases "c = npo s") auto
  show ?thesis
  proof (cases "mc_prod s p")
    case (Push_Cas y h)
    with D(4) [of p] obtain j where "j \<le> npo s" "\<not> mpsc_is_full (mc_capacity s) h (of_nat j)"
      "\<forall>t. snd (mc_tails s ! j) t \<le> mc_clk s (Pr p) t" by (auto simp: prod_inv_def)
    with Push_Cas T(1) show ?thesis unfolding A(1) by (auto simp: prod_inv_def nth_append intro!: exI [of _ j])
  qed (use D(4) [of p] later in \<open>force simp: prod_inv_def A(1)\<close>)+
qed

lemma pop_advance_inv:
  assumes inv: "mpsc_conc_inv s" and pc: "mc_cons s = Pop_Advance w t"
  shows "mpsc_conc_inv (pop_advance w t s)"
proof (rule mpsc_conc_invI)
  let ?s = "pop_advance w t s"
  note D = mpsc_conc_invD [OF inv] and C = counts_invD [OF mpsc_conc_invD(1) [OF inv]] and A = pop_advance_facts [OF inv pc]
  have "mc_popped ?s = take (npo ?s) (map fst (mc_claims ?s))"
    using C(7) A(2) by (simp add: A(1) take_Suc_conv_app_nth)
  then show "counts_inv ?s" using C A(2,3) le_SucI [OF C(10)] unfolding counts_inv_def by (simp add: A(1))
  show "claim_inv ?s c" if "npo ?s \<le> c" "c < ncl ?s" for c
  proof -
    from that have "npo s < c" "claim_inv s c" using D(2) by (simp_all add: A(1))
    then show ?thesis by (auto simp: claim_inv_def A(1) Let_def split: phase.splits)
  qed
  show "free_inv ?s c" if "ncl ?s \<le> c" "c < npo ?s + mcap ?s" for c
    using that by (intro pop_advance_free [OF inv pc]) (simp_all add: A(1))
  show "prod_inv ?s p" for p by (rule pop_advance_prod [OF inv pc])
  show "ready_inv ?s i" for i by (rule ready_inv_frame [OF D(6)]) (simp_all add: A(1))
  show "done_inv ?s" using D(7) by (simp add: done_inv_def A(1) claimed_by_def)
  show "cons_inv ?s" "\<not> mc_race ?s" "\<not> mc_oob ?s" using D(8,9) by (simp_all add: A(1) cons_inv_def)
qed

section \<open>Every reachable state\<close>

lemma mpsc_step_claims_mono: "mpsc_step mv a s = Some s' \<Longrightarrow> ncl s \<le> ncl s'"
  by (cases a)
    (auto simp: push_step_def pop_step_def push_load_head_def push_load_tail_def push_cas_def push_write_def
      push_publish_def pop_load_head_def pop_load_ready_def pop_move_def pop_clear_def pop_advance_def
      cell_access_def Let_def case_prod_beta split: push_pc.splits pop_pc.splits if_splits)

lemma push_step_inv:
  assumes inv: "mpsc_conc_inv s" and st: "push_step p i w s = Some s'" and small: "ncl s' < 2 ^ 64"
  shows "mpsc_conc_inv s'"
proof (cases "mc_prod s p")
  case (Push_Cas x h)
  then have "push_cas p i w x h s = Some s'" using st by (simp add: push_step_def)
  then show ?thesis
    using push_cas_fails_inv [OF inv Push_Cas] push_cas_succeeds_inv [OF inv Push_Cas _ small] by blast
next
  case (Push_Head x)
  with st show ?thesis using push_load_head_inv [OF inv Push_Head] by (simp add: push_step_def)
next
  case (Push_Tail x h)
  with st show ?thesis using push_load_tail_inv [OF inv Push_Tail] by (simp add: push_step_def)
next
  case (Push_Write x h)
  with st show ?thesis using push_write_inv [OF inv Push_Write] by (simp add: push_step_def)
next
  case (Push_Publish x h)
  with st show ?thesis using push_publish_inv [OF inv Push_Publish] by (simp add: push_step_def)
qed (use st in \<open>simp add: push_step_def\<close>)

lemma pop_step_inv:
  assumes inv: "mpsc_conc_inv s" and st: "pop_step mv i s = Some s'"
  shows "mpsc_conc_inv s'"
proof (cases "mc_cons s")
  case (Pop_Head t)
  with st show ?thesis using pop_load_head_inv [OF inv Pop_Head] by (simp add: pop_step_def)
next
  case (Pop_Ready t)
  with st show ?thesis using pop_load_ready_inv [OF inv Pop_Ready] by (simp add: pop_step_def)
next
  case (Pop_Move t)
  with st show ?thesis using pop_move_inv [OF inv Pop_Move, of mv] by (simp add: pop_step_def)
next
  case (Pop_Clear v t)
  with st show ?thesis using pop_clear_inv [OF inv Pop_Clear] by (simp add: pop_step_def)
next
  case (Pop_Advance v t)
  with st show ?thesis using pop_advance_inv [OF inv Pop_Advance] by (simp add: pop_step_def)
qed (use st in \<open>simp add: pop_step_def\<close>)

lemma mpsc_step_inv:
  assumes "mpsc_conc_inv s" "mpsc_step mv a s = Some s'" "ncl s' < 2 ^ 64"
  shows "mpsc_conc_inv s'"
proof (cases a)
  case (Prod_Step p i w)
  with assms show ?thesis using push_step_inv by simp
next
  case (Cons_Step i)
  with assms show ?thesis using pop_step_inv by simp
next
  case (Do_Push p x)
  then show ?thesis using call_inv [OF assms(1,2)] by simp
next
  case Do_Pop
  then show ?thesis using call_inv [OF assms(1,2)] by simp
qed

lemma mpsc_init_inv:
  assumes "mpsc_create av d c = Inr (q, ev)"
  shows "mpsc_conc_inv (mpsc_conc_init q)"
proof -
  note W = mpsc_create_wf [OF assms]
  have "\<not> cell_is_ready (mq_items q ! i)" if "i < length (mq_items q)" for i
    using assms that by (auto simp: mpsc_create_def split: if_splits)
  then show ?thesis
    using W mpsc_wfD(1) [OF W(1)]
    by (simp add: mpsc_conc_inv_def mpsc_conc_init_def counts_inv_def free_inv_def covers_def prod_inv_def
        cons_inv_def ready_inv_def done_inv_def claimed_by_def pending_push_def)
qed

lemma mpsc_reachable_inv:
  "mpsc_reachable mv s \<Longrightarrow> ncl s < 2 ^ 64 \<Longrightarrow> mpsc_conc_inv s"
proof (induction rule: mpsc_reachable.induct)
  case (fresh av d c q ev)
  then show ?case by (simp add: mpsc_init_inv)
next
  case (further s a s')
  then show ?case using mpsc_step_claims_mono [OF further.hyps(2)] mpsc_step_inv by fastforce
qed

end
