(* ===== verification/Mpsc_Client.thy ===== *)
theory Mpsc_Client
  imports Mpsc_Invariant Fair_Rounds
begin

text \<open>
  Threads that share a queue as in the concurrent tests of \<^verbatim>\<open>test_mpmc.cpp\<close>: producers that push their items
  until each has been accepted, and a consumer that checks what it pops. A turn is one atomic access, one
  access to a cell, or the entry of a call, as in \<open>Mpsc_Concurrent\<close>; the loops around the calls are part of
  the threads. What is pushed and checked is a parameter here (\<open>item\<close>, \<open>check\<close>); the two tests are in
  \<open>Test_Mpsc\<close>.

  The number of a turn says which of the visible values a load returns and, when it is odd, that a
  compare-exchange fails for no reason.
\<close>

section \<open>Definitions\<close>

text \<open>
  The queue, the flag \<^verbatim>\<open>ready\<close>, each producer's \<^verbatim>\<open>i\<close>, the consumer's count and its tables, the flag \<^verbatim>\<open>ok\<close>, and
  the last visible store of \<^verbatim>\<open>head_\<close>, of \<^verbatim>\<open>tail_\<close> and of each \<^verbatim>\<open>is_ready\<close>.
\<close>

record ('a, 'k) mclient =
  ml_conc :: "'a mpsc_conc"
  ml_ready :: bool
  ml_i :: "tid \<Rightarrow> u32"
  ml_total :: u32
  ml_checked :: 'k
  ml_ok :: bool
  ml_vis_head :: nat
  ml_vis_tail :: nat
  ml_vis_ready :: "nat \<Rightarrow> nat"

definition push_choice :: "('a, 'k) mclient \<Rightarrow> tid \<Rightarrow> nat \<Rightarrow> nat" where
  "push_choice b p k =
     (let s = ml_conc b in
      case mc_prod s p of
        Push_Tail x h \<Rightarrow> load_choice (mc_tail_seen s p) (ml_vis_tail b) (length (mc_tails s)) (k div 2)
      | _ \<Rightarrow> load_choice (mc_head_seen s (Pr p)) (ml_vis_head b) (length (mc_heads s)) (k div 2))"

definition pop_choice :: "('a, 'k) mclient \<Rightarrow> nat \<Rightarrow> nat" where
  "pop_choice b k =
     (let s = ml_conc b in
      case mc_cons s of
        Pop_Ready t \<Rightarrow> let c = cell_of s t in load_choice (mc_ready_seen s c) (ml_vis_ready b c) (length (mc_ready s c)) k
      | _ \<Rightarrow> load_choice (mc_head_seen s Co) (ml_vis_head b) (length (mc_heads s)) k)"

text \<open>\<^verbatim>\<open>for (i = 0; i < per; ) { if (q.push(item(p, i))) ++i; }\<close>\<close>

definition producer_turn :: "(tid \<Rightarrow> u32 \<Rightarrow> 'a) \<Rightarrow> u32 \<Rightarrow> tid \<Rightarrow> nat \<Rightarrow> ('a, 'k) mclient \<Rightarrow> ('a, 'k) mclient option" where
  "producer_turn item per p k b =
     (let s = ml_conc b in
      if \<not> ml_ready b then Some b
      else case mc_prod s p of
        Push_Idle \<Rightarrow>
          if ml_i b p < per
          then do { s' \<leftarrow> mpsc_step id (Do_Push p (item p (ml_i b p))) s; Some (b\<lparr>ml_conc := s'\<rparr>) }
          else Some b
      | Push_Publish x h \<Rightarrow>
          do { s' \<leftarrow> push_step p 0 False s; Some (b\<lparr>ml_conc := s', ml_i := (ml_i b)(p := ml_i b p + 1)\<rparr>) }
      | _ \<Rightarrow> do { s' \<leftarrow> push_step p (push_choice b p k) (odd k) s; Some (b\<lparr>ml_conc := s'\<rparr>) })"

text \<open>\<^verbatim>\<open>while (total < items) { if (q.pop(got)) { ... ++total; } }\<close>\<close>

definition consumer_turn ::
  "(u32 \<Rightarrow> 'a \<Rightarrow> 'k \<Rightarrow> 'k option) \<Rightarrow> u32 \<Rightarrow> nat \<Rightarrow> ('a, 'k) mclient \<Rightarrow> ('a, 'k) mclient option" where
  "consumer_turn check items k b =
     (let s = ml_conc b in
      if \<not> ml_ready b \<or> \<not> ml_ok b then Some b
      else case mc_cons s of
        Pop_Idle \<Rightarrow>
          if ml_total b < items
          then do { s' \<leftarrow> mpsc_step id Do_Pop s; Some (b\<lparr>ml_conc := s'\<rparr>) }
          else Some b
      | Pop_Advance got t \<Rightarrow>
          do { s' \<leftarrow> pop_step id 0 s;
               Some (case check (ml_total b) got (ml_checked b) of
                       None \<Rightarrow> b\<lparr>ml_conc := s', ml_ok := False\<rparr>
                     | Some c \<Rightarrow> b\<lparr>ml_conc := s', ml_checked := c, ml_total := ml_total b + 1\<rparr>) }
      | _ \<Rightarrow> do { s' \<leftarrow> pop_step id (pop_choice b k) s; Some (b\<lparr>ml_conc := s'\<rparr>) })"

definition thread_turn ::
  "nat \<Rightarrow> u32 \<Rightarrow> (tid \<Rightarrow> u32 \<Rightarrow> 'a) \<Rightarrow> (u32 \<Rightarrow> 'a \<Rightarrow> 'k \<Rightarrow> 'k option) \<Rightarrow> u32 \<Rightarrow> (thread, ('a, 'k) mclient) moves" where
  "thread_turn n per item check items t k b =
     (case t of Pr p \<Rightarrow> if p < n then producer_turn item per p k b else Some b
              | Co \<Rightarrow> consumer_turn check items k b)"

definition stores_visible :: "('a, 'k) mclient \<Rightarrow> ('a, 'k) mclient" where
  "stores_visible b =
     b\<lparr>ml_vis_head := length (mc_heads (ml_conc b)) - 1, ml_vis_tail := length (mc_tails (ml_conc b)) - 1,
       ml_vis_ready := (\<lambda>i. length (mc_ready (ml_conc b) i) - 1)\<rparr>"

definition mclient_start :: "'a mpsc_queue \<Rightarrow> 'k \<Rightarrow> ('a, 'k) mclient" where
  "mclient_start q c =
     \<lparr>ml_conc = mpsc_conc_init q, ml_ready = False, ml_i = (\<lambda>_. 0), ml_total = 0, ml_checked = c, ml_ok = True,
      ml_vis_head = 0, ml_vis_tail = 0, ml_vis_ready = (\<lambda>_. 0)\<rparr>"

section \<open>The invariant\<close>

definition pushing :: "'a push_pc \<Rightarrow> 'a option" where
  "pushing pc =
     (case pc of Push_Idle \<Rightarrow> None | Push_Head x \<Rightarrow> Some x | Push_Tail x h \<Rightarrow> Some x | Push_Cas x h \<Rightarrow> Some x
               | Push_Write x h \<Rightarrow> Some x | Push_Publish x h \<Rightarrow> Some x)"

definition producer_ok :: "nat \<Rightarrow> u32 \<Rightarrow> (tid \<Rightarrow> u32 \<Rightarrow> 'a) \<Rightarrow> ('a, 'k) mclient \<Rightarrow> tid \<Rightarrow> bool" where
  "producer_ok n per item b p \<longleftrightarrow>
     ml_i b p \<le> per \<and> (n \<le> p \<longrightarrow> ml_i b p = 0 \<and> mc_prod (ml_conc b) p = Push_Idle) \<and>
     mc_done (ml_conc b) p = map (\<lambda>j. item p (of_nat j)) [0..<unat (ml_i b p)] \<and>
     (\<forall>x. pushing (mc_prod (ml_conc b) p) = Some x \<longrightarrow> x = item p (ml_i b p) \<and> ml_i b p < per)"

text \<open>How many of a producer's items the consumer has.\<close>

definition taken :: "'a mpsc_conc \<Rightarrow> tid \<Rightarrow> nat" where
  "taken s p = length (filter (\<lambda>a. snd a = p) (take (npo s) (mc_claims s)))"

definition mclient_inv ::
  "nat \<Rightarrow> u32 \<Rightarrow> (tid \<Rightarrow> u32 \<Rightarrow> 'a) \<Rightarrow> ((tid \<Rightarrow> nat) \<Rightarrow> 'k \<Rightarrow> bool) \<Rightarrow> ('a, 'k) mclient \<Rightarrow> bool" where
  "mclient_inv n per item K b \<longleftrightarrow>
     (let s = ml_conc b in
      ml_ready b \<and> ml_ok b \<and> mpsc_conc_inv s \<and> 0 < mcap s \<and> (\<forall>p. producer_ok n per item b p) \<and>
      unat (ml_total b) = npo s \<and> K (taken s) (ml_checked b) \<and>
      ml_vis_head b < length (mc_heads s) \<and> ml_vis_tail b < length (mc_tails s) \<and>
      (\<forall>i. ml_vis_ready b i < length (mc_ready s i)))"

text \<open>Every load will return the newest value.\<close>

definition mclient_fresh :: "('a, 'k) mclient \<Rightarrow> bool" where
  "mclient_fresh b \<longleftrightarrow>
     (let s = ml_conc b in
      ml_vis_head b = length (mc_heads s) - 1 \<and> ml_vis_tail b = length (mc_tails s) - 1 \<and>
      (\<forall>i. max (mc_ready_seen s i) (ml_vis_ready b i) = length (mc_ready s i) - 1))"

text \<open>
  Who brings the test forward: while the oldest claim is not published, its producer; when it is, the
  consumer; and when everything claimed has been consumed, a producer that has items left.
\<close>

definition helper :: "nat \<Rightarrow> u32 \<Rightarrow> ('a, 'k) mclient \<Rightarrow> thread" where
  "helper n per b =
     (let s = ml_conc b in
      if npo s < ncl s
      then if mc_phase s (npo s) \<in> {Claimed, Written} then Pr (snd (mc_claims s ! npo s)) else Co
      else Pr (LEAST p. p < n \<and> ml_i b p < per))"

definition to_go :: "('a, 'k) mclient \<Rightarrow> thread \<Rightarrow> nat" where
  "to_go b t =
     (let s = ml_conc b; h' = of_nat (ncl s) in
      case t of
        Pr p \<Rightarrow> (case mc_prod s p of
            Push_Idle \<Rightarrow> 4
          | Push_Head x \<Rightarrow> 3
          | Push_Tail x h \<Rightarrow> if h = h' then 2 else 5
          | Push_Cas x h \<Rightarrow> if h = h' then 1 else 3
          | Push_Write x h \<Rightarrow> 2
          | Push_Publish x h \<Rightarrow> 1)
      | Co \<Rightarrow> (case mc_cons s of
            Pop_Idle \<Rightarrow> 6
          | Pop_Head t \<Rightarrow> 5
          | Pop_Ready t \<Rightarrow> 4
          | Pop_Move t \<Rightarrow> 3
          | Pop_Clear v t \<Rightarrow> 2
          | Pop_Advance v t \<Rightarrow> 1))"

definition accepted :: "nat \<Rightarrow> ('a, 'k) mclient \<Rightarrow> nat" where
  "accepted n b = (\<Sum>p<n. unat (ml_i b p))"

abbreviation headway :: "nat \<Rightarrow> ('a, 'k) mclient \<Rightarrow> nat" where
  "headway n b \<equiv> ncl (ml_conc b) + accepted n b + npo (ml_conc b)"

section \<open>What a step of a call changes\<close>

lemmas push_step_defs = push_step_def push_load_head_def push_load_tail_def push_cas_def push_write_def push_publish_def
  cell_access_def Let_def case_prod_beta
lemmas pop_step_defs = pop_step_def pop_load_head_def pop_load_ready_def pop_move_def pop_clear_def pop_advance_def
  cell_access_def Let_def case_prod_beta

lemma push_step_keeps:
  assumes "push_step p i w s = Some s'"
  shows "mc_capacity s' = mc_capacity s" "mc_tails s' = mc_tails s" "mc_cons s' = mc_cons s" "mc_popped s' = mc_popped s"
    "mc_ready_seen s' = mc_ready_seen s" "q \<noteq> p \<Longrightarrow> mc_prod s' q = mc_prod s q" "q \<noteq> p \<Longrightarrow> mc_done s' q = mc_done s q"
    "take (ncl s) (mc_claims s') = mc_claims s" "ncl s' \<le> Suc (ncl s)"
    "length (mc_heads s) \<le> length (mc_heads s')" "length (mc_ready s j) \<le> length (mc_ready s' j)"
  using assms by (auto simp: push_step_defs split: push_pc.splits if_splits)

lemma push_step_midway:
  assumes "push_step p i w s = Some s'" "\<And>x h. mc_prod s p \<noteq> Push_Publish x h"
  shows "mc_ready s' = mc_ready s" "mc_done s' = mc_done s" "pushing (mc_prod s' p) \<in> {None, pushing (mc_prod s p)}"
    "ncl s' = ncl s \<Longrightarrow> mc_heads s' = mc_heads s \<and> mc_claims s' = mc_claims s"
  using assms by (auto simp: push_step_defs pushing_def split: push_pc.splits if_splits)

lemma pop_step_keeps:
  assumes "pop_step mv i s = Some s'"
  shows "mc_capacity s' = mc_capacity s" "mc_heads s' = mc_heads s" "mc_claims s' = mc_claims s" "mc_prod s' = mc_prod s"
    "mc_done s' = mc_done s" "length (mc_ready s j) \<le> length (mc_ready s' j)"
  using assms by (auto simp: pop_step_defs split: pop_pc.splits if_splits)

lemma pop_step_midway:
  assumes "pop_step mv i s = Some s'" "\<And>v t. mc_cons s \<noteq> Pop_Advance v t"
  shows "mc_tails s' = mc_tails s" "mc_popped s' = mc_popped s"
  using assms by (auto simp: pop_step_defs split: pop_pc.splits if_splits)

text \<open>No step of a producer that makes no headway changes what the other threads see or who is to help.\<close>

lemma push_step_phase:
  assumes inv: "mpsc_conc_inv s" and st: "push_step p i w s = Some s'" and nc: "ncl s' = ncl s"
    and pc: "\<And>x h. mc_prod s p \<noteq> Push_Publish x h"
  shows "mc_phase s' c \<in> {Claimed, Written} \<longleftrightarrow> mc_phase s c \<in> {Claimed, Written}"
proof (cases "\<exists>x h. mc_prod s p = Push_Write x h")
  case True
  then obtain x h where w: "mc_prod s p = Push_Write x h" by blast
  then obtain d where "h = of_nat d" "mc_phase s d = Claimed" "d < ncl s"
    using mpsc_conc_invD(4) [OF inv, of p] by (auto simp: prod_inv_def)
  moreover have "ncl s < 2 ^ 64" by (rule counts_invD [OF mpsc_conc_invD(1) [OF inv]])
  ultimately show ?thesis using st w by (auto simp: push_step_defs unat_claim split: if_splits)
next
  case False
  then show ?thesis using st nc pc by (auto simp: push_step_defs split: push_pc.splits if_splits)
qed

lemma pop_step_phase:
  assumes inv: "mpsc_conc_inv s" and st: "pop_step mv i s = Some s'"
  shows "mc_phase s' c \<in> {Claimed, Written} \<longleftrightarrow> mc_phase s c \<in> {Claimed, Written}"
proof -
  have "npo s < 2 ^ 64" using counts_invD(1,2) [OF mpsc_conc_invD(1) [OF inv]] by simp
  then show ?thesis using st mpsc_conc_invD(5) [OF inv]
    by (auto simp: pop_step_defs cons_inv_def unat_claim split: pop_pc.splits if_splits)
qed

lemma producer_unseen:
  assumes "mc_heads s' = mc_heads (ml_conc b)" "mc_tails s' = mc_tails (ml_conc b)" "mc_ready s' = mc_ready (ml_conc b)"
    "mc_ready_seen s' = mc_ready_seen (ml_conc b)" "mc_claims s' = mc_claims (ml_conc b)" "mc_popped s' = mc_popped (ml_conc b)"
    "mc_cons s' = mc_cons (ml_conc b)" "\<And>q. q \<noteq> p \<Longrightarrow> mc_prod s' q = mc_prod (ml_conc b) q"
    "\<And>c. mc_phase s' c \<in> {Claimed, Written} \<longleftrightarrow> mc_phase (ml_conc b) c \<in> {Claimed, Written}"
  shows "mclient_fresh (b\<lparr>ml_conc := s'\<rparr>) = mclient_fresh b" "helper n per (b\<lparr>ml_conc := s'\<rparr>) = helper n per b"
    "t \<noteq> Pr p \<Longrightarrow> to_go (b\<lparr>ml_conc := s'\<rparr>) t = to_go b t"
proof -
  show "mclient_fresh (b\<lparr>ml_conc := s'\<rparr>) = mclient_fresh b" using assms by (simp add: mclient_fresh_def Let_def)
  show "helper n per (b\<lparr>ml_conc := s'\<rparr>) = helper n per b" unfolding helper_def Let_def using assms by simp
  show "to_go (b\<lparr>ml_conc := s'\<rparr>) t = to_go b t" if "t \<noteq> Pr p" using assms that by (cases t) (simp_all add: to_go_def Let_def cong: push_pc.case_cong)
qed

text \<open>What the consumer does before it returns does not concern the producers, and its own stores are its own.\<close>

lemma consumer_unseen:
  assumes "mc_heads s' = mc_heads (ml_conc b)" "mc_tails s' = mc_tails (ml_conc b)" "mc_claims s' = mc_claims (ml_conc b)"
    "mc_popped s' = mc_popped (ml_conc b)" "mc_prod s' = mc_prod (ml_conc b)"
    "\<And>c. mc_phase s' c \<in> {Claimed, Written} \<longleftrightarrow> mc_phase (ml_conc b) c \<in> {Claimed, Written}"
    "\<And>i. mc_ready s' i = mc_ready (ml_conc b) i \<and> mc_ready_seen (ml_conc b) i \<le> mc_ready_seen s' i \<and>
        mc_ready_seen s' i < length (mc_ready s' i) \<or> mc_ready_seen s' i = length (mc_ready s' i) - 1"
    "\<And>i. ml_vis_ready b i < length (mc_ready s' i)"
  shows "mclient_fresh b \<Longrightarrow> mclient_fresh (b\<lparr>ml_conc := s'\<rparr>)" "helper n per (b\<lparr>ml_conc := s'\<rparr>) = helper n per b"
    "t \<noteq> Co \<Longrightarrow> to_go (b\<lparr>ml_conc := s'\<rparr>) t = to_go b t"
proof -
  have "max (mc_ready_seen s' i) (ml_vis_ready b i) = length (mc_ready s' i) - 1"
    if "max (mc_ready_seen (ml_conc b) i) (ml_vis_ready b i) = length (mc_ready (ml_conc b) i) - 1" for i
    using assms(7) [of i] assms(8) [of i] that by (auto simp: max_def split: if_splits)
  then show "mclient_fresh (b\<lparr>ml_conc := s'\<rparr>)" if "mclient_fresh b" using assms that by (simp add: mclient_fresh_def Let_def)
  show "helper n per (b\<lparr>ml_conc := s'\<rparr>) = helper n per b" unfolding helper_def Let_def using assms by simp
  show "to_go (b\<lparr>ml_conc := s'\<rparr>) t = to_go b t" if "t \<noteq> Co" using assms that by (cases t) (simp_all add: to_go_def Let_def cong: push_pc.case_cong)
qed

section \<open>Counting\<close>

lemma unat_inc: "w < v \<Longrightarrow> unat (w + 1) = Suc (unat w)" for w v :: "'w :: len word"
proof -
  assume "w < v"
  then have "Suc (unat w) \<le> unat v" by (simp add: word_less_nat_alt Suc_le_eq)
  also have "\<dots> < 2 ^ LENGTH('w)" by (rule unsigned_less)
  finally have "Suc (unat w) < 2 ^ LENGTH('w)" .
  then show "unat (w + 1) = Suc (unat w)" by (simp add: unat_word_ariths)
qed

lemma length_by_owner:
  "\<forall>a \<in> set xs. snd a < n \<Longrightarrow> length xs = (\<Sum>p<n. length (filter (\<lambda>a. snd a = p) xs))" for n :: nat
proof (induction xs)
  case (Cons a xs)
  have "length (filter (\<lambda>a. snd a = p) (a # xs)) = (if p = snd a then 1 else 0) + length (filter (\<lambda>a. snd a = p) xs)" for p
    by auto
  then show ?case using Cons by (simp add: sum.distrib)
qed simp

lemma filter_nth_take:
  assumes "k < length xs" "Q (xs ! k)"
  shows "length (filter Q (take k xs)) < length (filter Q xs)" "filter Q xs ! length (filter Q (take k xs)) = xs ! k"
proof -
  have "filter Q xs = filter Q (take k xs) @ xs ! k # filter Q (drop (Suc k) xs)"
    using arg_cong [OF id_take_nth_drop [OF assms(1)], of "filter Q"] assms(2) by simp
  then show "length (filter Q (take k xs)) < length (filter Q xs)" "filter Q xs ! length (filter Q (take k xs)) = xs ! k"
    by (simp_all add: nth_append)
qed

section \<open>Any number of producers and a check\<close>

text \<open>
  What a test supplies: \<open>n\<close> producers with \<open>per\<close> items each, and a check whose tables \<open>K\<close> relates to the number of
  items seen from each producer. The check accepts each producer's next item.
\<close>

locale checked_load =
  fixes n :: nat and per :: u32 and item :: "tid \<Rightarrow> u32 \<Rightarrow> 'a"
    and check :: "u32 \<Rightarrow> 'a \<Rightarrow> 'k \<Rightarrow> 'k option" and K :: "(tid \<Rightarrow> nat) \<Rightarrow> 'k \<Rightarrow> bool" and items :: u32
  assumes items: "unat items = n * unat per"
    and next_checked: "K f c \<Longrightarrow> p < n \<Longrightarrow> f p < unat per \<Longrightarrow>
      \<exists>c'. check (of_nat (\<Sum>q<n. f q)) (item p (of_nat (f p))) c = Some c' \<and> K (f(p := Suc (f p))) c'"
begin

lemma invD:
  assumes "mclient_inv n per item K b"
  shows "ml_ready b" "ml_ok b" "mpsc_conc_inv (ml_conc b)" "0 < mcap (ml_conc b)" "producer_ok n per item b p"
    "unat (ml_total b) = npo (ml_conc b)" "K (taken (ml_conc b)) (ml_checked b)"
    "ml_vis_head b < length (mc_heads (ml_conc b))" "ml_vis_tail b < length (mc_tails (ml_conc b))"
    "ml_vis_ready b i < length (mc_ready (ml_conc b) i)"
  using assms by (simp_all add: mclient_inv_def Let_def)

lemma claimed_items:
  assumes "mclient_inv n per item K b"
  obtains m where "claimed_by (ml_conc b) p = map (\<lambda>j. item p (of_nat j)) [0..<m]" "m \<le> unat per" "unat (ml_i b p) \<le> m"
    "n \<le> p \<Longrightarrow> m = 0"
proof -
  let ?s = "ml_conc b" and ?i = "unat (ml_i b p)"
  have ok: "producer_ok n per item b p" and d: "claimed_by ?s p = mc_done ?s p @ pending_push (mc_prod ?s p)"
    using invD(5) [OF assms] mpsc_conc_invD(7) [OF invD(3) [OF assms]] by (simp_all add: done_inv_def)
  show thesis
  proof (cases "pending_push (mc_prod ?s p) = []")
    case True
    with ok d show thesis by (intro that [of ?i]) (auto simp: producer_ok_def word_le_nat_alt)
  next
    case False
    then obtain x where "pending_push (mc_prod ?s p) = [x]" "pushing (mc_prod ?s p) = Some x"
      by (auto simp: pending_push_def pushing_def split: push_pc.splits)
    with ok d show thesis
      by (intro that [of "Suc ?i"]) (auto simp: producer_ok_def word_less_nat_alt pushing_def)
  qed
qed

lemma owners:
  assumes "mclient_inv n per item K b" "a \<in> set (mc_claims (ml_conc b))"
  shows "snd a < n"
proof (rule ccontr)
  assume "\<not> snd a < n"
  then have "claimed_by (ml_conc b) (snd a) = []" using claimed_items [OF assms(1), of "snd a"] by fastforce
  with assms(2) show False by (auto simp: claimed_by_def filter_empty_conv)
qed

lemma counts:
  assumes "mclient_inv n per item K b"
  shows "ncl (ml_conc b) \<le> n * unat per" "accepted n b \<le> ncl (ml_conc b)" "npo (ml_conc b) \<le> ncl (ml_conc b)"
    "npo (ml_conc b) = (\<Sum>q<n. taken (ml_conc b) q)"
proof -
  let ?s = "ml_conc b"
  have "\<forall>a \<in> set (mc_claims ?s). snd a < n" using owners [OF assms] by blast
  then have l: "ncl ?s = (\<Sum>p<n. length (claimed_by ?s p))" using length_by_owner by (simp add: claimed_by_def)
  have c: "length (claimed_by ?s p) \<le> unat per" "unat (ml_i b p) \<le> length (claimed_by ?s p)" for p
    by (rule claimed_items [OF assms, of p]; simp)+
  show "ncl ?s \<le> n * unat per" using sum_mono [of "{..<n}" "\<lambda>p. length (claimed_by ?s p)" "\<lambda>_. unat per"] c(1) l by simp
  show "accepted n b \<le> ncl ?s" unfolding accepted_def l by (rule sum_mono) (use c(2) in simp)
  show np: "npo ?s \<le> ncl ?s" using counts_invD(2) [OF mpsc_conc_invD(1) [OF invD(3) [OF assms]]] .
  have "\<forall>a \<in> set (take (npo ?s) (mc_claims ?s)). snd a < n" using owners [OF assms] in_set_takeD by fast
  from length_by_owner [OF this] np show "npo ?s = (\<Sum>q<n. taken ?s q)" by (simp add: taken_def)
qed

lemma small: "mclient_inv n per item K b \<Longrightarrow> Suc (ncl (ml_conc b)) < 2 ^ 64"
proof -
  assume inv: "mclient_inv n per item K b"
  have "unat items < 2 ^ 32" by (rule order.strict_trans2 [OF unsigned_less]) simp
  then show "Suc (ncl (ml_conc b)) < 2 ^ 64" using counts(1) [OF inv] items by simp
qed

text \<open>The item the consumer is about to get is its producer's next one.\<close>

lemma next_item:
  assumes "mclient_inv n per item K b" "npo (ml_conc b) < ncl (ml_conc b)"
  defines "p \<equiv> snd (mc_claims (ml_conc b) ! npo (ml_conc b))"
  shows "p < n" "taken (ml_conc b) p < unat per"
    "fst (mc_claims (ml_conc b) ! npo (ml_conc b)) = item p (of_nat (taken (ml_conc b) p))"
proof -
  let ?s = "ml_conc b" and ?f = "filter (\<lambda>a. snd a = p) (mc_claims (ml_conc b))"
  show "p < n" using owners [OF assms(1) nth_mem [OF assms(2)]] by (simp add: p_def)
  obtain m where m: "claimed_by ?s p = map (\<lambda>j. item p (of_nat j)) [0..<m]" "m \<le> unat per"
    using claimed_items [OF assms(1)] by blast
  note t = filter_nth_take [where Q = "\<lambda>a. snd a = p", OF assms(2)]
  have l: "taken ?s p < length ?f" "?f ! taken ?s p = mc_claims ?s ! npo ?s"
    using t by (simp_all add: taken_def p_def)
  moreover have "length ?f = m" using arg_cong [OF m(1), of length] by (simp add: claimed_by_def)
  ultimately show "taken ?s p < unat per" using m(2) by simp
  have "map fst ?f ! taken ?s p = item p (of_nat (taken ?s p))"
    using m(1) l(1) \<open>length ?f = m\<close> by (simp add: claimed_by_def)
  then show "fst (mc_claims ?s ! npo ?s) = item p (of_nat (taken ?s p))" using l by simp
qed

text \<open>The turns of a producer.\<close>

lemma push_enabled:
  assumes inv: "mclient_inv n per item K b" and pc: "mc_prod (ml_conc b) p \<noteq> Push_Idle"
  obtains s' where "push_step p (push_choice b p k) w (ml_conc b) = Some s'"
proof -
  let ?s = "ml_conc b"
  note N = newest_values [OF invD(3) [OF inv]]
  have "mc_head_seen ?s t < length (mc_heads ?s)" "mc_tail_seen ?s p < length (mc_tails ?s)" for t
    using N(1,4,7,8) by (simp_all add: less_Suc_eq_le)
  note c = load_choice_bounds [OF this(1) invD(8) [OF inv]] load_choice_bounds [OF this(2) invD(9) [OF inv]]
  have "\<exists>s'. push_step p (push_choice b p k) w ?s = Some s'"
    using pc c by (cases "mc_prod ?s p")
      (simp_all add: push_choice_def push_step_def push_load_head_def push_load_tail_def push_cas_def Let_def case_prod_beta)
  with that show thesis by blast
qed

lemma taken_push: "push_step p i w s = Some s' \<Longrightarrow> npo s \<le> ncl s \<Longrightarrow> taken s' = taken s"
proof -
  assume st: "push_step p i w s = Some s'" and le: "npo s \<le> ncl s"
  have "take (npo s) (mc_claims s') = take (npo s) (take (ncl s) (mc_claims s'))" using le by (simp add: min_def)
  then show "taken s' = taken s" using push_step_keeps(4,8) [OF st] by (simp add: taken_def fun_eq_iff)
qed

lemma push_midway:
  assumes inv: "mclient_inv n per item K b" and st: "push_step p i w (ml_conc b) = Some s'"
    and pc: "\<And>x h. mc_prod (ml_conc b) p \<noteq> Push_Publish x h"
  shows "mclient_inv n per item K (b\<lparr>ml_conc := s'\<rparr>)"
proof -
  note S = push_step_keeps [OF st] and M = push_step_midway [OF st pc]
  have "ncl s' < 2 ^ 64" using S(9) small [OF inv] by linarith
  then have ci: "mpsc_conc_inv s'" by (rule push_step_inv [OF invD(3) [OF inv] st])
  have "mc_prod (ml_conc b) p \<noteq> Push_Idle" using st by (auto simp: push_step_def)
  then have "producer_ok n per item (b\<lparr>ml_conc := s'\<rparr>) q" for q
    using invD(5) [OF inv, of q] M(2,3) S(6) by (cases "q = p") (auto simp: producer_ok_def)
  with ci show ?thesis
    using invD [OF inv] S(1,2,4,10) M(1) taken_push [OF st counts(3) [OF inv]] by (auto simp: mclient_inv_def Let_def)
qed

lemma push_published:
  assumes inv: "mclient_inv n per item K b" and pc: "mc_prod (ml_conc b) p = Push_Publish x h" and p: "p < n"
  shows "\<exists>b'. producer_turn item per p k b = Some b' \<and> mclient_inv n per item K b' \<and> headway n b' = Suc (headway n b)"
proof -
  let ?s = "ml_conc b"
  obtain s' where st: "push_step p 0 False ?s = Some s'" using pc by (simp add: push_step_def)
  define b' where "b' = b\<lparr>ml_conc := s', ml_i := (ml_i b)(p := ml_i b p + 1)\<rparr>"
  note S = push_step_keeps [OF st]
  have x: "x = item p (ml_i b p)" "ml_i b p < per" using invD(5) [OF inv, of p] pc by (simp_all add: producer_ok_def pushing_def)
  have up: "unat (ml_i b p + 1) = Suc (unat (ml_i b p))"
    using x(2) by (rule unat_inc)
  have d: "mc_claims s' = mc_claims ?s" "mc_prod s' p = Push_Idle" "mc_done s' p = mc_done ?s p @ [x]"
    using st pc by (auto simp: push_step_defs)
  have "producer_ok n per item b' q" for q
    using invD(5) [OF inv, of q] S(6,7) d(2,3) x p up
    by (cases "q = p") (auto simp: b'_def producer_ok_def pushing_def word_le_nat_alt word_less_nat_alt)
  moreover have "mpsc_conc_inv s'" using push_step_inv [OF invD(3) [OF inv] st] d(1) small [OF inv] by simp
  moreover have "ml_vis_head b < length (mc_heads s')" "ml_vis_ready b i < length (mc_ready s' i)" for i
    using invD(8,10) [OF inv] S(10) S(11) [of i] by (auto intro: less_le_trans)
  ultimately have "mclient_inv n per item K b'"
    using invD [OF inv] S(1,2,4) taken_push [OF st counts(3) [OF inv]] by (simp add: mclient_inv_def Let_def b'_def)
  moreover have "accepted n b' = Suc (accepted n b)"
    using p up by (simp add: accepted_def b'_def sum.remove [of "{..<n}" p])
  ultimately show ?thesis
    using st pc invD(1) [OF inv] d(1) S(4) by (auto simp: producer_turn_def b'_def)
qed

text \<open>With fresh loads, a producer that works on its claim, or that finds the queue empty, gets nearer.\<close>

lemma push_nearer:
  assumes inv: "mclient_inv n per item K b" and fresh: "mclient_fresh b" and k: "even k"
    and st: "push_step p (push_choice b p k) (odd k) (ml_conc b) = Some s'" and nc: "ncl s' = ncl (ml_conc b)"
    and pc: "\<And>x h. mc_prod (ml_conc b) p \<noteq> Push_Publish x h"
    and helps: "npo (ml_conc b) = ncl (ml_conc b) \<or> (\<exists>x h. mc_prod (ml_conc b) p = Push_Write x h)"
  shows "to_go (b\<lparr>ml_conc := s'\<rparr>) (Pr p) < to_go b (Pr p)"
proof -
  let ?s = "ml_conc b"
  note N = newest_values [OF invD(3) [OF inv]]
  have "mc_head_seen ?s (Pr p) < length (mc_heads ?s)" "mc_tail_seen ?s p < length (mc_tails ?s)"
    using N(1,4,7,8) by (simp_all add: less_Suc_eq_le)
  note L = load_choice_newest [OF this(1) invD(8) [OF inv]] load_choice_newest [OF this(2) invD(9) [OF inv]]
  have h: "load_choice (mc_head_seen ?s (Pr p)) (ml_vis_head b) (length (mc_heads ?s)) j = ncl ?s" for j
    using L(1) fresh N(1,7) by (simp add: mclient_fresh_def Let_def max_def)
  have t: "load_choice (mc_tail_seen ?s p) (ml_vis_tail b) (length (mc_tails ?s)) j = npo ?s" for j
    using L(2) fresh N(4,8) by (simp add: mclient_fresh_def Let_def max_def)
  have "0 < mc_capacity ?s" using invD(4) [OF inv] by (simp add: unat_gt_0 word_neq_0_conv)
  then have room: "\<not> mpsc_is_full (mc_capacity ?s) (of_nat (ncl ?s)) (of_nat (ncl ?s))" by (simp add: mpsc_is_full_def)
  show ?thesis
    using st pc nc k helps N(1,2,5) h t room
    by (cases "mc_prod ?s p") (auto simp: push_choice_def push_step_defs to_go_def split: if_splits)
qed

lemma helper_can:
  assumes inv: "mclient_inv n per item K b" and goal: "headway n b < 3 * (n * unat per)" and h: "helper n per b = Pr p"
  shows "p < n" "ml_i b p < per"
    "npo (ml_conc b) = ncl (ml_conc b) \<or> (\<exists>x h. mc_prod (ml_conc b) p = Push_Write x h \<or> mc_prod (ml_conc b) p = Push_Publish x h)"
proof -
  let ?s = "ml_conc b"
  note c = counts [OF inv]
  have "p < n \<and> ml_i b p < per \<and> (npo ?s = ncl ?s \<or> (\<exists>x h. mc_prod ?s p = Push_Write x h \<or> mc_prod ?s p = Push_Publish x h))"
  proof (cases "npo ?s < ncl ?s")
    case True
    then have p: "p = snd (mc_claims ?s ! npo ?s)" "mc_phase ?s (npo ?s) \<in> {Claimed, Written}"
      using h by (auto simp: helper_def Let_def split: if_splits)
    then have "\<exists>x h. mc_prod ?s p = Push_Write x h \<or> mc_prod ?s p = Push_Publish x h"
      using mpsc_conc_invD(2) [OF invD(3) [OF inv] order_refl True] by (auto simp: claim_inv_def Let_def)
    then show ?thesis using next_item(1) [OF inv True] p invD(5) [OF inv, of p] by (auto simp: producer_ok_def pushing_def)
  next
    case False
    then have eq: "npo ?s = ncl ?s" using c(3) by simp
    then have "accepted n b < n * unat per" using goal c(1,2) by linarith
    then have "\<exists>q<n. ml_i b q < per"
      using sum_mono [of "{..<n}" "\<lambda>_. unat per" "\<lambda>q. unat (ml_i b q)"] by (force simp: accepted_def word_less_nat_alt not_less)
    then have "p < n \<and> ml_i b p < per"
      using h False LeastI_ex [of "\<lambda>q. q < n \<and> ml_i b q < per"] by (auto simp: helper_def Let_def)
    with eq show ?thesis by blast
  qed
  then show "p < n" "ml_i b p < per"
    "npo ?s = ncl ?s \<or> (\<exists>x h. mc_prod ?s p = Push_Write x h \<or> mc_prod ?s p = Push_Publish x h)" by blast+
qed

lemma push_entered:
  assumes inv: "mclient_inv n per item K b" and pc: "mc_prod (ml_conc b) p = Push_Idle" and p: "p < n" "ml_i b p < per"
  defines "b' \<equiv> b\<lparr>ml_conc := (ml_conc b)\<lparr>mc_prod := (mc_prod (ml_conc b))(p := Push_Head (item p (ml_i b p)))\<rparr>\<rparr>"
  shows "producer_turn item per p k b = Some b'" "mclient_inv n per item K b'"
proof -
  have st: "mpsc_step id (Do_Push p (item p (ml_i b p))) (ml_conc b) = Some (ml_conc b')" using pc by (simp add: b'_def)
  then show "producer_turn item per p k b = Some b'" using pc p invD(1) [OF inv] by (simp add: producer_turn_def b'_def Let_def)
  have "mpsc_conc_inv (ml_conc b')" by (rule mpsc_step_inv [OF invD(3) [OF inv] st]) (use small [OF inv] in \<open>simp add: b'_def\<close>)
  moreover have "producer_ok n per item b' q" for q
    using invD(5) [OF inv, of q] p by (auto simp: producer_ok_def b'_def pushing_def)
  moreover have "taken (ml_conc b') = taken (ml_conc b)" by (simp add: taken_def fun_eq_iff b'_def)
  ultimately show "mclient_inv n per item K b'"
    using invD [OF inv] by (simp add: mclient_inv_def Let_def b'_def)
qed

lemma producer_moves:
  assumes inv: "mclient_inv n per item K b" and p: "p < n"
  shows "\<exists>b'. producer_turn item per p k b = Some b' \<and> mclient_inv n per item K b' \<and> headway n b \<le> headway n b' \<and>
    (headway n b' = headway n b \<and> headway n b < 3 * (n * unat per) \<and> mclient_fresh b \<and> even k \<longrightarrow>
      mclient_fresh b' \<and> helper n per b' = helper n per b \<and> (\<forall>t. t \<noteq> Pr p \<longrightarrow> to_go b' t = to_go b t) \<and>
      (helper n per b = Pr p \<longrightarrow> to_go b' (Pr p) < to_go b (Pr p)))"
proof (cases "\<exists>x h. mc_prod (ml_conc b) p = Push_Publish x h")
  case True
  then show ?thesis using push_published [OF inv _ p, of _ _ k] by fastforce
next
  case False
  let ?s = "ml_conc b"
  show ?thesis
  proof (cases "mc_prod ?s p = Push_Idle")
    case True
    show ?thesis
    proof (cases "ml_i b p < per")
      case i: True
      note E = push_entered [OF inv True p i]
      define s' where "s' = ?s\<lparr>mc_prod := (mc_prod ?s)(p := Push_Head (item p (ml_i b p)))\<rparr>"
      have "mclient_fresh (b\<lparr>ml_conc := s'\<rparr>) = mclient_fresh b" "helper n per (b\<lparr>ml_conc := s'\<rparr>) = helper n per b"
        "t \<noteq> Pr p \<Longrightarrow> to_go (b\<lparr>ml_conc := s'\<rparr>) t = to_go b t" for t
        by (rule producer_unseen [where p = p]; simp add: s'_def)+
      moreover have "to_go (b\<lparr>ml_conc := s'\<rparr>) (Pr p) < to_go b (Pr p)" using True by (simp add: to_go_def s'_def Let_def)
      ultimately show ?thesis using E by (simp add: s'_def accepted_def)
    next
      case False
      then have "producer_turn item per p k b = Some b" using True by (simp add: producer_turn_def Let_def)
      with False inv helper_can(2) [OF inv, of p] show ?thesis by auto
    qed
  next
    case idle: False
    obtain s' where st: "push_step p (push_choice b p k) (odd k) ?s = Some s'" using push_enabled [OF inv idle] .
    have pc: "mc_prod ?s p \<noteq> Push_Publish x h" for x h using False by blast
    note S = push_step_keeps [OF st] and M = push_step_midway [OF st pc]
    have t: "producer_turn item per p k b = Some (b\<lparr>ml_conc := s'\<rparr>)"
      using st idle False invD(1) [OF inv] by (simp add: producer_turn_def Let_def split: push_pc.splits)
    have le: "ncl ?s \<le> ncl s'" using mpsc_step_claims_mono [of id "Prod_Step p (push_choice b p k) (odd k)" ?s s'] st by simp
    have "mclient_fresh (b\<lparr>ml_conc := s'\<rparr>) = mclient_fresh b \<and> helper n per (b\<lparr>ml_conc := s'\<rparr>) = helper n per b \<and>
        (\<forall>t. t \<noteq> Pr p \<longrightarrow> to_go (b\<lparr>ml_conc := s'\<rparr>) t = to_go b t)" if "ncl s' = ncl ?s"
      using producer_unseen [where b = b, OF _ S(2) M(1) S(5) _ S(4,3,6) push_step_phase [OF invD(3) [OF inv] st that pc]] M(4) [OF that]
      by blast
    moreover have "to_go (b\<lparr>ml_conc := s'\<rparr>) (Pr p) < to_go b (Pr p)"
      if "ncl s' = ncl ?s" "headway n b < 3 * (n * unat per)" "mclient_fresh b" "even k" "helper n per b = Pr p"
      by (rule push_nearer [OF inv that(3,4) st that(1) pc]) (use helper_can(3) [OF inv that(2,5)] False in blast)
    ultimately show ?thesis
      using t push_midway [OF inv st pc] le S(4) by (auto simp: accepted_def)
  qed
qed

text \<open>The turns of the consumer.\<close>

lemma pop_enabled:
  assumes inv: "mclient_inv n per item K b" and pc: "mc_cons (ml_conc b) \<noteq> Pop_Idle"
  obtains s' where "pop_step id (pop_choice b k) (ml_conc b) = Some s'"
proof -
  let ?s = "ml_conc b"
  note N = newest_values [OF invD(3) [OF inv]]
  have "mc_head_seen ?s Co < length (mc_heads ?s)" using N(1,7) by (simp add: less_Suc_eq_le)
  moreover have "mc_ready_seen ?s c < length (mc_ready ?s c)" for c
    using mpsc_conc_invD(6) [OF invD(3) [OF inv], of c] by (simp add: ready_inv_def)
  ultimately have c: "mc_head_seen ?s Co \<le> load_choice (mc_head_seen ?s Co) (ml_vis_head b) (length (mc_heads ?s)) k"
    "load_choice (mc_head_seen ?s Co) (ml_vis_head b) (length (mc_heads ?s)) k < length (mc_heads ?s)"
    "mc_ready_seen ?s c \<le> load_choice (mc_ready_seen ?s c) (ml_vis_ready b c) (length (mc_ready ?s c)) k"
    "load_choice (mc_ready_seen ?s c) (ml_vis_ready b c) (length (mc_ready ?s c)) k < length (mc_ready ?s c)" for c
    using load_choice_bounds invD(8,10) [OF inv] by simp_all
  have "\<exists>s'. pop_step id (pop_choice b k) ?s = Some s'"
    using pc c by (cases "mc_cons ?s")
      (simp_all add: pop_choice_def pop_step_def pop_load_head_def pop_load_ready_def Let_def case_prod_beta)
  with that show thesis by blast
qed

lemma pop_midway:
  assumes inv: "mclient_inv n per item K b" and st: "pop_step id i (ml_conc b) = Some s'"
    and pc: "\<And>v t. mc_cons (ml_conc b) \<noteq> Pop_Advance v t"
  shows "mclient_inv n per item K (b\<lparr>ml_conc := s'\<rparr>)"
proof -
  note S = pop_step_keeps [OF st] and M = pop_step_midway [OF st pc]
  have "taken s' = taken (ml_conc b)" using S(3) M(2) by (simp add: taken_def fun_eq_iff)
  moreover have "producer_ok n per item (b\<lparr>ml_conc := s'\<rparr>) q" for q
    using invD(5) [OF inv, of q] S(4,5) by (simp add: producer_ok_def)
  moreover have "ml_vis_ready b i < length (mc_ready s' i)" for i using invD(10) [OF inv, of i] S(6) [of i] by simp
  ultimately show ?thesis
    using invD [OF inv] pop_step_inv [OF invD(3) [OF inv] st] S(1,2) M by (simp add: mclient_inv_def Let_def)
qed

lemma pop_returned:
  assumes inv: "mclient_inv n per item K b" and pc: "mc_cons (ml_conc b) = Pop_Advance v t"
  shows "\<exists>b'. consumer_turn check items k b = Some b' \<and> mclient_inv n per item K b' \<and> headway n b' = Suc (headway n b)"
proof -
  let ?s = "ml_conc b"
  obtain s' where st: "pop_step id 0 ?s = Some s'" using pc by (simp add: pop_step_def)
  note S = pop_step_keeps [OF st] and ci = invD(3) [OF inv]
  have v: "v = fst (mc_claims ?s ! npo ?s)" and "npo ?s < mc_head_seen ?s Co"
    using mpsc_conc_invD(5) [OF ci] pc by (simp_all add: cons_inv_def Let_def)
  then have live: "npo ?s < ncl ?s" using counts_invD(9) [OF mpsc_conc_invD(1) [OF ci], of Co] by simp
  define p where "p = snd (mc_claims ?s ! npo ?s)"
  note I = next_item [OF inv live, folded p_def]
  have "of_nat (unat (ml_total b)) = (of_nat (\<Sum>q<n. taken ?s q) :: u32)" unfolding invD(6) [OF inv] by (rule arg_cong [OF counts(4) [OF inv]])
  then have total: "ml_total b = of_nat (\<Sum>q<n. taken ?s q)" by simp
  obtain c where c: "check (ml_total b) v (ml_checked b) = Some c" "K ((taken ?s)(p := Suc (taken ?s p))) c"
    using next_checked [OF invD(7) [OF inv] I(1,2)] v I(3) total by auto
  define b' where "b' = b\<lparr>ml_conc := s', ml_checked := c, ml_total := ml_total b + 1\<rparr>"
  have po: "npo s' = Suc (npo ?s)" "length (mc_tails s') = Suc (length (mc_tails ?s))" "mc_ready s' = mc_ready ?s"
    using st pc by (auto simp: pop_step_defs)
  have "taken s' = (taken ?s)(p := Suc (taken ?s p))"
    using live by (auto simp: taken_def fun_eq_iff po(1) S(3) p_def take_Suc_conv_app_nth)
  moreover have "unat (ml_total b + 1) = Suc (npo ?s)"
    using unat_inc [of "ml_total b" items] live counts(1) [OF inv] invD(6) [OF inv] items by (simp add: word_less_nat_alt)
  moreover have "producer_ok n per item b' q" for q using invD(5) [OF inv, of q] S(4,5) by (simp add: producer_ok_def b'_def)
  ultimately have "mclient_inv n per item K b'"
    using invD [OF inv] c(2) pop_step_inv [OF ci st] S(1,2) po by (simp add: mclient_inv_def Let_def b'_def less_SucI)
  then show ?thesis
    using st pc c(1) invD(1,2) [OF inv] po(1) S(3) by (simp add: consumer_turn_def b'_def accepted_def)
qed

lemma pop_nearer:
  assumes inv: "mclient_inv n per item K b" and fresh: "mclient_fresh b"
    and st: "pop_step id (pop_choice b k) (ml_conc b) = Some s'" and pc: "\<And>v t. mc_cons (ml_conc b) \<noteq> Pop_Advance v t"
    and live: "npo (ml_conc b) < ncl (ml_conc b)" and ph: "mc_phase (ml_conc b) (npo (ml_conc b)) \<notin> {Claimed, Written}"
  shows "to_go (b\<lparr>ml_conc := s'\<rparr>) Co < to_go b Co"
proof -
  let ?s = "ml_conc b" and ?t = "of_nat (npo (ml_conc b)) :: size_t"
  note ci = invD(3) [OF inv]
  note N = newest_values [OF ci] and D = mpsc_conc_invD [OF ci]
  have n64: "ncl ?s < 2 ^ 64" using small [OF inv] by simp
  have "mc_head_seen ?s Co < length (mc_heads ?s)" using N(1,7) by (simp add: less_Suc_eq_le)
  from load_choice_newest [OF this invD(8) [OF inv]]
  have h: "load_choice (mc_head_seen ?s Co) (ml_vis_head b) (length (mc_heads ?s)) k = ncl ?s"
    using fresh N(1,7) by (simp add: mclient_fresh_def Let_def max_def)
  have "mc_ready_seen ?s c < length (mc_ready ?s c)" for c using D(6) [of c] by (simp add: ready_inv_def)
  from load_choice_newest [OF this invD(10) [OF inv]]
  have r: "load_choice (mc_ready_seen ?s c) (ml_vis_ready b c) (length (mc_ready ?s c)) k = length (mc_ready ?s c) - 1" for c
    using fresh by (simp add: mclient_fresh_def Let_def)
  have ne: "\<not> mpsc_is_empty (of_nat (ncl ?s)) ?t"
    using live n64 by (simp add: mpsc_is_empty_def word_unat_eq_iff unat_claim)
  have rdy: "fst (mc_ready ?s (cell_of ?s ?t) ! (length (mc_ready ?s (cell_of ?s ?t)) - 1))" if "mc_cons ?s = Pop_Ready ?t"
  proof -
    have "is_rdy ?s (cell_of ?s ?t)"
      using D(2) [OF order_refl live] ph that live n64 invD(4) [OF inv]
      by (auto simp: claim_inv_def Let_def cell_of_claim split: phase.splits)
    moreover have "mc_ready ?s (cell_of ?s ?t) \<noteq> []" using invD(10) [OF inv, of "cell_of ?s ?t"] by auto
    ultimately show ?thesis by (simp add: last_conv_nth)
  qed
  show ?thesis
    using st pc D(5) h r ne rdy N(2)
    by (cases "mc_cons ?s") (auto simp: pop_choice_def pop_step_defs to_go_def cons_inv_def split: if_splits)
qed

lemma pop_entered:
  assumes inv: "mclient_inv n per item K b" and pc: "mc_cons (ml_conc b) = Pop_Idle" and p: "ml_total b < items"
  defines "b' \<equiv> b\<lparr>ml_conc := (ml_conc b)\<lparr>mc_cons := Pop_Head (fst (last (mc_tails (ml_conc b))))\<rparr>\<rparr>"
  shows "consumer_turn check items k b = Some b'" "mclient_inv n per item K b'"
proof -
  have st: "mpsc_step id Do_Pop (ml_conc b) = Some (ml_conc b')" using pc by (simp add: b'_def)
  then show "consumer_turn check items k b = Some b'" using pc p invD(1,2) [OF inv] by (simp add: consumer_turn_def b'_def Let_def)
  have "mpsc_conc_inv (ml_conc b')" by (rule mpsc_step_inv [OF invD(3) [OF inv] st]) (use small [OF inv] in \<open>simp add: b'_def\<close>)
  moreover have "producer_ok n per item b' q" for q using invD(5) [OF inv, of q] by (simp add: producer_ok_def b'_def)
  moreover have "taken (ml_conc b') = taken (ml_conc b)" by (simp add: taken_def fun_eq_iff b'_def)
  ultimately show "mclient_inv n per item K b'" using invD [OF inv] by (simp add: mclient_inv_def Let_def b'_def)
qed

lemma pop_flags:
  assumes inv: "mclient_inv n per item K b" and st: "pop_step mv i (ml_conc b) = Some s'"
  shows "mc_ready s' j = mc_ready (ml_conc b) j \<and> mc_ready_seen (ml_conc b) j \<le> mc_ready_seen s' j \<and>
      mc_ready_seen s' j < length (mc_ready s' j) \<or> mc_ready_seen s' j = length (mc_ready s' j) - 1"
proof -
  have "mc_ready_seen (ml_conc b) j < length (mc_ready (ml_conc b) j)"
    using mpsc_conc_invD(6) [OF invD(3) [OF inv], of j] by (simp add: ready_inv_def)
  then show ?thesis using st by (auto simp: pop_step_defs split: pop_pc.splits if_splits)
qed

lemma consumer_moves:
  assumes inv: "mclient_inv n per item K b"
  shows "\<exists>b'. consumer_turn check items k b = Some b' \<and> mclient_inv n per item K b' \<and> headway n b \<le> headway n b' \<and>
    (headway n b' = headway n b \<and> headway n b < 3 * (n * unat per) \<and> mclient_fresh b \<longrightarrow>
      mclient_fresh b' \<and> helper n per b' = helper n per b \<and> (\<forall>t. t \<noteq> Co \<longrightarrow> to_go b' t = to_go b t) \<and>
      (helper n per b = Co \<longrightarrow> to_go b' Co < to_go b Co))"
proof (cases "\<exists>v t. mc_cons (ml_conc b) = Pop_Advance v t")
  case True
  then show ?thesis using pop_returned [OF inv, of _ _ k] by fastforce
next
  case False
  let ?s = "ml_conc b"
  have co: "npo ?s < ncl ?s \<and> mc_phase ?s (npo ?s) \<notin> {Claimed, Written}" if "helper n per b = Co"
    using that by (auto simp: helper_def Let_def split: if_splits)
  show ?thesis
  proof (cases "mc_cons ?s = Pop_Idle")
    case True
    show ?thesis
    proof (cases "ml_total b < items")
      case i: True
      note E = pop_entered [OF inv True i]
      define s' where "s' = ?s\<lparr>mc_cons := Pop_Head (fst (last (mc_tails ?s)))\<rparr>"
      have r: "mc_ready_seen ?s j < length (mc_ready ?s j)" for j
        using mpsc_conc_invD(6) [OF invD(3) [OF inv], of j] by (simp add: ready_inv_def)
      have "mclient_fresh b \<Longrightarrow> mclient_fresh (b\<lparr>ml_conc := s'\<rparr>)" "helper n per (b\<lparr>ml_conc := s'\<rparr>) = helper n per b"
        "t \<noteq> Co \<Longrightarrow> to_go (b\<lparr>ml_conc := s'\<rparr>) t = to_go b t" for t
        by (rule consumer_unseen; simp add: s'_def r invD(10) [OF inv])+
      moreover have "to_go (b\<lparr>ml_conc := s'\<rparr>) Co < to_go b Co" using True by (simp add: to_go_def s'_def Let_def)
      ultimately show ?thesis using E by (simp add: s'_def accepted_def)
    next
      case False
      then have "consumer_turn check items k b = Some b" using True by (simp add: consumer_turn_def Let_def)
      moreover have "\<not> npo ?s < ncl ?s" using False counts(1) [OF inv] invD(6) [OF inv] items by (simp add: word_less_nat_alt)
      ultimately show ?thesis using inv co by auto
    qed
  next
    case idle: False
    obtain s' where st: "pop_step id (pop_choice b k) ?s = Some s'" using pop_enabled [OF inv idle] .
    have pc: "mc_cons ?s \<noteq> Pop_Advance v t" for v t using False by blast
    note S = pop_step_keeps [OF st] and M = pop_step_midway [OF st pc] and I = pop_midway [OF inv st pc]
    have t: "consumer_turn check items k b = Some (b\<lparr>ml_conc := s'\<rparr>)"
      using st idle False invD(1,2) [OF inv] by (simp add: consumer_turn_def Let_def split: pop_pc.splits)
    have "ml_vis_ready b i < length (mc_ready s' i)" for i using invD(10) [OF I, of i] by simp
    note U = consumer_unseen [OF S(2) M(1) S(3) M(2) S(4) pop_step_phase [OF invD(3) [OF inv] st] pop_flags [OF inv st] this]
    show ?thesis using t I U co pop_nearer [OF inv _ st pc] S(3) M(2) by (auto simp: accepted_def)
  qed
qed

end

text \<open>
  Together: the loops end, in \<open>3 * n * per\<close> rounds with seven turns of every thread in each, whatever the
  other rounds are; and whatever the schedule, the check never fails.
\<close>

sublocale checked_load \<subseteq> threads: helpful_threads "Pr ` {..<n} \<union> {Co}" "mclient_inv n per item K" mclient_fresh stores_visible
  "thread_turn n per item check items" even "headway n" "helper n per" to_go "3 * (n * unat per)" 7
proof unfold_locales
  fix b :: "('a, 'k) mclient" assume inv: "mclient_inv n per item K b"
  show "headway n b \<le> 3 * (n * unat per)" using counts(1-3) [OF inv] by linarith
  show "headway n b < 3 * (n * unat per) \<Longrightarrow> helper n per b \<in> Pr ` {..<n} \<union> {Co}"
    using helper_can(1) [OF inv] by (cases "helper n per b") auto
  show "to_go b (helper n per b) < 7" by (simp add: to_go_def Let_def split: thread.split push_pc.split pop_pc.split)
  have "mc_ready_seen (ml_conc b) i < length (mc_ready (ml_conc b) i)" for i
    using mpsc_conc_invD(6) [OF invD(3) [OF inv], of i] by (simp add: ready_inv_def)
  then have r: "mc_ready_seen (ml_conc b) i \<le> length (mc_ready (ml_conc b) i) - 1" "0 < length (mc_ready (ml_conc b) i)" for i
    by (metis Suc_pred' less_Suc_eq_le less_nat_zero_code neq0_conv, metis less_nat_zero_code neq0_conv)
  show "mclient_inv n per item K (stores_visible b) \<and> mclient_fresh (stores_visible b) \<and> headway n (stores_visible b) = headway n b"
    using inv r newest_values(1,4) [OF invD(3) [OF inv]]
    by (auto simp: mclient_inv_def mclient_fresh_def stores_visible_def producer_ok_def accepted_def max_def Let_def)
  fix t k
  show "\<exists>b'. thread_turn n per item check items t k b = Some b' \<and> mclient_inv n per item K b' \<and> headway n b \<le> headway n b' \<and>
      (headway n b' = headway n b \<and> headway n b < 3 * (n * unat per) \<and> mclient_fresh b \<and> even k \<longrightarrow>
        mclient_fresh b' \<and> helper n per b' = helper n per b \<and>
        to_go b' (helper n per b) \<le> to_go b (helper n per b) \<and> (t = helper n per b \<longrightarrow> to_go b' t < to_go b t))"
  proof -
    have fin: ?thesis if b': "thread_turn n per item check items t k b = Some b'" "mclient_inv n per item K b'" "headway n b \<le> headway n b'"
      "headway n b' = headway n b \<and> headway n b < 3 * (n * unat per) \<and> mclient_fresh b \<and> even k \<longrightarrow>
        mclient_fresh b' \<and> helper n per b' = helper n per b \<and> (\<forall>u. u \<noteq> t \<longrightarrow> to_go b' u = to_go b u) \<and>
        (helper n per b = t \<longrightarrow> to_go b' t < to_go b t)" for b'
      using b' by (cases "helper n per b = t") auto
    show ?thesis
    proof (cases t)
      case (Pr p)
      show ?thesis
      proof (cases "p < n")
        case True
        from producer_moves [OF inv True, of k] show ?thesis by (elim exE conjE, intro fin) (auto simp: thread_turn_def Pr True)
      next
        case False
        then show ?thesis using inv helper_can(1) [OF inv] by (intro fin [of b]) (auto simp: thread_turn_def Pr)
      qed
    next
      case Co
      from consumer_moves [OF inv, of k] show ?thesis by (elim exE conjE, intro fin) (auto simp: thread_turn_def Co)
    qed
  qed
qed

end
