(* ===== verification/Mpsc_Properties.thy ===== *)
theory Mpsc_Properties
  imports Mpsc_Invariant
begin

text \<open>
  The claims about the multi-producer queue: it is a bounded FIFO when used by one thread (C29); with
  any number of producers and one consumer it has no data race (C30), loses and duplicates nothing and
  keeps each producer's order (C31), its calls return (C32), and an uninterrupted call is the sequential
  function (C33). The last two lemmas are behaviours the design does not intend, for C34.
\<close>

section \<open>Definitions\<close>

text \<open>The queue a quiescent observer sees: the last value of every location.\<close>

definition mpsc_view :: "'a mpsc_conc \<Rightarrow> 'a mpsc_queue" where
  "mpsc_view s = \<lparr>mq_capacity = mc_capacity s,
     mq_items = map (\<lambda>i. \<lparr>cell_data = mc_data s ! i, cell_is_ready = is_rdy s i\<rparr>) [0..<length (mc_data s)],
     mq_head = last (mc_heads s), mq_tail = fst (last (mc_tails s))\<rparr>"

text \<open>A producer that runs alone: its loads return the newest values, and no compare-exchange fails spuriously.\<close>

definition newest :: "'a mpsc_conc \<Rightarrow> tid \<Rightarrow> nat" where
  "newest s p = (case mc_prod s p of Push_Tail x h \<Rightarrow> length (mc_tails s) - 1 | _ \<Rightarrow> length (mc_heads s) - 1)"

fun solo_push :: "nat \<Rightarrow> tid \<Rightarrow> 'a mpsc_conc \<Rightarrow> 'a mpsc_conc option" where
  "solo_push 0 p s = Some s"
| "solo_push (Suc n) p s =
     (case mc_prod s p of Push_Idle \<Rightarrow> Some s
      | _ \<Rightarrow> (case push_step p (newest s p) False s of None \<Rightarrow> None | Some s' \<Rightarrow> solo_push n p s'))"

definition newest_c :: "'a mpsc_conc \<Rightarrow> nat" where
  "newest_c s = (case mc_cons s of Pop_Ready t \<Rightarrow> length (mc_ready s (cell_of s t)) - 1 | _ \<Rightarrow> length (mc_heads s) - 1)"

fun solo_pop :: "('a \<Rightarrow> 'a) \<Rightarrow> nat \<Rightarrow> 'a mpsc_conc \<Rightarrow> 'a mpsc_conc option" where
  "solo_pop mv 0 s = Some s"
| "solo_pop mv (Suc n) s =
     (case mc_cons s of Pop_Idle \<Rightarrow> Some s
      | _ \<Rightarrow> (case pop_step mv (newest_c s) s of None \<Rightarrow> None | Some s' \<Rightarrow> solo_pop mv n s'))"

text \<open>How many steps a call still needs: a producer that runs alone, and the consumer in any case.\<close>

definition push_work :: "'a mpsc_conc \<Rightarrow> tid \<Rightarrow> nat" where
  "push_work s p =
     (case mc_prod s p of
        Push_Idle \<Rightarrow> 0
      | Push_Head x \<Rightarrow> 5
      | Push_Tail x h \<Rightarrow> if h = last (mc_heads s) then 4 else 6
      | Push_Cas x h \<Rightarrow> if h = last (mc_heads s) then 3 else 5
      | Push_Write x h \<Rightarrow> 2
      | Push_Publish x h \<Rightarrow> 1)"

definition pop_work :: "'a mpsc_conc \<Rightarrow> nat" where
  "pop_work s =
     (case mc_cons s of
        Pop_Idle \<Rightarrow> 0
      | Pop_Head t \<Rightarrow> 5
      | Pop_Ready t \<Rightarrow> 4
      | Pop_Move t \<Rightarrow> 3
      | Pop_Clear v t \<Rightarrow> 2
      | Pop_Advance v t \<Rightarrow> 1)"

text \<open>
  Own steps of a producer to the end of its call when no compare-exchange fails. The next three are about single steps of a run: a
  step of the producer, a compare-exchange of it that fails because \<^verbatim>\<open>head_\<close> has changed, and one that fails spuriously
  or reads a value of \<^verbatim>\<open>head_\<close> that is not the newest; \<open>count_steps\<close> counts such steps.
\<close>

definition push_left :: "'a mpsc_conc \<Rightarrow> tid \<Rightarrow> nat" where
  "push_left s p =
     (case mc_prod s p of
        Push_Idle \<Rightarrow> 0 | Push_Head x \<Rightarrow> 5 | Push_Tail x h \<Rightarrow> 4 | Push_Cas x h \<Rightarrow> 3 | Push_Write x h \<Rightarrow> 2 | Push_Publish x h \<Rightarrow> 1)"

definition own_step :: "tid \<Rightarrow> 'a mact \<Rightarrow> 'a mpsc_conc \<Rightarrow> bool" where
  "own_step p a s \<longleftrightarrow> (case a of Prod_Step q i w \<Rightarrow> q = p | _ \<Rightarrow> False)"

definition cas_lost :: "tid \<Rightarrow> 'a mact \<Rightarrow> 'a mpsc_conc \<Rightarrow> bool" where
  "cas_lost p a s \<longleftrightarrow>
     (case a of Prod_Step q i w \<Rightarrow>
        q = p \<and> (case mc_prod s p of Push_Cas x h \<Rightarrow> Suc i = length (mc_heads s) \<and> \<not> w \<and> mc_heads s ! i \<noteq> h | _ \<Rightarrow> False)
      | _ \<Rightarrow> False)"

definition cas_spurious :: "tid \<Rightarrow> 'a mact \<Rightarrow> 'a mpsc_conc \<Rightarrow> bool" where
  "cas_spurious p a s \<longleftrightarrow>
     (case a of Prod_Step q i w \<Rightarrow>
        q = p \<and> (case mc_prod s p of Push_Cas x h \<Rightarrow> Suc i \<noteq> length (mc_heads s) \<or> w | _ \<Rightarrow> False)
      | _ \<Rightarrow> False)"

fun count_steps :: "('a \<Rightarrow> 'a) \<Rightarrow> ('a mact \<Rightarrow> 'a mpsc_conc \<Rightarrow> bool) \<Rightarrow> 'a mact list \<Rightarrow> 'a mpsc_conc \<Rightarrow> nat" where
  "count_steps mv Q [] s = 0"
| "count_steps mv Q (a # as) s =
     (if Q a s then 1 else 0) + (case mpsc_step mv a s of None \<Rightarrow> 0 | Some s' \<Rightarrow> count_steps mv Q as s')"

definition enters_push :: "tid \<Rightarrow> 'a mact \<Rightarrow> bool" where
  "enters_push p a \<longleftrightarrow> (case a of Do_Push q x \<Rightarrow> q = p | _ \<Rightarrow> False)"

text \<open>A producer outside the claim loop.\<close>

definition past_loop :: "'a push_pc \<Rightarrow> bool" where
  "past_loop pc = (case pc of Push_Idle \<Rightarrow> True | Push_Write x h \<Rightarrow> True | Push_Publish x h \<Rightarrow> True | _ \<Rightarrow> False)"

text \<open>A queue with two cells, for the examples.\<close>

definition two_cells :: "nat mpsc_conc" where
  "two_cells = mpsc_conc_init (fst (projr (mpsc_create (\<lambda>_. True) 0 2)))"

text \<open>
  Two producers race for the same counter value: one compare-exchange fails and is retried, both
  producers then write their cells, the second one first, and the consumer takes the older value.
\<close>

definition contended_start :: "nat mact list" where
  "contended_start =
     [Do_Push 0 5, Do_Push 1 6, Prod_Step 0 0 False, Prod_Step 1 0 False, Prod_Step 0 0 False,
      Prod_Step 1 0 False, Prod_Step 0 0 False, Prod_Step 1 1 False, Prod_Step 1 0 False, Prod_Step 1 1 False]"

definition contended_rest :: "nat mact list" where
  "contended_rest =
     [Prod_Step 1 0 False, Prod_Step 1 0 False, Prod_Step 0 0 False, Prod_Step 0 0 False,
      Do_Pop, Cons_Step 2, Cons_Step 1, Cons_Step 0, Cons_Step 0, Cons_Step 0]"

section \<open>Runs\<close>

lemma mpsc_run_reachable: "mpsc_run mv as s = Some s' \<Longrightarrow> mpsc_reachable mv s \<Longrightarrow> mpsc_reachable mv s'"
  by (induction as arbitrary: s) (auto split: option.splits intro: mpsc_reachable.further)

lemma two_cells_reachable: "mpsc_reachable mv two_cells"
  unfolding two_cells_def
  by (rule mpsc_reachable.fresh [of "\<lambda>_. True" 0 2 _ "Allocate 2 # map Construct [0..<2]"])
    (simp add: mpsc_create_def)

lemmas run_simps = mpsc_conc_init_def mpsc_create_def push_step_def pop_step_def push_load_head_def
  push_load_tail_def push_cas_def push_write_def push_publish_def pop_load_head_def pop_load_ready_def
  pop_move_def pop_clear_def pop_advance_def cell_access_def cell_of_def mpsc_element_def mpsc_is_full_def
  mpsc_is_empty_def covers_def vjoin_def word_le_nat_alt

text \<open>The state after \<open>contended_start\<close>: both producers hold a claim and have not written yet.\<close>

lemma contended_start_run:
  "\<exists>s. mpsc_run mv contended_start two_cells = Some s \<and> mc_claims s = [(5, 0), (6, 1)] \<and>
     mc_prod s 0 = Push_Write 5 0 \<and> mc_prod s 1 = Push_Write 6 1 \<and> mc_prod s 2 = Push_Idle"
  by (simp add: contended_start_def two_cells_def run_simps)

lemma contended_run:
  "\<exists>s. mpsc_run mv (contended_start @ contended_rest) two_cells = Some s \<and> mc_claims s = [(5, 0), (6, 1)] \<and>
     mc_prod s 0 = Push_Idle \<and> mc_prod s 1 = Push_Idle \<and> mc_popped s = [5] \<and> mc_done s 0 = [5] \<and> mc_done s 1 = [6]"
  by (simp add: contended_start_def contended_rest_def two_cells_def run_simps)

section \<open>Calls that run alone\<close>

lemma solo_loop_step:
  assumes inv: "mpsc_conc_inv s" and pc: "\<not> past_loop (mc_prod s p)"
  obtains s' where "push_step p (newest s p) False s = Some s'" "push_work s' p < push_work s p"
    "mpsc_conc_inv s' \<or> (\<exists>x h. mc_prod s' p = Push_Write x h)"
proof -
  note N = newest_values [OF inv]
  have "\<exists>s'. push_step p (newest s p) False s = Some s' \<and> push_work s' p < push_work s p \<and>
      (ncl s' = ncl s \<or> (\<exists>x h. mc_prod s' p = Push_Write x h))"
  proof (cases "mc_prod s p")
    case (Push_Head x)
    then show ?thesis using N
      by (auto simp: push_step_def newest_def push_load_head_def push_work_def)
  next
    case (Push_Tail x h)
    then show ?thesis using N
      by (auto simp: push_step_def newest_def push_load_tail_def push_work_def case_prod_beta Let_def)
  next
    case (Push_Cas x h)
    then show ?thesis using N
      by (auto simp: push_step_def newest_def push_cas_def push_work_def)
  qed (use pc in \<open>auto simp: past_loop_def\<close>)
  then obtain s' where s': "push_step p (newest s p) False s = Some s'" "push_work s' p < push_work s p"
    "ncl s' = ncl s \<or> (\<exists>x h. mc_prod s' p = Push_Write x h)" by blast
  moreover have "mpsc_conc_inv s'" if "ncl s' = ncl s"
    using push_step_inv [OF inv s'(1)] that counts_invD(1) [OF mpsc_conc_invD(1) [OF inv]] by simp
  ultimately show ?thesis using that by blast
qed

lemma solo_push_returns:
  "push_work s p \<le> n \<Longrightarrow>
   mpsc_conc_inv s \<or> past_loop (mc_prod s p) \<Longrightarrow>
   \<exists>s'. solo_push n p s = Some s' \<and> mc_prod s' p = Push_Idle"
proof (induction n arbitrary: s)
  case 0
  then show ?case by (auto simp: push_work_def split: push_pc.splits if_splits)
next
  case (Suc n)
  show ?case
  proof (cases "past_loop (mc_prod s p)")
    case True
    then consider (idle) "mc_prod s p = Push_Idle" | (writing) x h where "mc_prod s p = Push_Write x h"
      | (publishing) x h where "mc_prod s p = Push_Publish x h"
      by (cases "mc_prod s p") (auto simp: past_loop_def)
    then show ?thesis
    proof cases
      case writing
      define s1 where "s1 = push_write p x h s"
      have "mc_prod s1 p = Push_Publish x h" by (simp add: s1_def push_write_def Let_def)
      then have "\<exists>s'. solo_push n p s1 = Some s' \<and> mc_prod s' p = Push_Idle"
        using writing Suc.prems(1) by (intro Suc.IH) (auto simp: push_work_def past_loop_def)
      with writing show ?thesis by (simp add: push_step_def s1_def)
    next
      case publishing
      define s1 where "s1 = push_publish p x h s"
      have "mc_prod s1 p = Push_Idle" by (simp add: s1_def push_publish_def Let_def)
      then have "\<exists>s'. solo_push n p s1 = Some s' \<and> mc_prod s' p = Push_Idle"
        by (intro Suc.IH) (auto simp: push_work_def past_loop_def)
      with publishing show ?thesis by (simp add: push_step_def s1_def)
    qed simp
  next
    case False
    with Suc.prems have "mpsc_conc_inv s" by blast
    from solo_loop_step [OF this False] obtain s' where s': "push_step p (newest s p) False s = Some s'"
      "push_work s' p < push_work s p" "mpsc_conc_inv s' \<or> (\<exists>x h. mc_prod s' p = Push_Write x h)" .
    then have "\<exists>s''. solo_push n p s' = Some s'' \<and> mc_prod s'' p = Push_Idle"
      using Suc.prems(1) by (intro Suc.IH) (auto simp: past_loop_def)
    with s' False show ?thesis by (auto simp: past_loop_def split: push_pc.splits)
  qed
qed

text \<open>Whatever its loads return, each step of \<^verbatim>\<open>pop\<close> brings it nearer to its return.\<close>

lemma pop_step_progress: "pop_step mv i s = Some s' \<Longrightarrow> pop_work s' < pop_work s"
  by (auto simp: pop_step_def pop_work_def pop_load_head_def pop_load_ready_def pop_move_def pop_clear_def
      pop_advance_def Let_def case_prod_beta split: pop_pc.splits if_splits)

lemma pop_step_enabled:
  assumes inv: "mpsc_conc_inv s" and pc: "mc_cons s \<noteq> Pop_Idle"
  shows "pop_step mv (newest_c s) s \<noteq> None"
proof -
  note N = newest_values [OF inv]
  have rs: "mc_ready_seen s i < length (mc_ready s i)" for i
    using mpsc_conc_invD(6) [OF inv, of i] by (simp add: ready_inv_def)
  show ?thesis
  proof (cases "mc_cons s")
    case (Pop_Ready t)
    with rs [of "cell_of s t"] show ?thesis
      by (auto simp: pop_step_def newest_c_def pop_load_ready_def Let_def case_prod_beta)
  qed (use N pc in \<open>auto simp: pop_step_def newest_c_def pop_load_head_def Let_def\<close>)
qed

lemma solo_pop_returns:
  "pop_work s \<le> n \<Longrightarrow> mpsc_conc_inv s \<Longrightarrow> \<exists>s'. solo_pop mv n s = Some s' \<and> mc_cons s' = Pop_Idle"
proof (induction n arbitrary: s)
  case 0
  then show ?case by (auto simp: pop_work_def split: pop_pc.splits)
next
  case (Suc n)
  show ?case
  proof (cases "mc_cons s = Pop_Idle")
    case False
    with pop_step_enabled [OF Suc.prems(2)] obtain s' where s': "pop_step mv (newest_c s) s = Some s'" by blast
    with Suc.prems have "\<exists>s''. solo_pop mv n s' = Some s'' \<and> mc_cons s'' = Pop_Idle"
      using pop_step_progress [OF s'] pop_step_inv [OF Suc.prems(2) s'] by (intro Suc.IH) simp_all
    with s' False show ?thesis by (auto split: pop_pc.splits)
  qed simp
qed

subsection \<open>Producers among others\<close>

text \<open>The local \<^verbatim>\<open>head\<close> of a producer is the value of \<^verbatim>\<open>head_\<close> it has seen last.\<close>

definition loop_head :: "'a mpsc_conc \<Rightarrow> tid \<Rightarrow> bool" where
  "loop_head s p \<longleftrightarrow> mc_head_seen s (Pr p) < length (mc_heads s) \<and>
     (case mc_prod s p of Push_Tail x h \<Rightarrow> h = mc_heads s ! mc_head_seen s (Pr p)
      | Push_Cas x h \<Rightarrow> h = mc_heads s ! mc_head_seen s (Pr p) | _ \<Rightarrow> True)"

lemmas step_defs = push_step_def pop_step_def push_load_head_def push_load_tail_def push_cas_def push_write_def push_publish_def
  pop_load_head_def pop_load_ready_def pop_move_def pop_clear_def pop_advance_def cell_access_def

lemma other_step:
  assumes "mpsc_step mv a s = Some s'" "\<not> own_step p a s" "\<not> enters_push p a"
  shows "mc_prod s' p = mc_prod s p" "mc_head_seen s' (Pr p) = mc_head_seen s (Pr p)" "\<exists>ys. mc_heads s' = mc_heads s @ ys"
  using assms by (cases a; auto simp: own_step_def enters_push_def step_defs Let_def case_prod_beta
      split: push_pc.splits pop_pc.splits if_splits)+

lemma loop_head_own:
  assumes "push_step p i w s = Some s'" "loop_head s p"
  shows "loop_head s' p"
proof (cases "mc_prod s p")
  case (Push_Cas x h)
  then show ?thesis using assms by (auto simp: loop_head_def push_step_def push_cas_def nth_append split: if_splits)
qed (use assms in \<open>auto simp: loop_head_def push_step_def push_load_head_def push_load_tail_def push_write_def push_publish_def
    cell_access_def Let_def case_prod_beta split: if_splits\<close>)

lemma loop_head_step:
  assumes st: "mpsc_step mv a s = Some s'" and h: "loop_head s p"
  shows "loop_head s' p"
proof (cases "own_step p a s")
  case True
  then obtain i w where "push_step p i w s = Some s'" using st by (cases a) (auto simp: own_step_def)
  then show ?thesis using loop_head_own h by blast
next
  case other: False
  show ?thesis
  proof (cases "enters_push p a")
    case True
    then obtain x where "a = Do_Push p x" by (cases a) (auto simp: enters_push_def)
    then show ?thesis using st h by (auto simp: loop_head_def split: push_pc.splits)
  next
    case False
    from other_step [OF st other False] h show ?thesis by (auto simp: loop_head_def nth_append split: push_pc.splits)
  qed
qed

lemma loop_head_reachable: "mpsc_reachable mv s \<Longrightarrow> loop_head s p"
proof (induction rule: mpsc_reachable.induct)
  case (fresh av d c q ev)
  show ?case by (simp add: loop_head_def mpsc_conc_init_def)
qed (rule loop_head_step)

text \<open>Every own step is one less, but for a compare-exchange that fails; other threads do not matter.\<close>

lemma push_left_own:
  assumes "push_step p i w s = Some s'"
  shows "push_left s' p + 1 \<le> push_left s p + 2 * (if cas_lost p (Prod_Step p i w) s \<or> cas_spurious p (Prod_Step p i w) s then 1 else 0)"
  using assms by (cases "mc_prod s p")
    (auto simp: push_left_def cas_lost_def cas_spurious_def push_step_def push_load_head_def push_load_tail_def push_cas_def
      push_write_def push_publish_def cell_access_def Let_def case_prod_beta split: if_splits)

lemma push_left_step:
  assumes st: "mpsc_step mv a s = Some s'" and e: "\<not> enters_push p a"
  shows "push_left s' p + (if own_step p a s then 1 else 0) \<le> push_left s p + 2 * (if cas_lost p a s \<or> cas_spurious p a s then 1 else 0)"
proof (cases "own_step p a s")
  case True
  then obtain i w where "a = Prod_Step p i w" by (cases a) (auto simp: own_step_def)
  with push_left_own [of p i w s s'] st True show ?thesis by simp
next
  case False
  with other_step(1) [OF st False e] show ?thesis by (simp add: push_left_def)
qed

lemma cas_lost_own:
  assumes "push_step p i w s = Some s'" "loop_head s p"
  shows "mc_head_seen s (Pr p) + (if cas_lost p (Prod_Step p i w) s then 1 else 0) \<le> mc_head_seen s' (Pr p)"
proof (cases "mc_prod s p")
  case (Push_Cas x h)
  then have "mc_head_seen s (Pr p) \<le> i" "i < length (mc_heads s)" "h = mc_heads s ! mc_head_seen s (Pr p)"
    "mc_head_seen s' (Pr p) = (if Suc i = length (mc_heads s) \<and> mc_heads s ! i = h \<and> \<not> w then Suc i else i)"
    using assms by (auto simp: loop_head_def push_step_def push_cas_def split: if_splits)
  moreover have "mc_head_seen s (Pr p) < i" if "mc_heads s ! i \<noteq> h"
    using that calculation by (metis le_neq_implies_less)
  ultimately show ?thesis using Push_Cas by (auto simp: cas_lost_def)
qed (use assms in \<open>auto simp: cas_lost_def push_step_def push_load_head_def push_load_tail_def push_write_def push_publish_def
    cell_access_def Let_def case_prod_beta split: if_splits\<close>)

lemma cas_lost_step:
  assumes st: "mpsc_step mv a s = Some s'" and h: "loop_head s p"
  shows "mc_head_seen s (Pr p) + (if cas_lost p a s then 1 else 0) \<le> mc_head_seen s' (Pr p)"
proof (cases "own_step p a s")
  case True
  then obtain i w where "a = Prod_Step p i w" by (cases a) (auto simp: own_step_def)
  with cas_lost_own [of p i w s s', OF _ h] st show ?thesis by simp
next
  case False
  then have n: "\<not> cas_lost p a s" by (cases a) (auto simp: own_step_def cas_lost_def)
  show ?thesis
  proof (cases "enters_push p a")
    case True
    then obtain x where "a = Do_Push p x" by (cases a) (auto simp: enters_push_def)
    with st n show ?thesis by (auto split: push_pc.splits)
  qed (use other_step(2) [OF st False] n in simp)
qed

lemma push_left_run:
  "mpsc_run mv as s = Some s' \<Longrightarrow> list_all (\<lambda>a. \<not> enters_push p a) as \<Longrightarrow>
   push_left s' p + count_steps mv (own_step p) as s \<le>
     push_left s p + 2 * (count_steps mv (cas_lost p) as s + count_steps mv (cas_spurious p) as s)"
proof (induction as arbitrary: s)
  case (Cons a as)
  then obtain s1 where s1: "mpsc_step mv a s = Some s1" "mpsc_run mv as s1 = Some s'" by (auto split: option.splits)
  with Cons.IH [OF s1(2)] Cons.prems(2) push_left_step [OF s1(1), of p] show ?case by (auto split: if_splits)
qed simp

lemma cas_lost_run:
  "mpsc_run mv as s = Some s' \<Longrightarrow> loop_head s p \<Longrightarrow>
   mc_head_seen s (Pr p) + count_steps mv (cas_lost p) as s < length (mc_heads s')"
proof -
  assume r: "mpsc_run mv as s = Some s'" and h: "loop_head s p"
  have "loop_head s' p \<and> mc_head_seen s (Pr p) + count_steps mv (cas_lost p) as s \<le> mc_head_seen s' (Pr p)"
    using r h
  proof (induction as arbitrary: s)
    case (Cons a as)
    then obtain s1 where s1: "mpsc_step mv a s = Some s1" "mpsc_run mv as s1 = Some s'" by (auto split: option.splits)
    with Cons.IH [OF s1(2) loop_head_step [OF s1(1) Cons.prems(2)]] cas_lost_step [OF s1(1) Cons.prems(2)]
    show ?case by (auto split: if_splits)
  qed simp
  then show ?thesis by (auto simp: loop_head_def)
qed

lemma push_step_enabled:
  assumes inv: "mpsc_conc_inv s" and pc: "mc_prod s p \<noteq> Push_Idle"
  shows "push_step p (newest s p) w s \<noteq> None"
  using newest_values [OF inv] pc
  by (cases "mc_prod s p")
    (auto simp: push_step_def newest_def push_load_head_def push_load_tail_def push_cas_def Let_def case_prod_beta)

text \<open>A call that is not interrupted computes the sequential function on the queue it finds.\<close>

lemma view_simps [simp]:
  "mq_capacity (mpsc_view s) = mc_capacity s" "mq_head (mpsc_view s) = last (mc_heads s)"
  "mq_tail (mpsc_view s) = fst (last (mc_tails s))" "length (mq_items (mpsc_view s)) = length (mc_data s)"
  "i < length (mc_data s) \<Longrightarrow> mq_items (mpsc_view s) ! i = \<lparr>cell_data = mc_data s ! i, cell_is_ready = is_rdy s i\<rparr>"
  by (simp_all add: mpsc_view_def)

lemma view_update:
  assumes "i < length (mc_data s)" "mc_capacity s' = mc_capacity s"
    and "mc_data s' = (mc_data s)[i := x]" "is_rdy s' i = b" "\<And>j. j \<noteq> i \<Longrightarrow> mc_ready s' j = mc_ready s j"
  shows "mpsc_view s' = (mpsc_view s)\<lparr>mq_items := (mq_items (mpsc_view s))[i := \<lparr>cell_data = x, cell_is_ready = b\<rparr>],
     mq_head := last (mc_heads s'), mq_tail := fst (last (mc_tails s'))\<rparr>"
  using assms by (auto simp: mpsc_view_def nth_list_update intro!: nth_equalityI)

lemma cell_of_cong:
  "mc_capacity s' = mc_capacity s \<Longrightarrow> length (mc_data s') = length (mc_data s) \<Longrightarrow> cell_of s' h = cell_of s h"
  by (simp add: cell_of_def split: option.split)

lemma solo_push_Suc:
  "mc_prod s p \<noteq> Push_Idle \<Longrightarrow> push_step p (newest s p) False s = Some s' \<Longrightarrow> solo_push (Suc n) p s = solo_push n p s'"
  by (simp split: push_pc.splits)

lemma solo_push_idle: "mc_prod s p = Push_Idle \<Longrightarrow> solo_push n p s = Some s"
  by (cases n) simp_all

text \<open>From a claim on, the call writes the cell and marks it ready.\<close>

lemma solo_push_finish:
  assumes pc: "mc_prod s p = Push_Write x h" and cell: "cell_of s h = i" "i < length (mc_data s)"
  obtains s' where "solo_push 2 p s = Some s'" "mc_prod s' p = Push_Idle" "mc_push_ret s' p = Some True"
    "mpsc_view s' = (mpsc_view s)\<lparr>mq_items := (mq_items (mpsc_view s))[i := \<lparr>cell_data = x, cell_is_ready = True\<rparr>]\<rparr>"
proof -
  define s' where "s' = push_publish p x h (push_write p x h s)"
  have "cell_of (push_write p x h s) h = i"
    unfolding cell(1) [symmetric] by (rule cell_of_cong) (simp_all add: push_write_def cell_access_def Let_def)
  then have s': "mc_data s' = (mc_data s)[i := x]" "is_rdy s' i" "\<And>j. j \<noteq> i \<Longrightarrow> mc_ready s' j = mc_ready s j"
    "mc_capacity s' = mc_capacity s" "mc_heads s' = mc_heads s" "mc_tails s' = mc_tails s"
    "mc_prod s' p = Push_Idle" "mc_push_ret s' p = Some True"
    by (simp_all add: s'_def push_publish_def cell_access_def Let_def)
      (simp_all add: push_write_def cell_access_def Let_def cell)
  have "mpsc_view s' = (mpsc_view s)\<lparr>mq_items := (mq_items (mpsc_view s))[i := \<lparr>cell_data = x, cell_is_ready = True\<rparr>],
      mq_head := last (mc_heads s'), mq_tail := fst (last (mc_tails s'))\<rparr>"
    by (rule view_update [OF cell(2)]) (simp_all add: s')
  then have "mpsc_view s' = (mpsc_view s)\<lparr>mq_items := (mq_items (mpsc_view s))[i := \<lparr>cell_data = x, cell_is_ready = True\<rparr>]\<rparr>"
    by (simp add: s' mpsc_view_def)
  moreover have "solo_push 2 p s = Some s'"
    using pc by (simp add: s'_def numeral_2_eq_2 push_step_def push_write_def push_publish_def Let_def)
  ultimately show ?thesis using that s' by blast
qed

text \<open>The claim loop is left after three steps at most, with what the sequential loop computes.\<close>

lemma solo_push_claim:
  assumes inv: "mpsc_conc_inv s"
  obtains (full) s' where
      "solo_push 5 p (s\<lparr>mc_prod := (mc_prod s)(p := Push_Head x)\<rparr>) = Some s'" "mc_prod s' p = Push_Idle"
      "mc_push_ret s' p = Some False" "mpsc_view s' = mpsc_view s"
      "mpsc_claim 0 (of_nat (ncl s)) (mpsc_view s) = None"
  | (room) s' where
      "solo_push 5 p (s\<lparr>mc_prod := (mc_prod s)(p := Push_Head x)\<rparr>) = solo_push 2 p s'"
      "mc_prod s' p = Push_Write x (of_nat (ncl s))" "mc_capacity s \<noteq> 0" "mc_data s' = mc_data s"
      "mpsc_claim 0 (of_nat (ncl s)) (mpsc_view s) = Some (of_nat (ncl s), mpsc_view s')"
proof -
  note N = newest_values [OF inv]
  define n where "n = (of_nat (ncl s) :: size_t)"
  define f where "f = mpsc_is_full (mc_capacity s) n (of_nat (npo s))"
  define s0 where "s0 = s\<lparr>mc_prod := (mc_prod s)(p := Push_Head x)\<rparr>"
  define s1 where "s1 = s\<lparr>mc_head_seen := (mc_head_seen s)(Pr p := ncl s), mc_prod := (mc_prod s)(p := Push_Tail x n)\<rparr>"
  define s2 where "s2 = s1\<lparr>mc_tail_seen := (mc_tail_seen s)(p := npo s),
      mc_clk := (mc_clk s)(Pr p := vjoin (mc_clk s (Pr p)) (snd (mc_tails s ! npo s)))\<rparr>"
  define s3 where "s3 = (if f then s2\<lparr>mc_prod := (mc_prod s2)(p := Push_Idle), mc_push_ret := (mc_push_ret s2)(p := Some False)\<rparr>
            else s2\<lparr>mc_prod := (mc_prod s2)(p := Push_Cas x n)\<rparr>)"
  have 1: "push_step p (newest s0 p) False s0 = Some s1"
    using N by (simp add: s0_def s1_def push_step_def newest_def push_load_head_def n_def)
  have 2: "push_step p (newest s1 p) False s1 = Some s3"
    using N by (simp add: s1_def s2_def s3_def push_step_def newest_def push_load_tail_def case_prod_beta f_def)
  have claim: "mpsc_claim 0 n (mpsc_view s) = (if f then None else Some (n, (mpsc_view s)\<lparr>mq_head := n + 1\<rparr>))"
    using mpsc_claim_eq [of 0 "mpsc_view s"] N(3,6) by (simp add: f_def n_def)
  have five: "solo_push 5 p s0 = solo_push 3 p s3"
    using solo_push_Suc [OF _ 1, of 4] solo_push_Suc [OF _ 2, of 3] by (simp add: s0_def s1_def)
  show ?thesis
  proof (cases f)
    case True
    then show ?thesis
      using five claim
      by (intro full [of s3]) (simp_all add: s0_def s1_def s2_def s3_def n_def mpsc_view_def solo_push_idle)
  next
    case False
    define s4 where "s4 = s3\<lparr>mc_heads := mc_heads s @ [n + 1], mc_head_seen := (mc_head_seen s3)(Pr p := Suc (ncl s)),
        mc_prod := (mc_prod s3)(p := Push_Write x n), mc_claims := mc_claims s3 @ [(x, p)],
        mc_phase := (mc_phase s3)(ncl s := Claimed)\<rparr>"
    have "push_step p (newest s3 p) False s3 = Some s4"
      using N False by (simp add: s4_def s3_def s2_def s1_def push_step_def newest_def push_cas_def n_def)
    then have "solo_push 3 p s3 = solo_push 2 p s4"
      using solo_push_Suc [of s3 p s4 2] False by (simp add: s3_def)
    moreover have "mc_capacity s \<noteq> 0" using False by (auto simp: f_def mpsc_is_full_def)
    moreover have "mpsc_view s4 = (mpsc_view s)\<lparr>mq_head := n + 1\<rparr>" "mc_data s4 = mc_data s"
      using False by (simp_all add: s4_def s3_def s2_def s1_def mpsc_view_def)
    ultimately show ?thesis
      using five claim False by (intro room [of s4]) (simp_all add: s0_def s4_def n_def)
  qed
qed

lemma solo_push_is_push:
  assumes inv: "mpsc_conc_inv s"
  shows "\<exists>s' r. solo_push 5 p (s\<lparr>mc_prod := (mc_prod s)(p := Push_Head x)\<rparr>) = Some s' \<and>
     mc_prod s' p = Push_Idle \<and> mc_push_ret s' p = Some r \<and> mpsc_push 0 (mpsc_view s) x = Some (r, mpsc_view s')"
proof (cases rule: solo_push_claim [OF inv, of p x])
  case (1 s')
  then show ?thesis using newest_values(3) [OF inv]
    by (auto simp: mpsc_push_def intro!: exI [of _ s'] exI [of _ False])
next
  case room: (2 s4)
  define i where "i = unat (of_nat (ncl s) mod mc_capacity s)"
  have cap: "mc_capacity s4 = mc_capacity s"
    using room(5) arg_cong [OF mpsc_claim_eq [of 0 "mpsc_view s"], of "map_option (mq_capacity \<circ> snd)"]
      newest_values(3) [OF inv] by (auto split: if_splits)
  have i: "i < length (mc_data s4)"
    using room(3,4) counts_invD(4) [OF mpsc_conc_invD(1) [OF inv]] by (simp add: i_def unat_mod unat_gt_0)
  have "cell_of s4 (of_nat (ncl s)) = i"
    using room(3) cap by (simp add: cell_of_def mpsc_element_def i_def)
  then obtain s' where s': "solo_push 2 p s4 = Some s'" "mc_prod s' p = Push_Idle" "mc_push_ret s' p = Some True"
    "mpsc_view s' = (mpsc_view s4)\<lparr>mq_items := (mq_items (mpsc_view s4))[i := \<lparr>cell_data = x, cell_is_ready = True\<rparr>]\<rparr>"
    using solo_push_finish [OF room(2) _ i] by metis
  have "mpsc_push 0 (mpsc_view s) x = Some (True, mpsc_view s')"
    using room(3,5) i cap newest_values(3) [OF inv] s'(4)
    by (simp add: mpsc_push_def mpsc_element_def cell_updates Let_def i_def)
  with s' room(1) show ?thesis by (intro exI [of _ s'] exI [of _ True]) simp
qed

lemma solo_pop_Suc:
  "mc_cons s \<noteq> Pop_Idle \<Longrightarrow> pop_step mv (newest_c s) s = Some s' \<Longrightarrow> solo_pop mv (Suc n) s = solo_pop mv n s'"
  by (simp split: pop_pc.splits)

lemma solo_pop_idle: "mc_cons s = Pop_Idle \<Longrightarrow> solo_pop mv n s = Some s"
  by (cases n) simp_all

text \<open>Once the flag has been seen set, \<^verbatim>\<open>pop\<close> moves the value out, clears the flag and advances.\<close>

lemma solo_pop_finish:
  assumes pc: "mc_cons s = Pop_Move t" and cell: "cell_of s t = i" "i < length (mc_data s)"
  obtains s' where "solo_pop mv 3 s = Some s'" "mc_cons s' = Pop_Idle" "mc_pop_ret s' = Some True"
    "mc_popped s' = mc_popped s @ [mc_data s ! i]"
    "mpsc_view s' = (mpsc_view s)\<lparr>mq_items := (mq_items (mpsc_view s))[i :=
        \<lparr>cell_data = mv (mc_data s ! i), cell_is_ready = False\<rparr>], mq_tail := t + 1\<rparr>"
proof -
  define x where "x = mc_data s ! i"
  define s1 where "s1 = pop_move mv t s"
  define s2 where "s2 = pop_clear x t s1"
  define s' where "s' = pop_advance x t s2"
  have s1: "mc_data s1 = (mc_data s)[i := mv x]" "mc_ready s1 = mc_ready s" "mc_capacity s1 = mc_capacity s"
    "mc_heads s1 = mc_heads s" "mc_tails s1 = mc_tails s" "mc_popped s1 = mc_popped s" "mc_cons s1 = Pop_Clear x t"
    by (simp_all add: s1_def pop_move_def cell_access_def Let_def cell x_def)
  have "cell_of s1 t = i" unfolding cell(1) [symmetric] by (rule cell_of_cong) (simp_all add: s1)
  then have s2: "mc_data s2 = (mc_data s)[i := mv x]" "\<not> is_rdy s2 i" "\<And>j. j \<noteq> i \<Longrightarrow> mc_ready s2 j = mc_ready s j"
    "mc_capacity s2 = mc_capacity s" "mc_heads s2 = mc_heads s" "mc_tails s2 = mc_tails s"
    "mc_popped s2 = mc_popped s" "mc_cons s2 = Pop_Advance x t"
    by (simp_all add: s2_def pop_clear_def cell_access_def Let_def s1)
  have "mpsc_view s' = (mpsc_view s)\<lparr>mq_items := (mq_items (mpsc_view s))[i := \<lparr>cell_data = mv x, cell_is_ready = False\<rparr>],
      mq_head := last (mc_heads s'), mq_tail := fst (last (mc_tails s'))\<rparr>"
    by (rule view_update [OF cell(2)]) (simp_all add: s'_def pop_advance_def s2)
  then have "mpsc_view s' = (mpsc_view s)\<lparr>mq_items := (mq_items (mpsc_view s))[i := \<lparr>cell_data = mv x, cell_is_ready = False\<rparr>],
      mq_tail := t + 1\<rparr>"
    by (simp add: s'_def pop_advance_def s2 mpsc_view_def)
  moreover have "solo_pop mv 3 s = Some s'"
    using pc s1(7) s2(8) by (simp add: numeral_3_eq_3 pop_step_def s1_def s2_def s'_def)
  moreover have "mc_cons s' = Pop_Idle" "mc_pop_ret s' = Some True" "mc_popped s' = mc_popped s @ [x]"
    by (simp_all add: s'_def pop_advance_def s2)
  ultimately show ?thesis using that by (simp add: x_def)
qed

text \<open>The flag of the oldest claim decides.\<close>

lemma solo_pop_live:
  assumes inv: "mpsc_conc_inv s" and live: "npo s < ncl s"
  defines "k \<equiv> of_nat (npo s) :: size_t"
  assumes pc: "mc_cons s = Pop_Ready k"
  shows "\<exists>s' y. solo_pop mv 4 s = Some s' \<and> mc_cons s' = Pop_Idle \<and>
     mc_pop_ret s' = Some (y \<noteq> None) \<and> mc_popped s' = mc_popped s @ (case y of None \<Rightarrow> [] | Some v \<Rightarrow> [v]) \<and>
     mpsc_pop mv (mpsc_view s) = Some (y, mpsc_view s')"
proof -
  note N = newest_values [OF inv]
  note C = counts_invD [OF mpsc_conc_invD(1) [OF inv]]
  note F = claim_facts [OF inv order.refl live]
  define i where "i = slot_of s (npo s)"
  have ne: "of_nat (ncl s) \<noteq> k"
    using live C(1) unat_claim [of "npo s"] unat_claim [of "ncl s"] by (metis k_def less_irrefl order.strict_trans)
  have c0: "mc_capacity s \<noteq> 0" using F(2) C(4) by auto
  have el: "mpsc_element (mc_capacity s) k = Some i" and cell: "cell_of s k = i"
    using F(1) c0 by (simp_all add: cell_of_def mpsc_element_def i_def k_def)
  have ri: "mc_ready_seen s i < length (mc_ready s i)"
    using mpsc_conc_invD(6) [OF inv, of i] by (simp add: ready_inv_def)
  then have last: "mc_ready s i ! (length (mc_ready s i) - 1) = last (mc_ready s i)"
    by (subst last_conv_nth) auto
  define s2 where "s2 = s\<lparr>mc_ready_seen := (mc_ready_seen s)(i := length (mc_ready s i) - 1),
      mc_clk := (mc_clk s)(Co := vjoin (mc_clk s Co) (rdy_clk s i))\<rparr>"
  define s3 where "s3 = (if is_rdy s i then s2\<lparr>mc_cons := Pop_Move k\<rparr>
      else s2\<lparr>mc_cons := Pop_Idle, mc_pop_ret := Some False\<rparr>)"
  have "pop_step mv (newest_c s) s = Some s3"
    using ri last cell pc
    by (auto simp: pop_step_def newest_c_def pop_load_ready_def Let_def case_prod_beta s2_def s3_def)
  then have run: "solo_pop mv 4 s = solo_pop mv 3 s3" using solo_pop_Suc [of s mv s3 3] pc by simp
  have seq: "mpsc_pop mv (mpsc_view s) = (if is_rdy s i then Some (Some (mc_data s ! i), (mpsc_view s)\<lparr>mq_items :=
      (mq_items (mpsc_view s))[i := \<lparr>cell_data = mv (mc_data s ! i), cell_is_ready = False\<rparr>], mq_tail := k + 1\<rparr>)
      else Some (None, mpsc_view s))"
    using ne N(3,6) el F(2) by (simp add: mpsc_pop_def mpsc_is_empty_def k_def i_def Let_def cell_updates)
  have s3: "mpsc_view s3 = mpsc_view s" "mc_data s3 = mc_data s" "mc_popped s3 = mc_popped s" "cell_of s3 k = i"
    using el by (simp_all add: s3_def s2_def mpsc_view_def cell_of_def)
  show ?thesis
  proof (cases "is_rdy s i")
    case True
    then have "mc_cons s3 = Pop_Move k" by (simp add: s3_def)
    then obtain s' where "solo_pop mv 3 s3 = Some s'" "mc_cons s' = Pop_Idle" "mc_pop_ret s' = Some True"
      "mc_popped s' = mc_popped s3 @ [mc_data s3 ! i]"
      "mpsc_view s' = (mpsc_view s3)\<lparr>mq_items := (mq_items (mpsc_view s3))[i :=
        \<lparr>cell_data = mv (mc_data s3 ! i), cell_is_ready = False\<rparr>], mq_tail := k + 1\<rparr>"
      by (rule solo_pop_finish [OF _ s3(4)]) (use F(2) s3 in \<open>simp add: i_def\<close>)
    then show ?thesis
      using run seq True s3 by (intro exI [of _ s'] exI [of _ "Some (mc_data s ! i)"]) simp
  next
    case False
    then have "mc_cons s3 = Pop_Idle" "mc_pop_ret s3 = Some False" by (simp_all add: s3_def)
    with run seq False s3 show ?thesis by (intro exI [of _ s3] exI [of _ None]) (simp add: solo_pop_idle)
  qed
qed

lemma solo_pop_is_pop:
  assumes inv: "mpsc_conc_inv s" and idle: "mc_cons s = Pop_Idle"
  shows "\<exists>s' y. solo_pop mv 5 (s\<lparr>mc_cons := Pop_Head (of_nat (npo s))\<rparr>) = Some s' \<and> mc_cons s' = Pop_Idle \<and>
     mc_pop_ret s' = Some (y \<noteq> None) \<and> mc_popped s' = mc_popped s @ (case y of None \<Rightarrow> [] | Some v \<Rightarrow> [v]) \<and>
     mpsc_pop mv (mpsc_view s) = Some (y, mpsc_view s')"
proof -
  note N = newest_values [OF inv]
  define k where "k = (of_nat (npo s) :: size_t)"
  define s0 where "s0 = s\<lparr>mc_cons := Pop_Head k\<rparr>"
  define s1 where "s1 = (if of_nat (ncl s) = k then s\<lparr>mc_head_seen := (mc_head_seen s)(Co := ncl s), mc_cons := Pop_Idle, mc_pop_ret := Some False\<rparr>
      else s\<lparr>mc_head_seen := (mc_head_seen s)(Co := ncl s), mc_cons := Pop_Ready k\<rparr>)"
  have 1: "pop_step mv (newest_c s0) s0 = Some s1"
    using N by (simp add: s0_def s1_def pop_step_def newest_c_def pop_load_head_def mpsc_is_empty_def)
  then have run: "solo_pop mv 5 s0 = solo_pop mv 4 s1"
    using solo_pop_Suc [of s0 mv s1 4] by (simp add: s0_def)
  have view: "mpsc_view s1 = mpsc_view s" "ncl s1 = ncl s" "npo s1 = npo s" "mc_popped s1 = mc_popped s"
    by (simp_all add: s1_def mpsc_view_def)
  have "mpsc_step mv Do_Pop s = Some s0" using idle N(6) by (simp add: s0_def k_def)
  then have "mpsc_conc_inv s0" using call_inv [OF inv] by blast
  then have inv1: "mpsc_conc_inv s1" by (rule pop_step_inv [OF _ 1])
  show ?thesis
  proof (cases "of_nat (ncl s) = k")
    case True
    then have "mc_cons s1 = Pop_Idle" "mc_pop_ret s1 = Some False" by (simp_all add: s1_def)
    moreover have "mpsc_pop mv (mpsc_view s) = Some (None, mpsc_view s1)"
      using True N(3,6) view by (simp add: mpsc_pop_def mpsc_is_empty_def k_def Let_def)
    ultimately show ?thesis
      using run view by (intro exI [of _ s1] exI [of _ None]) (simp add: s0_def k_def solo_pop_idle)
  next
    case False
    then have "npo s \<noteq> ncl s" by (auto simp: k_def)
    then have "npo s1 < ncl s1" using counts_invD(2) [OF mpsc_conc_invD(1) [OF inv]] view by simp
    from solo_pop_live [OF inv1 this, of mv] False run view show ?thesis
      by (simp add: s0_def k_def s1_def)
  qed
qed

section \<open>One thread\<close>

text \<open>
  C29: any sequence of \<^verbatim>\<open>push\<close> and \<^verbatim>\<open>pop\<close> calls on a queue whose capacity is a power of two returns what a
  list of at most that many elements returns, whatever the compare-exchange does, across the
  wrap-around of the counters, and never leaves the array. \<^verbatim>\<open>size\<close>, \<^verbatim>\<open>empty\<close> and \<^verbatim>\<open>full\<close> describe that list.
  The destructor destroys exactly the cells the constructor made and frees what it allocated.
\<close>

theorem mpsc_fifo_of_any_run:
  assumes "mpsc_create av d c = Inr (q, ev)" "is_pow2 c"
  shows "\<exists>q'. impl_run (mpsc_push n) (mpsc_pop mv) q ps = Some (fst (spec_run (unat c) [] ps), q') \<and>
    mpsc_elems q' = snd (spec_run (unat c) [] ps) \<and>
    unat (mpsc_size q') = length (snd (spec_run (unat c) [] ps)) \<and>
    (mpsc_empty q' \<longleftrightarrow> snd (spec_run (unat c) [] ps) = []) \<and>
    (mpsc_full q' \<longleftrightarrow> length (snd (spec_run (unat c) [] ps)) = unat c) \<and>
    mpsc_capacity q' = c \<and>
    ev @ mpsc_destroy q' =
      Allocate c # map Construct [0..<unat c] @ map Destroy [0..<unat c] @ [Deallocate c]"
proof -
  note W = mpsc_create_wf [OF assms(1)]
  have "mpsc_inv q" using W assms(2) by (simp add: mpsc_inv_def)
  then obtain q' where r: "impl_run (mpsc_push n) (mpsc_pop mv) q ps = Some (fst (spec_run (unat c) [] ps), q')"
    and e: "mpsc_elems q' = snd (spec_run (unat c) [] ps)" and c: "mq_capacity q' = c"
  proof -
    have ok: "\<forall>p \<in> set ps. op_ok (\<lambda>_. True) p"
    proof
      show "op_ok (\<lambda>_. True) p" for p :: "'a fifo_op" by (cases p) simp_all
    qed
    show ?thesis
      using mpsc_fifo.run_refines [OF \<open>mpsc_inv q\<close> ok, of n mv] W that by (auto simp: word_unat_eq_iff)
  qed
  have l: "unat (mpsc_size q') = length (snd (spec_run (unat c) [] ps))"
    using length_mpsc_elems [of q'] by (simp add: e mpsc_size_def)
  have "mpsc_empty q' \<longleftrightarrow> unat (mpsc_size q') = 0" by (simp add: mpsc_empty_def unat_eq_0)
  moreover have "mpsc_full q' \<longleftrightarrow> unat (mpsc_size q') = unat c"
    by (simp add: mpsc_full_def c word_unat_eq_iff)
  moreover have "ev = Allocate c # map Construct [0..<unat c]"
    using assms(1) by (auto simp: mpsc_create_def split: if_splits)
  ultimately show ?thesis using r e l c
    by (auto simp: mpsc_destroy_def mpsc_capacity_def)
qed

theorem mpsc_fifo_of_any_run_witness:
  "\<exists>q'. impl_run (mpsc_push 1) (mpsc_pop id) (fst (projr (mpsc_create (\<lambda>_. True) (0::nat) 2)))
          [Push 5, Push 6, Push 7, Pop, Pop, Pop]
      = Some ([Pushed True, Pushed True, Pushed False, Popped (Some 5), Popped (Some 6), Popped None], q')"
proof -
  have "is_pow2 (2::size_t)" by (simp add: is_pow2_def)
  then show ?thesis
    using mpsc_fifo_of_any_run [of "\<lambda>_. True" 0 2 _ _ 1 id "[Push 5, Push 6, Push 7, Pop, Pop, Pop]"]
    by (force simp: mpsc_create_def)
qed

section \<open>Any number of producers\<close>

text \<open>
  C30: in every interleaving of any number of producers with the consumer, with every stale load and
  spurious failure the memory orders of the source allow, no two accesses to a cell race, no access
  leaves the array, and no two producers work on the same cell, as long as fewer than \<open>2 ^ 64\<close> values
  have been pushed.
\<close>

theorem mpsc_race_free:
  assumes "mpsc_reachable mv s" "length (mc_claims s) < 2 ^ 64"
  shows "\<not> mc_race s \<and> \<not> mc_oob s \<and>
    (\<forall>p q x y h g. p \<noteq> q \<longrightarrow>
       mc_prod s p = Push_Write x h \<or> mc_prod s p = Push_Publish x h \<longrightarrow>
       mc_prod s q = Push_Write y g \<or> mc_prod s q = Push_Publish y g \<longrightarrow> cell_of s h \<noteq> cell_of s g)"
proof -
  have inv: "mpsc_conc_inv s" using assms by (rule mpsc_reachable_inv)
  note D = mpsc_conc_invD [OF inv]
  have own: "\<exists>c. npo s \<le> c \<and> c < ncl s \<and> h = of_nat c \<and> mc_claims s ! c = (x, p)"
    if "mc_prod s p = Push_Write x h \<or> mc_prod s p = Push_Publish x h" for p x h
    using D(4) [of p] that by (auto simp: prod_inv_def)
  have "cell_of s h \<noteq> cell_of s g"
    if ne: "p \<noteq> q" and pp: "mc_prod s p = Push_Write x h \<or> mc_prod s p = Push_Publish x h"
      and qq: "mc_prod s q = Push_Write y g \<or> mc_prod s q = Push_Publish y g" for p q x y h g
  proof -
    obtain c d where c: "npo s \<le> c" "c < ncl s" "h = of_nat c" "mc_claims s ! c = (x, p)"
      and d: "npo s \<le> d" "d < ncl s" "g = of_nat d" "mc_claims s ! d = (y, q)"
      using own [OF pp] own [OF qq] by blast
    with ne have "c \<noteq> d" by auto
    then have "slot_of s c \<noteq> slot_of s d"
      using slot_of_inj [of s c d] c d counts_invD(3) [OF D(1)] by auto
    then show ?thesis using c d claim_facts(1) [OF inv] by simp
  qed
  then show ?thesis using D(8,9) by blast
qed

theorem mpsc_race_free_witness:
  "\<exists>s. mpsc_run id contended_start two_cells = Some s \<and> \<not> mc_race s \<and> \<not> mc_oob s \<and> cell_of s 0 \<noteq> cell_of s 1"
proof -
  obtain s where s: "mpsc_run id contended_start two_cells = Some s" "mc_claims s = [(5, 0), (6, 1)]"
      "mc_prod s 0 = Push_Write 5 0" "mc_prod s 1 = Push_Write 6 1"
    using contended_start_run [of id] by blast
  have r: "mpsc_reachable id s" by (rule mpsc_run_reachable [OF s(1) two_cells_reachable])
  have "length (mc_claims s) < 2 ^ 64" by (simp add: s(2))
  from mpsc_race_free [OF r this] have "\<not> mc_race s" "\<not> mc_oob s" "cell_of s 0 \<noteq> cell_of s 1"
    using s(3,4) zero_neq_one by blast+
  with s(1) show ?thesis by blast
qed

text \<open>
  C31: nothing is lost, duplicated or reordered. The values popped are the oldest claimed ones, in the
  order of the claims; at most a capacity of claims is outstanding; the claims of a producer are the
  pushes that returned true, in program order, and the one in progress; and of a producer's values
  only those whose push has returned are popped, in program order.
\<close>

theorem mpsc_no_loss:
  assumes "mpsc_reachable mv s" "length (mc_claims s) < 2 ^ 64"
  shows "mc_popped s = map fst (take (length (mc_popped s)) (mc_claims s)) \<and>
    length (mc_claims s) - length (mc_popped s) \<le> unat (mc_capacity s) \<and>
    (\<forall>p. map fst (filter (\<lambda>a. snd a = p) (mc_claims s)) = mc_done s p @ pending_push (mc_prod s p)) \<and>
    (\<forall>p. prefix (map fst (filter (\<lambda>a. snd a = p) (take (length (mc_popped s)) (mc_claims s)))) (mc_done s p))"
proof -
  have inv: "mpsc_conc_inv s" using assms by (rule mpsc_reachable_inv)
  note D = mpsc_conc_invD [OF inv]
  note C = counts_invD [OF D(1)]
  have dn: "claimed_by s p = mc_done s p @ pending_push (mc_prod s p)" for p
    using D(7) by (simp add: done_inv_def)
  define old where "old p = map fst (filter (\<lambda>a. snd a = p) (take (npo s) (mc_claims s)))" for p
  define new where "new p = map fst (filter (\<lambda>a. snd a = p) (drop (npo s) (mc_claims s)))" for p
  have split: "old p @ new p = claimed_by s p" for p
    unfolding old_def new_def claimed_by_def by (metis append_take_drop_id filter_append map_append)
  have "prefix (old p) (mc_done s p)" for p
  proof (cases "pending_push (mc_prod s p) = []")
    case True
    with split [of p] dn [of p] show ?thesis by (metis append_Nil2 prefixI)
  next
    case False
    then obtain x c where x: "pending_push (mc_prod s p) = [x]" and c: "npo s \<le> c" "c < ncl s" "mc_claims s ! c = (x, p)"
      using D(4) [of p] by (auto simp: pending_push_def prod_inv_def split: push_pc.splits)
    then have "drop (npo s) (mc_claims s) ! (c - npo s) = (x, p)" "c - npo s < length (drop (npo s) (mc_claims s))"
      by (simp_all add: diff_less_mono)
    then have "(x, p) \<in> set (drop (npo s) (mc_claims s))" by (metis nth_mem)
    then have "new p \<noteq> []" by (force simp: new_def filter_empty_conv)
    then obtain ys y where "new p = ys @ [y]" by (metis rev_exhaust)
    with split [of p] dn [of p] x show ?thesis by (metis append1_eq_conv append_assoc prefixI)
  qed
  then show ?thesis
    using C(3) dn arg_cong [OF C(7), of id] by (auto simp: old_def claimed_by_def take_map)
qed

theorem mpsc_no_loss_witness:
  "\<exists>s. mpsc_run id (contended_start @ contended_rest) two_cells = Some s \<and>
     mc_popped s = map fst (take 1 (mc_claims s)) \<and> prefix [5] (mc_done s 0)"
proof -
  obtain s where s: "mpsc_run id (contended_start @ contended_rest) two_cells = Some s"
      "mc_claims s = [(5, 0), (6, 1)]" "mc_popped s = [5]"
    using contended_run [of id] by blast
  have r: "mpsc_reachable id s" by (rule mpsc_run_reachable [OF s(1) two_cells_reachable])
  have "length (mc_claims s) < 2 ^ 64" by (simp add: s(2))
  from mpsc_no_loss [OF r this] have "prefix [5] (mc_done s 0)" "mc_popped s = map fst (take 1 (mc_claims s))"
    unfolding s(2,3) by (auto dest: spec [of _ 0])
  with s(1) show ?thesis by blast
qed

text \<open>
  C32: calls return. A producer anywhere inside \<^verbatim>\<open>push\<close> can always take its next step. In any run, among any other
  threads, it takes at most five own steps and two more for each compare-exchange that fails. One that fails is spurious, or reads an
  old value of \<^verbatim>\<open>head_\<close>, or has lost to another producer; and it has lost at most as often as \<^verbatim>\<open>head_\<close> has taken
  new values since the one the producer saw last. So if the others are stopped at any point, also between claim
  and publication, its loads return the newest values and no compare-exchange fails spuriously, then it returns within six
  steps. The consumer returns within five steps of its own whatever its loads return and whatever the producers
  do: each of its steps brings it nearer to its return, and no step of a producer moves it.
\<close>

theorem mpsc_calls_return:
  assumes "mpsc_reachable mv s" "length (mc_claims s) < 2 ^ 64"
  shows "push_left s p \<le> 5 \<and>
    (mc_prod s p \<noteq> Push_Idle \<longrightarrow> (\<forall>w. \<exists>i s'. push_step p i w s = Some s')) \<and>
    (\<forall>as s'. mpsc_run mv as s = Some s' \<and> list_all (\<lambda>a. \<not> enters_push p a) as \<longrightarrow>
      count_steps mv (own_step p) as s \<le>
        push_left s p + 2 * (count_steps mv (cas_lost p) as s + count_steps mv (cas_spurious p) as s) \<and>
      count_steps mv (cas_lost p) as s < length (mc_heads s') - mc_head_seen s (Pr p)) \<and>
    (\<exists>s'. solo_push 6 p s = Some s' \<and> mc_prod s' p = Push_Idle) \<and>
    (\<exists>s'. solo_pop mv 5 s = Some s' \<and> mc_cons s' = Pop_Idle) \<and>
    pop_work s \<le> 5 \<and>
    (mc_cons s \<noteq> Pop_Idle \<longrightarrow> (\<exists>i s'. pop_step mv i s = Some s')) \<and>
    (\<forall>i s'. pop_step mv i s = Some s' \<longrightarrow> pop_work s' < pop_work s) \<and>
    (\<forall>q i w s'. push_step q i w s = Some s' \<longrightarrow> pop_work s' = pop_work s)"
proof -
  have inv: "mpsc_conc_inv s" using assms by (rule mpsc_reachable_inv)
  have "push_work s p \<le> 6" by (simp add: push_work_def split: push_pc.splits)
  note solo = solo_push_returns [OF this disjI1 [OF inv]]
  have w: "pop_work s \<le> 5" by (simp add: pop_work_def split: pop_pc.splits)
  have others: "pop_work s' = pop_work s" if "push_step q i v s = Some s'" for q i v s'
  proof -
    have "mc_cons s' = mc_cons s"
      using that by (auto simp: push_step_def push_load_head_def push_load_tail_def push_cas_def push_write_def
          push_publish_def cell_access_def Let_def case_prod_beta split: push_pc.splits if_splits)
    then show ?thesis by (simp add: pop_work_def)
  qed
  have among: "count_steps mv (own_step p) as s \<le>
        push_left s p + 2 * (count_steps mv (cas_lost p) as s + count_steps mv (cas_spurious p) as s) \<and>
      count_steps mv (cas_lost p) as s < length (mc_heads s') - mc_head_seen s (Pr p)"
    if "mpsc_run mv as s = Some s'" "list_all (\<lambda>a. \<not> enters_push p a) as" for as s'
    using push_left_run [OF that] cas_lost_run [OF that(1) loop_head_reachable [OF assms(1)], of p] by linarith
  have "push_left s p \<le> 5" by (simp add: push_left_def split: push_pc.splits)
  then show ?thesis
    using solo solo_pop_returns [OF w inv] pop_step_progress pop_step_enabled [OF inv] push_step_enabled [OF inv] w others among
    by blast
qed

theorem mpsc_calls_return_witness:
  "\<exists>s. mpsc_run id contended_start two_cells = Some s \<and> mc_prod s 0 = Push_Write 5 0 \<and>
     (\<exists>s'. solo_push 6 0 s = Some s' \<and> mc_prod s' 0 = Push_Idle) \<and> count_steps id (own_step 0) contended_rest s \<le> 5"
proof -
  obtain s where s: "mpsc_run id contended_start two_cells = Some s" "mc_claims s = [(5, 0), (6, 1)]"
      "mc_prod s 0 = Push_Write 5 0"
      and f: "count_steps id (cas_lost 0) contended_rest s = 0" "count_steps id (cas_spurious 0) contended_rest s = 0"
      and r: "\<exists>s'. mpsc_run id contended_rest s = Some s'"
    by (simp add: contended_start_def contended_rest_def two_cells_def run_simps cas_lost_def cas_spurious_def)
  have re: "mpsc_reachable id s" by (rule mpsc_run_reachable [OF s(1) two_cells_reachable])
  have "length (mc_claims s) < 2 ^ 64" by (simp add: s(2))
  note c = mpsc_calls_return [OF re this, of 0]
  have "list_all (\<lambda>a. \<not> enters_push 0 a) contended_rest" by (simp add: contended_rest_def enters_push_def)
  with c r f have "count_steps id (own_step 0) contended_rest s \<le> 5" by fastforce
  with c s show ?thesis by blast
qed

text \<open>
  C33: the thread programs and the sequential functions agree. From every reachable state, whatever the
  other threads are in the middle of, a \<^verbatim>\<open>push\<close> that is not interrupted returns what the sequential \<^verbatim>\<open>push\<close>
  returns on the queue as it stands, and leaves the same queue; likewise for \<^verbatim>\<open>pop\<close>.
\<close>

theorem mpsc_uninterrupted_call:
  assumes "mpsc_reachable mv s" "length (mc_claims s) < 2 ^ 64"
  shows "(mc_prod s p = Push_Idle \<longrightarrow> (\<exists>s0 s' r. mpsc_step mv (Do_Push p x) s = Some s0 \<and> solo_push 5 p s0 = Some s' \<and>
            mc_prod s' p = Push_Idle \<and> mc_push_ret s' p = Some r \<and>
            mpsc_push 0 (mpsc_view s) x = Some (r, mpsc_view s'))) \<and>
    (mc_cons s = Pop_Idle \<longrightarrow> (\<exists>s0 s' y. mpsc_step mv Do_Pop s = Some s0 \<and> solo_pop mv 5 s0 = Some s' \<and>
            mc_cons s' = Pop_Idle \<and> mc_pop_ret s' = Some (y \<noteq> None) \<and>
            mc_popped s' = mc_popped s @ (case y of None \<Rightarrow> [] | Some v \<Rightarrow> [v]) \<and>
            mpsc_pop mv (mpsc_view s) = Some (y, mpsc_view s')))"
proof -
  have inv: "mpsc_conc_inv s" using assms by (rule mpsc_reachable_inv)
  have "mpsc_step mv Do_Pop s = Some (s\<lparr>mc_cons := Pop_Head (of_nat (npo s))\<rparr>)" if "mc_cons s = Pop_Idle"
    using that newest_values(6) [OF inv] by simp
  moreover have "mpsc_step mv (Do_Push p x) s = Some (s\<lparr>mc_prod := (mc_prod s)(p := Push_Head x)\<rparr>)"
    if "mc_prod s p = Push_Idle" using that by simp
  ultimately show ?thesis
    using solo_push_is_push [OF inv, of p x] solo_pop_is_pop [OF inv, of mv] by blast
qed

theorem mpsc_uninterrupted_call_witness:
  "\<exists>s. mpsc_run id contended_start two_cells = Some s \<and>
     (\<exists>s0 s' r. mpsc_step id (Do_Push 2 7) s = Some s0 \<and> solo_push 5 2 s0 = Some s' \<and>
        mc_push_ret s' 2 = Some r \<and> mpsc_push 0 (mpsc_view s) 7 = Some (r, mpsc_view s'))"
proof -
  obtain s where s: "mpsc_run id contended_start two_cells = Some s" "mc_claims s = [(5, 0), (6, 1)]"
      "mc_prod s 2 = Push_Idle"
    using contended_start_run [of id] by blast
  have r: "mpsc_reachable id s" by (rule mpsc_run_reachable [OF s(1) two_cells_reachable])
  have "length (mc_claims s) < 2 ^ 64" by (simp add: s(2))
  from mpsc_uninterrupted_call [OF r this, of 2 7] s(1,3) show ?thesis by blast
qed

section \<open>What the design does not intend\<close>

text \<open>
  \<^verbatim>\<open>push\<close> can report a full queue when the queue is empty. A producer loads \<^verbatim>\<open>head_\<close>; before it loads
  \<^verbatim>\<open>tail_\<close>, another value is pushed and popped; then \<^verbatim>\<open>head - tail\<close> is \<open>2 ^ 64 - 1\<close>, and the test for a full
  queue holds although there never was more than one element in two cells.
\<close>

lemma mpsc_push_spuriously_full:
  "\<exists>s as. mpsc_run mv as two_cells = Some s \<and> mc_push_ret s 0 = Some False \<and>
     mpsc_size (mpsc_view s) = 0 \<and> mpsc_capacity (mpsc_view s) = 2 \<and> length (mc_claims s) = 1"
proof (intro exI conjI)
  let ?as = "[Do_Push 0 5, Prod_Step 0 0 False,
      Do_Push 1 6, Prod_Step 1 0 False, Prod_Step 1 0 False, Prod_Step 1 0 False, Prod_Step 1 0 False, Prod_Step 1 0 False,
      Do_Pop, Cons_Step 1, Cons_Step 1, Cons_Step 0, Cons_Step 0, Cons_Step 0, Prod_Step 0 1 False]"
  show "mpsc_run mv ?as two_cells = Some (the (mpsc_run mv ?as two_cells))"
    by (simp add: two_cells_def run_simps unsigned_minus_1_eq_mask mask_eq_exp_minus_1 Let_def)
  show "mc_push_ret (the (mpsc_run mv ?as two_cells)) 0 = Some False"
    "mpsc_size (mpsc_view (the (mpsc_run mv ?as two_cells))) = 0"
    "mpsc_capacity (mpsc_view (the (mpsc_run mv ?as two_cells))) = 2"
    "length (mc_claims (the (mpsc_run mv ?as two_cells))) = 1"
    by (simp_all add: two_cells_def run_simps unsigned_minus_1_eq_mask mask_eq_exp_minus_1 Let_def mpsc_view_def mpsc_size_def mpsc_capacity_def)
qed

text \<open>
  a capacity that is not a power of two, which the constructor accepts, loses elements when the
  counters wrap. After \<open>2 ^ 64 - 1\<close> pushes, each popped at once, a queue of capacity 3 puts the next two
  values into the same cell: both pushes return true, \<^verbatim>\<open>pop\<close> returns the second value, and then nothing
  although the size is one.
\<close>

lemma mpsc_wrap_loses_element:
  "\<exists>q ev q1 q2 q3 q4. mpsc_create (\<lambda>_. True) d 3 = Inr (q, ev) \<and>
     push_pop_pairs mv x (2 ^ 64 - 1) q = Some q1 \<and>
     mpsc_push 0 q1 a = Some (True, q2) \<and> mpsc_push 0 q2 b = Some (True, q3) \<and>
     mpsc_pop mv q3 = Some (Some b, q4) \<and> mpsc_pop mv q4 = Some (None, q4) \<and> mpsc_size q4 = 1"
proof -
  define q where "q = fst (projr (mpsc_create (\<lambda>_. True) d 3))"
  have q: "mpsc_create (\<lambda>_. True) d 3 = Inr (q, snd (projr (mpsc_create (\<lambda>_. True) d 3)))"
    by (simp add: q_def mpsc_create_def)
  have "drained_at 3 0 q" by (simp add: drained_at_def q_def mpsc_create_def)
  from push_pop_pairs_drained [OF this, of mv x "2 ^ 64 - 1"] obtain q1 where
    q1: "push_pop_pairs mv x (2 ^ 64 - 1) q = Some q1" "drained_at 3 (of_nat (2 ^ 64 - 1)) q1"
    by auto
  have "of_nat (2 ^ 64 - 1) = (- 1 :: size_t)" by simp
  note q1 = q1(1) q1(2) [unfolded this]
  define q2 where "q2 = q1\<lparr>mq_head := 0, mq_items := (mq_items q1)[0 := \<lparr>cell_data = a, cell_is_ready = True\<rparr>]\<rparr>"
  define q3 where "q3 = q2\<lparr>mq_head := 1, mq_items := (mq_items q1)[0 := \<lparr>cell_data = b, cell_is_ready = True\<rparr>]\<rparr>"
  define q4 where "q4 = q3\<lparr>mq_tail := 0, mq_items := (mq_items q1)[0 := \<lparr>cell_data = mv b, cell_is_ready = False\<rparr>]\<rparr>"
  have m: "unat ((- 1 :: size_t) mod 3) = 0" by simp
  have f: "mq_capacity q1 = 3" "mq_tail q1 = - 1" "mq_head q1 = - 1" "length (mq_items q1) = 3"
    using q1(2) by (simp_all add: drained_at_def)
  have "mpsc_push 0 q1 a = Some (True, q2)"
    using push_drained [OF q1(2), of 0 a] by (simp add: q2_def)
  moreover have "mpsc_push 0 q2 b = Some (True, q3)"
    using mpsc_claim_eq [of 0 q2] f
    by (simp add: mpsc_push_def q2_def q3_def mpsc_is_full_def mpsc_element_def cell_updates word_le_nat_alt)
  moreover have "mpsc_pop mv q3 = Some (Some b, q4)"
    using f m by (simp add: mpsc_pop_def q2_def q3_def q4_def mpsc_is_empty_def mpsc_element_def cell_updates)
  moreover have "mpsc_pop mv q4 = Some (None, q4)" "mpsc_size q4 = 1"
    using f by (simp_all add: mpsc_pop_def mpsc_size_def q2_def q3_def q4_def mpsc_is_empty_def mpsc_element_def)
  ultimately show ?thesis using q q1(1) by blast
qed

end
