(* ===== verification/Test_Mpsc.thy ===== *)
theory Test_Mpsc
  imports Test_Program Mpsc_Client Mpsc_Properties
begin

text \<open>
  The test program \<^verbatim>\<open>test_mpmc.cpp\<close> as a client of the queue. A test that passes returns what happened to
  the storage of its queue. \<open>w\<close> says how often the compare-exchange in the push of a value fails for no
  reason. \<^verbatim>\<open>test_concurrent_mpmc\<close>, which \<^verbatim>\<open>main\<close> does not call, is in \<open>Test_Mpmc\<close>.
\<close>

unbundle bit_operations_syntax

section \<open>Definitions\<close>

definition with_queue ::
  "(size_t \<Rightarrow> bool) \<Rightarrow> 'a \<Rightarrow> size_t \<Rightarrow> ('a mpsc_queue \<Rightarrow> 'a mpsc_queue test) \<Rightarrow> storage_event list test" where
  "with_queue available d capacity body =
     (case mpsc_create available d capacity of
        Inl e \<Rightarrow> Crashed
      | Inr (q, evs) \<Rightarrow> and_then (body q) (\<lambda>q. Ok (evs @ mpsc_destroy q)))"

subsection \<open>One thread\<close>

definition test_construction :: "(size_t \<Rightarrow> bool) \<Rightarrow> storage_event list test" where
  "test_construction available = with_queue available (0::u32) 8 (\<lambda>q.
     ASSERT (mpsc_capacity q = 8) (ASSERT (mpsc_empty q) (ASSERT (\<not> mpsc_full q) (ASSERT (mpsc_size q = 0) (Ok q)))))"

definition test_queue_push_pop :: "(u32 \<Rightarrow> nat) \<Rightarrow> (size_t \<Rightarrow> bool) \<Rightarrow> storage_event list test" where
  "test_queue_push_pop w available = with_queue available (0::u32) 8 (\<lambda>q.
     call (mpsc_pop id q) (\<lambda>(v, q). ASSERT (v = None) (
     call (mpsc_push (w 42) q 42) (\<lambda>(b, q). ASSERT b (ASSERT (mpsc_size q = 1) (
     call (mpsc_pop id q) (\<lambda>(v, q). ASSERT (v \<noteq> None) (ASSERT (v = Some 42) (ASSERT (mpsc_empty q) (Ok q))))))))))"

fun push_each :: "(u32 \<Rightarrow> nat) \<Rightarrow> u32 list \<Rightarrow> u32 mpsc_queue \<Rightarrow> u32 mpsc_queue test" where
  "push_each w [] q = Ok q"
| "push_each w (i # is) q = call (mpsc_push (w i) q i) (\<lambda>(b, q). ASSERT b (push_each w is q))"

fun pop_each :: "u32 list \<Rightarrow> u32 mpsc_queue \<Rightarrow> u32 mpsc_queue test" where
  "pop_each [] q = Ok q"
| "pop_each (i # is) q = call (mpsc_pop id q) (\<lambda>(v, q). ASSERT (v \<noteq> None) (ASSERT (v = Some i) (pop_each is q)))"

fun push_pop_each :: "(u32 \<Rightarrow> nat) \<Rightarrow> u32 list \<Rightarrow> u32 mpsc_queue \<Rightarrow> u32 mpsc_queue test" where
  "push_pop_each w [] q = Ok q"
| "push_pop_each w (i # is) q =
     call (mpsc_push (w i) q i) (\<lambda>(b, q). ASSERT b (
     call (mpsc_pop id q) (\<lambda>(v, q). ASSERT (v \<noteq> None) (ASSERT (v = Some i) (push_pop_each w is q)))))"

definition test_queue_fill :: "(u32 \<Rightarrow> nat) \<Rightarrow> (size_t \<Rightarrow> bool) \<Rightarrow> storage_event list test" where
  "test_queue_fill w available = with_queue available 0 4 (\<lambda>q.
     and_then (push_each w [0, 1, 2, 3] q) (\<lambda>q. ASSERT (mpsc_full q) (
     call (mpsc_push (w 99) q 99) (\<lambda>(b, q). ASSERT (\<not> b) (ASSERT (mpsc_size q = 4) (
     and_then (pop_each [0, 1, 2, 3] q) (\<lambda>q.
     call (mpsc_pop id q) (\<lambda>(v, q). ASSERT (v = None) (Ok q)))))))))"

definition test_queue_wrap :: "(u32 \<Rightarrow> nat) \<Rightarrow> (size_t \<Rightarrow> bool) \<Rightarrow> storage_event list test" where
  "test_queue_wrap w available = with_queue available 0 4 (push_pop_each w (map of_nat [0..<1000]))"

subsection \<open>Several threads\<close>

definition kSpscCap :: u32 where "kSpscCap = 1024"
definition kSpscItems :: u32 where "kSpscItems = push_bit 22 1"
definition kMpscProducers :: u32 where "kMpscProducers = 4"
definition kMpscPerProd :: u32 where "kMpscPerProd = push_bit 18 1"
definition kMpscCap :: u32 where "kMpscCap = 1024"

text \<open>
  Turns \<open>before\<close> \<^verbatim>\<open>ready\<close> is set, the rounds after it, the joins, and the assertions. A thread is joined when it
  has left its loop; the consumer also leaves it when a check fails.
\<close>

definition run_threads ::
  "nat \<Rightarrow> u32 \<Rightarrow> (tid \<Rightarrow> u32 \<Rightarrow> 'a) \<Rightarrow> (u32 \<Rightarrow> 'a \<Rightarrow> 'k \<Rightarrow> 'k option) \<Rightarrow> u32 \<Rightarrow> 'k \<Rightarrow>
   (thread \<times> nat) list \<Rightarrow> (thread \<times> nat) list list \<Rightarrow> 'a mpsc_queue \<Rightarrow> 'a mpsc_queue test" where
  "run_threads n per item check items c before rounds q =
     call (run_moves (thread_turn n per item check items) before (mclient_start q c)) (\<lambda>b.
     call (run_rounds stores_visible (thread_turn n per item check items) rounds (b\<lparr>ml_ready := True\<rparr>)) (\<lambda>b.
     if list_ex (\<lambda>p. ml_i b p < per) [0..<n] \<or> ml_ok b \<and> ml_total b < items then Unfinished
     else ASSERT (ml_ok b) (ASSERT (mpsc_empty (mpsc_view (ml_conc b))) (Ok (mpsc_view (ml_conc b))))))"

definition spsc_check :: "u32 \<Rightarrow> u32 \<Rightarrow> unit \<Rightarrow> unit option" where
  "spsc_check expected got u = (if got \<noteq> expected then None else Some ())"

definition test_queue_spsc ::
  "(size_t \<Rightarrow> bool) \<Rightarrow> (thread \<times> nat) list \<Rightarrow> (thread \<times> nat) list list \<Rightarrow> storage_event list test" where
  "test_queue_spsc available before rounds = with_queue available 0 (ucast kSpscCap)
     (run_threads 1 kSpscItems (\<lambda>p i. i) spsc_check kSpscItems () before rounds)"

definition pack :: "u32 \<Rightarrow> u32 \<Rightarrow> u64" where
  "pack pid seq = push_bit 32 (ucast pid) OR ucast seq"

definition unpack_pid :: "u64 \<Rightarrow> u32" where "unpack_pid v = ucast (drop_bit 32 v)"
definition unpack_seq :: "u64 \<Rightarrow> u32" where "unpack_seq v = ucast v"

text \<open>The check of the consumer, with its tables \<^verbatim>\<open>first\<close> and \<^verbatim>\<open>last_seq\<close>.\<close>

definition mpsc_check :: "u32 \<Rightarrow> u64 \<Rightarrow> bool list \<times> u32 list \<Rightarrow> (bool list \<times> u32 list) option" where
  "mpsc_check count got tables =
     (case tables of (firsts, last_seq) \<Rightarrow>
      let pid = unpack_pid got; seq = unpack_seq got; i = unat pid in
      if pid \<ge> kMpscProducers then None
      else if firsts ! i
           then if seq \<noteq> 0 then None else Some (firsts[i := False], last_seq[i := seq])
           else if seq \<noteq> last_seq ! i + 1 then None else Some (firsts, last_seq[i := seq]))"

definition test_queue_mpsc ::
  "(size_t \<Rightarrow> bool) \<Rightarrow> (thread \<times> nat) list \<Rightarrow> (thread \<times> nat) list list \<Rightarrow> storage_event list test" where
  "test_queue_mpsc available before rounds = with_queue available 0 (ucast kMpscCap)
     (run_threads (unat kMpscProducers) kMpscPerProd (\<lambda>p i. pack (of_nat p) i) mpsc_check (kMpscProducers * kMpscPerProd)
       (replicate (unat kMpscProducers) True, replicate (unat kMpscProducers) 0) before rounds)"

definition queue_test_main ::
  "(u32 \<Rightarrow> nat) \<Rightarrow> (size_t \<Rightarrow> bool) \<Rightarrow> (thread \<times> nat) list \<Rightarrow> (thread \<times> nat) list list \<Rightarrow>
   (thread \<times> nat) list \<Rightarrow> (thread \<times> nat) list list \<Rightarrow> storage_event list test" where
  "queue_test_main w available before rounds before' rounds' =
     and_then (test_construction available) (\<lambda>e1.
     and_then (test_queue_push_pop w available) (\<lambda>e2.
     and_then (test_queue_fill w available) (\<lambda>e3.
     and_then (test_queue_wrap w available) (\<lambda>e4.
     and_then (test_queue_spsc available before rounds) (\<lambda>e5.
     and_then (test_queue_mpsc available before' rounds') (\<lambda>e6.
     Ok (e1 @ e2 @ e3 @ e4 @ e5 @ e6)))))))"

section \<open>The tests with one thread\<close>

definition q_holds :: "'a mpsc_queue \<Rightarrow> size_t \<Rightarrow> 'a list \<Rightarrow> bool" where
  "q_holds q c xs \<longleftrightarrow> mpsc_inv q \<and> mq_capacity q = c \<and> mpsc_elems q = xs"

definition lifetime :: "size_t \<Rightarrow> storage_event list" where
  "lifetime c = Allocate c # map Construct [0..<unat c] @ map Destroy [0..<unat c] @ [Deallocate c]"

lemma q_holds_queries:
  assumes "q_holds q c xs"
  shows "mpsc_size q = of_nat (length xs)" "mpsc_empty q \<longleftrightarrow> xs = []" "mpsc_full q \<longleftrightarrow> length xs = unat c"
    "mpsc_capacity q = c" "length xs \<le> unat c"
proof -
  have l: "unat (mpsc_size q) = length xs" using assms by (auto simp: q_holds_def mpsc_size_def)
  show "mpsc_size q = of_nat (length xs)" by (simp flip: l)
  show "mpsc_empty q \<longleftrightarrow> xs = []" using l by (auto simp: mpsc_empty_def unat_eq_0 simp flip: length_0_conv)
  show "mpsc_full q \<longleftrightarrow> length xs = unat c" using l assms by (auto simp: mpsc_full_def q_holds_def word_unat_eq_iff)
  show "mpsc_capacity q = c" using assms by (simp add: mpsc_capacity_def q_holds_def)
  show "length xs \<le> unat c" using mpsc_wfD(2) [of q] assms by (auto simp: q_holds_def mpsc_inv_def)
qed

lemma q_holds_push:
  assumes h: "q_holds q c xs"
  shows "\<exists>q'. mpsc_push n q v = Some (length xs < unat c, q') \<and> q_holds q' c (if length xs < unat c then xs @ [v] else xs)"
proof -
  have wf: "mpsc_wf q" and p2: "is_pow2 (mq_capacity q)" and n: "mpsc_count q = length xs"
    using h by (auto simp: q_holds_def mpsc_inv_def)
  show ?thesis
  proof (cases "length xs < unat c")
    case True
    with h n have "mpsc_count q < unat (mq_capacity q)" by (simp add: q_holds_def)
    show ?thesis by (rule mpsc_push_room [OF wf no_wrap_pow2 [OF p2] \<open>mpsc_count q < _\<close>, of n v])
        (use True h in \<open>auto simp: q_holds_def mpsc_inv_def\<close>)
  next
    case False
    then show ?thesis using mpsc_push_full [OF wf] h n by (simp add: q_holds_def)
  qed
qed

lemma q_holds_pop:
  assumes h: "q_holds q c xs"
  shows "\<exists>q'. mpsc_pop id q = Some (if xs = [] then None else Some (hd xs), q') \<and> q_holds q' c (tl xs)"
proof -
  have wf: "mpsc_wf q" and p2: "is_pow2 (mq_capacity q)" and n: "mpsc_count q = length xs"
    using h by (auto simp: q_holds_def mpsc_inv_def)
  show ?thesis
  proof (cases xs)
    case Nil
    then show ?thesis using mpsc_pop_empty [of q id] n h by simp
  next
    case (Cons y ys)
    then have "mpsc_elems q = y # ys" using h by (simp add: q_holds_def)
    show ?thesis by (rule mpsc_pop_some [OF wf p2 \<open>mpsc_elems q = y # ys\<close>, of id])
        (use Cons h in \<open>auto simp: q_holds_def mpsc_inv_def\<close>)
  qed
qed

lemma passes_mpsc_push:
  assumes "q_holds q c xs"
    and "\<And>q'. q_holds q' c (if length xs < unat c then xs @ [v] else xs) \<Longrightarrow> passes (k (length xs < unat c, q')) Q"
  shows "passes (call (mpsc_push n q v) k) Q"
  using q_holds_push [OF assms(1), of n v] assms(2) by (auto simp: call_def)

lemma passes_mpsc_pop:
  assumes "q_holds q c xs"
    and "\<And>q'. q_holds q' c (tl xs) \<Longrightarrow> passes (k (if xs = [] then None else Some (hd xs), q')) Q"
  shows "passes (call (mpsc_pop id q) k) Q"
  using q_holds_pop [OF assms(1)] assms(2) by (auto simp: call_def)

lemma passes_with_queue:
  assumes "available c" "\<And>q evs. mpsc_create available d c = Inr (q, evs) \<Longrightarrow> passes (body q) (\<lambda>q. mq_capacity q = c)"
  shows "passes (with_queue available d c body) (\<lambda>evs. evs = lifetime c)"
proof -
  obtain q where q: "mpsc_create available d c = Inr (q, Allocate c # map Construct [0..<unat c])"
    using assms(1) by (simp add: mpsc_create_def)
  from assms(2) [OF q] show ?thesis using q by (auto simp: with_queue_def passes_def mpsc_destroy_def lifetime_def)
qed

lemma passes_one_thread:
  assumes "available c" "is_pow2 c" "\<And>q. q_holds q c [] \<Longrightarrow> passes (body q) (\<lambda>q. mq_capacity q = c)"
  shows "passes (with_queue available d c body) (\<lambda>evs. evs = lifetime c)"
  by (rule passes_with_queue [where available = available, OF assms(1)], rule assms(3))
    (use assms(2) mpsc_create_wf in \<open>fastforce simp: q_holds_def mpsc_inv_def\<close>)

lemma passes_push_each:
  "q_holds q c xs \<Longrightarrow> length xs + length vs \<le> unat c \<Longrightarrow> passes (push_each w vs q) (\<lambda>q'. q_holds q' c (xs @ vs))"
proof (induction vs arbitrary: q xs)
  case (Cons v vs)
  then show ?case by (auto intro!: passes_mpsc_push [OF Cons.prems(1)] passes_ASSERT dest: Cons.IH)
qed (simp add: passes_Ok)

lemma passes_pop_each: "q_holds q c (vs @ xs) \<Longrightarrow> passes (pop_each vs q) (\<lambda>q'. q_holds q' c xs)"
proof (induction vs arbitrary: q)
  case (Cons v vs)
  then show ?case by (auto intro!: passes_mpsc_pop [OF Cons.prems] passes_ASSERT Cons.IH)
qed (simp add: passes_Ok)

lemma passes_push_pop_each:
  "q_holds q c [] \<Longrightarrow> 0 < unat c \<Longrightarrow> passes (push_pop_each w vs q) (\<lambda>q'. q_holds q' c [])"
proof (induction vs arbitrary: q)
  case (Cons v vs)
  show ?case using Cons.prems(2) by (auto intro!: passes_mpsc_push [OF Cons.prems(1)] passes_mpsc_pop passes_ASSERT Cons.IH)
qed (simp add: passes_Ok)

lemmas queue_rules = passes_ASSERT passes_mpsc_push passes_mpsc_pop passes_Ok

lemma construction_passes:
  assumes "available 8"
  shows "passes (test_construction available) (\<lambda>evs. evs = lifetime 8)"
  unfolding test_construction_def
  by (rule passes_one_thread; (rule assms | simp add: is_pow2_def)?)
    ((rule queue_rules, (assumption | simp add: q_holds_queries q_holds_def)+)+)

lemma queue_push_pop_passes:
  assumes "available 8"
  shows "passes (test_queue_push_pop w available) (\<lambda>evs. evs = lifetime 8)"
  unfolding test_queue_push_pop_def
  by (rule passes_one_thread; (rule assms | simp add: is_pow2_def)?)
    ((rule queue_rules, (assumption | simp add: q_holds_queries | simp add: q_holds_def)+)+)

lemma queue_fill_passes:
  assumes "available 4"
  shows "passes (test_queue_fill w available) (\<lambda>evs. evs = lifetime 4)"
  unfolding test_queue_fill_def
  supply [simp del] = push_each.simps pop_each.simps
  by (rule passes_one_thread; (rule assms | simp add: is_pow2_def)?)
    ((rule passes_then [OF passes_push_each] passes_then [OF passes_pop_each [where xs = "[]"]] queue_rules,
      (assumption | simp add: q_holds_queries | simp add: q_holds_def)+)+)

lemma queue_wrap_passes:
  assumes "available 4"
  shows "passes (test_queue_wrap w available) (\<lambda>evs. evs = lifetime 4)"
  unfolding test_queue_wrap_def
proof (rule passes_one_thread [where available = available, OF assms])
  fix q :: "u32 mpsc_queue" assume "q_holds q 4 []"
  from passes_push_pop_each [OF this] show "passes (push_pop_each w (map of_nat [0..<1000]) q) (\<lambda>q. mq_capacity q = 4)"
    by (auto simp: passes_def q_holds_def)
qed (simp add: is_pow2_def)

section \<open>The tests with several threads\<close>

lemma turn_keeps:
  assumes "thread_turn n per item check items t k b = Some b'"
  shows "mc_capacity (ml_conc b') = mc_capacity (ml_conc b)"
  using assms push_step_keeps(1) pop_step_keeps(1)
  by (auto simp: thread_turn_def producer_turn_def consumer_turn_def Let_def split: thread.splits if_splits push_pc.splits
      pop_pc.splits option.splits Option.bind_splits)

lemma not_ready_idle: "\<not> ml_ready b \<Longrightarrow> run_moves (thread_turn n per item check items) ts b = Some b"
  by (rule run_moves_idle) (simp add: thread_turn_def producer_turn_def consumer_turn_def split: thread.split)

context checked_load
begin

lemma start_inv:
  assumes q: "mpsc_create av d c = Inr (q, ev)" "0 < c" and k: "K (\<lambda>_. 0) c0"
  shows "mclient_inv n per item K ((mclient_start q c0)\<lparr>ml_ready := True\<rparr>)"
proof -
  note i = mpsc_init_inv [OF q(1)]
  have "taken (mpsc_conc_init q) = (\<lambda>_. 0)" by (simp add: taken_def mpsc_conc_init_def fun_eq_iff)
  moreover have "0 < mcap (mpsc_conc_init q)" using mpsc_create_wf(3) [OF q(1)] q(2) by (simp add: mpsc_conc_init_def word_less_nat_alt)
  ultimately show ?thesis using i k
    by (simp add: mclient_inv_def mclient_start_def producer_ok_def pushing_def) (simp add: mpsc_conc_init_def)
qed

lemma threads_run:
  assumes q: "mpsc_create av d c = Inr (q, ev)" "0 < c" and k: "K (\<lambda>_. 0) c0"
  shows "run_threads n per item check items c0 before rs q = Unfinished \<or>
    passes (run_threads n per item check items c0 before rs q) (\<lambda>q'. mq_capacity q' = c)"
    "3 * (n * unat per) \<le> good_rounds (Pr ` {..<n} \<union> {Co}) 7 even rs \<Longrightarrow>
      run_threads n per item check items c0 before rs q \<noteq> Unfinished"
proof -
  let ?run = "run_rounds stores_visible (thread_turn n per item check items) rs"
  let ?b = "(mclient_start q c0)\<lparr>ml_ready := True\<rparr>"
  note inv = start_inv [OF q k]
  obtain b where b: "?run ?b = Some b" "mclient_inv n per item K b" using threads.rounds_defined [OF inv] by blast
  have "mc_capacity (ml_conc b) = mc_capacity (ml_conc ?b)"
    by (rule run_rounds_keeps [OF _ _ b(1)]) (auto simp: turn_keeps stores_visible_def)
  then have cap: "mc_capacity (ml_conc b) = c"
    using mpsc_create_wf(3) [OF q(1)] by (simp add: mclient_start_def mpsc_conc_init_def)
  note C = counts [OF b(2)] and N = newest_values [OF invD(3) [OF b(2)]]
  have run: "run_threads n per item check items c0 before rs q =
      (if list_ex (\<lambda>p. ml_i b p < per) [0..<n] \<or> ml_total b < items then Unfinished
       else ASSERT (mpsc_empty (mpsc_view (ml_conc b))) (Ok (mpsc_view (ml_conc b))))"
    using b(1) invD(2) [OF b(2)] not_ready_idle [of "mclient_start q c0"]
    by (simp add: run_threads_def call_def mclient_start_def ASSERT_def)
  have "mpsc_empty (mpsc_view (ml_conc b))" if "\<not> ml_total b < items"
  proof -
    have "npo (ml_conc b) = ncl (ml_conc b)" using that C(1,3) invD(6) [OF b(2)] items by (simp add: word_less_nat_alt)
    then show ?thesis using N(3,6) by (simp add: mpsc_empty_def mpsc_size_def)
  qed
  then show "run_threads n per item check items c0 before rs q = Unfinished \<or>
      passes (run_threads n per item check items c0 before rs q) (\<lambda>q'. mq_capacity q' = c)"
    using cap by (auto simp: run passes_def ASSERT_def)
  show "run_threads n per item check items c0 before rs q \<noteq> Unfinished"
    if "3 * (n * unat per) \<le> good_rounds (Pr ` {..<n} \<union> {Co}) 7 even rs"
  proof -
    have goal: "headway n b = 3 * (n * unat per)" using threads.rounds_reach_goal [OF inv, of rs] that b(1) by auto
    then have "\<not> ml_total b < items" "accepted n b = n * unat per"
      using C(1-3) invD(6) [OF b(2)] items by (auto simp: word_less_nat_alt)
    moreover have "\<not> ml_i b p < per" if "p < n" for p
    proof
      assume "ml_i b p < per"
      then have "(\<Sum>p<n. unat (ml_i b p)) < (\<Sum>p<n. unat per)"
        using that invD(5) [OF b(2)] by (intro sum_strict_mono_ex1) (auto simp: producer_ok_def word_le_nat_alt word_less_nat_alt)
      with \<open>accepted n b = n * unat per\<close> show False by (simp add: accepted_def)
    qed
    ultimately show ?thesis by (auto simp: run list_ex_iff ASSERT_def)
  qed
qed

end

interpretation spsc_load: checked_load 1 kSpscItems "\<lambda>p i. i" spsc_check "\<lambda>f u. True" kSpscItems
  by unfold_locales (simp_all add: spsc_check_def)

lemma unpack_pack [simp]: "unpack_pid (pack p i) = p" "unpack_seq (pack p i) = i"
  unfolding pack_def unpack_pid_def unpack_seq_def by (rule bit_word_eqI; auto simp: bit_simps dest: bit_imp_le_length)+

definition tables_ok :: "(tid \<Rightarrow> nat) \<Rightarrow> bool list \<times> u32 list \<Rightarrow> bool" where
  "tables_ok f tables \<longleftrightarrow>
     (case tables of (firsts, last_seq) \<Rightarrow> length firsts = 4 \<and> length last_seq = 4 \<and>
      (\<forall>p<4. (firsts ! p \<longleftrightarrow> f p = 0) \<and> (0 < f p \<longrightarrow> last_seq ! p + 1 = of_nat (f p))))"

interpretation mpsc_load: checked_load "unat kMpscProducers" kMpscPerProd "\<lambda>p i. pack (of_nat p) i" mpsc_check tables_ok
  "kMpscProducers * kMpscPerProd"
proof unfold_locales
  show "unat (kMpscProducers * kMpscPerProd) = unat kMpscProducers * unat kMpscPerProd"
    by (simp add: kMpscProducers_def kMpscPerProd_def)
  fix f c p assume c: "tables_ok f c" and p: "p < unat kMpscProducers" and f: "f p < unat kMpscPerProd"
  have p4: "p < 4" "unat (of_nat p :: u32) = p" "\<not> of_nat p \<ge> kMpscProducers"
    using p by (simp_all add: kMpscProducers_def unat_of_nat word_le_nat_alt)
  have "(of_nat (f p) :: u32) = 0 \<longleftrightarrow> f p = 0" using f by (simp add: kMpscPerProd_def word_unat_eq_iff unat_of_nat)
  with c p4 show "\<exists>c'. mpsc_check (of_nat (\<Sum>q<unat kMpscProducers. f q)) (pack (of_nat p) (of_nat (f p))) c = Some c' \<and>
      tables_ok (f(p := Suc (f p))) c'"
    by (cases c) (auto simp: mpsc_check_def tables_ok_def Let_def nth_list_update add.commute)
qed

lemma concurrent_tests:
  fixes before rs
  assumes ok: "available 1024"
  shows "test_queue_spsc available before rs = Unfinished \<or> test_queue_spsc available before rs = Ok (lifetime 1024)"
    "test_queue_mpsc available before rs = Unfinished \<or> test_queue_mpsc available before rs = Ok (lifetime 1024)"
    "3 * 2 ^ 22 \<le> good_rounds {Pr 0, Co} 7 even rs \<Longrightarrow> test_queue_spsc available before rs \<noteq> Unfinished"
    "3 * 2 ^ 20 \<le> good_rounds {Pr 0, Pr 1, Pr 2, Pr 3, Co} 7 even rs \<Longrightarrow> test_queue_mpsc available before rs \<noteq> Unfinished"
proof -
  have made: "\<exists>q. mpsc_create available d 1024 = Inr (q, Allocate 1024 # map Construct [0..<1024])" for d :: 'd
    using ok by (simp add: mpsc_create_def)
  obtain q :: "u32 mpsc_queue" where q: "mpsc_create available 0 1024 = Inr (q, Allocate 1024 # map Construct [0..<1024])"
    using made [of "0 :: u32"] by blast
  have "Pr ` {..<1} \<union> {Co} = {Pr 0, Co}" by auto
  note S = spsc_load.threads_run [where before = before and rs = rs and ?c0.0 = "()", OF q, unfolded this, simplified]
  have "test_queue_spsc available before rs =
      and_then (run_threads 1 kSpscItems (\<lambda>p i. i) spsc_check kSpscItems () before rs q)
        (\<lambda>q'. Ok ((Allocate 1024 # map Construct [0..<1024]) @ mpsc_destroy q'))"
    by (simp add: test_queue_spsc_def with_queue_def kSpscCap_def q)
  then show "test_queue_spsc available before rs = Unfinished \<or> test_queue_spsc available before rs = Ok (lifetime 1024)"
    "3 * 2 ^ 22 \<le> good_rounds {Pr 0, Co} 7 even rs \<Longrightarrow> test_queue_spsc available before rs \<noteq> Unfinished"
    using S by (auto simp: passes_def lifetime_def mpsc_destroy_def kSpscItems_def)
  obtain r :: "u64 mpsc_queue" where r: "mpsc_create available 0 1024 = Inr (r, Allocate 1024 # map Construct [0..<1024])"
    using made [of "0 :: u64"] by blast
  have t: "tables_ok (\<lambda>_. 0) (replicate (unat kMpscProducers) True, replicate (unat kMpscProducers) 0)"
    by (simp add: tables_ok_def kMpscProducers_def)
  have T: "Pr ` {..<unat kMpscProducers} \<union> {Co} = {Pr 0, Pr 1, Pr 2, Pr 3, Co}"
    by (auto simp: kMpscProducers_def lessThan_nat_numeral lessThan_Suc)
  note M = mpsc_load.threads_run [where before = before and rs = rs, OF r _ t, unfolded T, simplified]
  have "test_queue_mpsc available before rs =
      and_then (run_threads (unat kMpscProducers) kMpscPerProd (\<lambda>p i. pack (of_nat p) i) mpsc_check (kMpscProducers * kMpscPerProd)
        (replicate (unat kMpscProducers) True, replicate (unat kMpscProducers) 0) before rs r)
        (\<lambda>q'. Ok ((Allocate 1024 # map Construct [0..<1024]) @ mpsc_destroy q'))"
    by (simp add: test_queue_mpsc_def with_queue_def kMpscCap_def r)
  then show "test_queue_mpsc available before rs = Unfinished \<or> test_queue_mpsc available before rs = Ok (lifetime 1024)"
    "3 * 2 ^ 20 \<le> good_rounds {Pr 0, Pr 1, Pr 2, Pr 3, Co} 7 even rs \<Longrightarrow> test_queue_mpsc available before rs \<noteq> Unfinished"
    using M by (auto simp: passes_def lifetime_def mpsc_destroy_def kMpscProducers_def kMpscPerProd_def)
qed

section \<open>Property\<close>

text \<open>
  C5: The test program of the queue passes. With memory available and whatever compare-exchanges fail for no
  reason, the tests with one thread pass. The tests with one and with four producers, their threads
  interleaved at every atomic access and every access to a cell, never report an item lost, duplicated or
  out of order, under any schedule and with any stale loads. They have passed as soon as the schedule has
  had \<open>3 * 2 ^ 22\<close> and \<open>3 * 2 ^ 20\<close> rounds with seven turns of every thread and no spurious failure, stores
  becoming visible by the next round at the latest. Every queue is constructed and destroyed once.
\<close>

theorem queue_tests_pass:
  assumes ok: "\<And>c. available c" and rs: "3 * 2 ^ 22 \<le> good_rounds {Pr 0, Co} 7 even rs"
    and rs': "3 * 2 ^ 20 \<le> good_rounds {Pr 0, Pr 1, Pr 2, Pr 3, Co} 7 even rs'"
  shows "queue_test_main w available before rs before' rs' = Ok (concat (map lifetime [8, 8, 4, 4, 1024, 1024])) \<and>
    (\<forall>before any. test_queue_spsc available before any \<in> {Unfinished, Ok (lifetime 1024)} \<and>
                 test_queue_mpsc available before any \<in> {Unfinished, Ok (lifetime 1024)})"
proof -
  note C = concurrent_tests [of available, OF ok]
  have seq: "test_construction available = Ok (lifetime 8)" "test_queue_push_pop w available = Ok (lifetime 8)"
    "test_queue_fill w available = Ok (lifetime 4)" "test_queue_wrap w available = Ok (lifetime 4)"
    using construction_passes [of available] queue_push_pop_passes [of available w] queue_fill_passes [of available w]
      queue_wrap_passes [of available w] ok by (simp_all add: passes_def)
  have "test_queue_spsc available before rs = Ok (lifetime 1024)" "test_queue_mpsc available before' rs' = Ok (lifetime 1024)"
    using C(1,3) [where before = before and rs = rs] C(2,4) [where before = before' and rs = rs'] rs rs' by auto
  with seq C(1,2) show ?thesis by (simp add: queue_test_main_def)
qed

theorem queue_tests_pass_witness:
  "queue_test_main (\<lambda>v. 3) (\<lambda>_. True) [(Co, 1)] (replicate (3 * 2 ^ 22) (replicate 7 (Pr 0, 4) @ replicate 7 (Co, 2))) []
     (replicate (3 * 2 ^ 20) (concat (map (\<lambda>t. replicate 7 (t, 6)) [Pr 3, Co, Pr 0, Pr 2, Pr 1])))
   = Ok (concat (map lifetime [8, 8, 4, 4, 1024, 1024]))"
proof -
  let ?r = "replicate 7 (Pr 0, 4) @ replicate 7 (Co, 2)"
  let ?r' = "concat (map (\<lambda>t. replicate 7 (t, 6)) [Pr 3, Co, Pr 0, Pr 2, Pr 1])"
  have "good_round {Pr 0, Co} 7 even ?r" by (auto simp: good_round_def turns_of_replicate)
  note rs = eq_refl [OF sym [OF good_rounds_replicate [OF this, of "3 * 2 ^ 22"]]]
  have "good_round {Pr 0, Pr 1, Pr 2, Pr 3, Co} 7 even ?r'" by (auto simp: good_round_def turns_of_replicate)
  note rs' = eq_refl [OF sym [OF good_rounds_replicate [OF this, of "3 * 2 ^ 20"]]]
  show ?thesis using queue_tests_pass [of "\<lambda>_. True", OF TrueI rs rs'] by blast
qed

end
