(* ===== verification/Test_Mpmc.thy ===== *)
theory Test_Mpmc
  imports Test_Mpsc
begin

text \<open>
  The test \<^verbatim>\<open>test_concurrent_mpmc\<close> of \<^verbatim>\<open>test_mpmc.cpp\<close>, which \<^verbatim>\<open>main\<close> is to call once the queue is for several
  consumers: four producers and four consumers on the queue as it is. Its loops wait until \<^verbatim>\<open>ready\<close> is set, so the
  runs below begin there.

  What is shown is that the test fails, so some schedules are enough: loads return the newest value, a turn of a
  producer is a whole call of \<^verbatim>\<open>push\<close>, and a turn of a consumer one atomic access of \<^verbatim>\<open>pop\<close> or the move out of the cell;
  what a consumer does with the item is part of the turn in which \<^verbatim>\<open>pop\<close> returns. Every run here is one of the
  program.
\<close>

section \<open>Definitions\<close>

definition kMpmcProducers :: u32 where "kMpmcProducers = 4"
definition kMpmcConsumers :: u32 where "kMpmcConsumers = 4"
definition kMpmcPerProd :: u32 where "kMpmcPerProd = push_bit 17 1"
definition kMpmcCap :: u32 where "kMpmcCap = 1024"

definition expected_total :: u64 where "expected_total = ucast kMpmcProducers * ucast kMpmcPerProd"

text \<open>The queue, each producer's \<^verbatim>\<open>i\<close>, where each consumer is in \<^verbatim>\<open>pop\<close>, \<^verbatim>\<open>per_consumer\<close> and \<^verbatim>\<open>total_consumed\<close>.\<close>

record mpmc =
  mm_q :: "u64 mpsc_queue"
  mm_i :: "nat \<Rightarrow> u32"
  mm_pop :: "nat \<Rightarrow> u64 pop_pc"
  mm_got :: "nat \<Rightarrow> u64 list"
  mm_total :: u64

definition mpmc_produce :: "nat \<Rightarrow> mpmc \<Rightarrow> mpmc option" where
  "mpmc_produce p b =
     (if mm_i b p < kMpmcPerProd
      then do { (ok, q) \<leftarrow> mpsc_push 0 (mm_q b) (pack (of_nat p) (mm_i b p));
                Some (if ok then b\<lparr>mm_q := q, mm_i := (mm_i b)(p := mm_i b p + 1)\<rparr> else b\<lparr>mm_q := q\<rparr>) }
      else Some b)"

definition consumer_at :: "nat \<Rightarrow> u64 pop_pc \<Rightarrow> mpmc \<Rightarrow> mpmc" where
  "consumer_at c pc b = b\<lparr>mm_pop := (mm_pop b)(c := pc)\<rparr>"

definition mpmc_cell :: "size_t \<Rightarrow> mpmc \<Rightarrow> nat option" where
  "mpmc_cell tail b =
     do { i \<leftarrow> mpsc_element (mq_capacity (mm_q b)) tail; if i < length (mq_items (mm_q b)) then Some i else None }"

definition mpmc_consume :: "nat \<Rightarrow> mpmc \<Rightarrow> mpmc option" where
  "mpmc_consume c b =
     (case mm_pop b c of
        Pop_Idle \<Rightarrow> if mm_total b < expected_total then Some (consumer_at c (Pop_Head (mq_tail (mm_q b))) b) else Some b
      | Pop_Head tail \<Rightarrow>
          Some (consumer_at c (if mpsc_is_empty (mq_head (mm_q b)) tail then Pop_Idle else Pop_Ready tail) b)
      | Pop_Ready tail \<Rightarrow>
          do { i \<leftarrow> mpmc_cell tail b;
               Some (consumer_at c (if \<not> cell_is_ready (mq_items (mm_q b) ! i) then Pop_Idle else Pop_Move tail) b) }
      | Pop_Move tail \<Rightarrow> do { i \<leftarrow> mpmc_cell tail b; Some (consumer_at c (Pop_Clear (cell_data (mq_items (mm_q b) ! i)) tail) b) }
      | Pop_Clear got tail \<Rightarrow>
          do { i \<leftarrow> mpmc_cell tail b;
               let cell = (mq_items (mm_q b) ! i)\<lparr>cell_is_ready := False\<rparr>;
               Some (consumer_at c (Pop_Advance got tail) (b\<lparr>mm_q := (mm_q b)\<lparr>mq_items := (mq_items (mm_q b))[i := cell]\<rparr>\<rparr>)) }
      | Pop_Advance got tail \<Rightarrow>
          Some (consumer_at c Pop_Idle (b\<lparr>mm_q := (mm_q b)\<lparr>mq_tail := tail + 1\<rparr>,
            mm_got := (mm_got b)(c := mm_got b c @ [got]), mm_total := mm_total b + 1\<rparr>)))"

datatype mpmc_thread = Producer nat | Consumer nat

fun mpmc_turn :: "mpmc_thread \<Rightarrow> mpmc \<Rightarrow> mpmc option" where
  "mpmc_turn (Producer p) b = (if p < unat kMpmcProducers then mpmc_produce p b else Some b)"
| "mpmc_turn (Consumer c) b = (if c < unat kMpmcConsumers then mpmc_consume c b else Some b)"

fun mpmc_run :: "mpmc_thread list \<Rightarrow> mpmc \<Rightarrow> mpmc option" where
  "mpmc_run [] b = Some b"
| "mpmc_run (t # ts) b = do { b \<leftarrow> mpmc_turn t b; mpmc_run ts b }"

definition mpmc_start :: "u64 mpsc_queue \<Rightarrow> mpmc" where
  "mpmc_start q = \<lparr>mm_q = q, mm_i = (\<lambda>_. 0), mm_pop = (\<lambda>_. Pop_Idle), mm_got = (\<lambda>_. []), mm_total = 0\<rparr>"

text \<open>The threads have left their loops.\<close>

definition mpmc_joined :: "mpmc \<Rightarrow> bool" where
  "mpmc_joined b \<longleftrightarrow> list_all (\<lambda>p. \<not> mm_i b p < kMpmcPerProd) [0..<unat kMpmcProducers] \<and>
     list_all (\<lambda>c. mm_pop b c = Pop_Idle \<and> \<not> mm_total b < expected_total) [0..<unat kMpmcConsumers]"

text \<open>\<^verbatim>\<open>seen.insert(x).second\<close> is true for every item exactly when the items are distinct.\<close>

definition test_concurrent_mpmc :: "(size_t \<Rightarrow> bool) \<Rightarrow> mpmc_thread list \<Rightarrow> storage_event list test" where
  "test_concurrent_mpmc available ts = with_queue available 0 (ucast kMpmcCap) (\<lambda>q.
     call (mpmc_run ts (mpmc_start q)) (\<lambda>b.
     if \<not> mpmc_joined b then Unfinished
     else let seen = concat (map (mm_got b) [0..<unat kMpmcConsumers]) in
       ASSERT (distinct seen) (ASSERT (of_nat (length seen) = expected_total) (
       ASSERT (list_all (\<lambda>p. list_all (\<lambda>i. pack (of_nat p) (of_nat i) \<in> set seen) [0..<unat kMpmcPerProd]) [0..<unat kMpmcProducers]) (
       ASSERT (mpsc_empty (mm_q b)) (Ok (mm_q b)))))))"

section \<open>Runs do not crash, and what was received stays\<close>

definition mpmc_ok :: "mpmc \<Rightarrow> bool" where
  "mpmc_ok b \<longleftrightarrow> mq_capacity (mm_q b) = 1024 \<and> length (mq_items (mm_q b)) = 1024"

lemma cell_index: "unat ((t :: size_t) mod 1024) < 1024"
proof -
  have "t mod 1024 < 1024" by (rule word_mod_less_divisor) simp
  then show ?thesis by (simp add: word_less_nat_alt)
qed

lemma mpmc_cell_ok: "mpmc_ok b \<Longrightarrow> mpmc_cell t b = Some (unat (t mod 1024))"
  using cell_index by (simp add: mpmc_cell_def mpsc_element_def mpmc_ok_def)

lemma mpmc_turn_ok:
  assumes "mpmc_ok b"
  shows "\<exists>b'. mpmc_turn t b = Some b' \<and> mpmc_ok b' \<and> (\<forall>c. prefix (mm_got b c) (mm_got b' c))"
proof (cases t)
  case (Producer p)
  obtain ok q where "mpsc_push 0 (mm_q b) (pack (of_nat p) (mm_i b p)) = Some (ok, q)" "mq_capacity q = 1024" "length (mq_items q) = 1024"
    using assms cell_index by (cases "mpsc_is_full 1024 (mq_head (mm_q b)) (mq_tail (mm_q b))")
      (auto simp: mpsc_push_def mpsc_claim_eq mpsc_element_def mpmc_ok_def Let_def)
  then show ?thesis using assms Producer by (auto simp: mpmc_produce_def mpmc_ok_def)
next
  case (Consumer c)
  then show ?thesis using assms mpmc_cell_ok [OF assms] cell_index
    by (cases "mm_pop b c") (auto simp: mpmc_consume_def consumer_at_def mpmc_ok_def Let_def)
qed

lemma mpmc_run_ok:
  "mpmc_ok b \<Longrightarrow> \<exists>b'. mpmc_run ts b = Some b' \<and> mpmc_ok b' \<and> (\<forall>c. prefix (mm_got b c) (mm_got b' c))"
proof (induction ts arbitrary: b)
  case (Cons t ts)
  obtain b1 where b1: "mpmc_turn t b = Some b1" "mpmc_ok b1" "\<And>c. prefix (mm_got b c) (mm_got b1 c)"
    using mpmc_turn_ok [OF Cons.prems, of t] by blast
  with Cons.IH [OF b1(2)] show ?case by (auto intro: prefix_order.trans)
qed simp

lemma mpmc_run_append: "mpmc_run (ts @ us) b = do { b \<leftarrow> mpmc_run ts b; mpmc_run us b }"
  by (induction ts arbitrary: b) (auto split: Option.bind_splits)

section \<open>Two consumers take the same item\<close>

text \<open>The queue that a consumer who is alone leaves.\<close>

definition popped :: "u64 mpsc_queue \<Rightarrow> u64 mpsc_queue" where
  "popped q = (let i = unat (mq_tail q mod 1024) in
     q\<lparr>mq_items := (mq_items q)[i := (mq_items q ! i)\<lparr>cell_is_ready := False\<rparr>], mq_tail := mq_tail q + 1\<rparr>)"

lemma q_holds_ok: "q_holds (mm_q b) 1024 xs \<Longrightarrow> mpmc_ok b"
  by (auto simp: q_holds_def mpmc_ok_def mpsc_inv_def mpsc_wf_def)

lemma oldest_cell:
  assumes h: "q_holds q 1024 (v # xs)"
  shows "\<not> mpsc_is_empty (mq_head q) (mq_tail q)" "cell_is_ready (mq_items q ! unat (mq_tail q mod 1024))"
    "cell_data (mq_items q ! unat (mq_tail q mod 1024)) = v" "q_holds (popped q) 1024 xs"
proof -
  have ok: "mpmc_ok \<lparr>mm_q = q, mm_i = (\<lambda>_. 0), mm_pop = (\<lambda>_. Pop_Idle), mm_got = (\<lambda>_. []), mm_total = 0\<rparr>"
    using h by (intro q_holds_ok) simp
  let ?i = "unat (mq_tail q mod 1024)"
  have i: "mq_capacity q = 1024" "?i < length (mq_items q)" using ok cell_index by (simp_all add: mpmc_ok_def)
  obtain q' where q': "mpsc_pop id q = Some (Some v, q')" "q_holds q' 1024 xs" using q_holds_pop [OF h] by auto
  then show e: "\<not> mpsc_is_empty (mq_head q) (mq_tail q)" and r: "cell_is_ready (mq_items q ! ?i)" and d: "cell_data (mq_items q ! ?i) = v"
    using i by (auto simp: mpsc_pop_def mpsc_element_def Let_def split: if_splits)
  have "q' = popped q" using q'(1) i e r by (auto simp: mpsc_pop_def mpsc_element_def Let_def popped_def)
  with q'(2) show "q_holds (popped q) 1024 xs" by simp
qed

lemma push_one:
  fixes q :: "u64 mpsc_queue"
  assumes "q_holds q 1024 []"
  obtains q1 where "mpsc_push 0 q v = Some (True, q1)" "mq_capacity q1 = 1024" "length (mq_items q1) = 1024"
    "\<not> mpsc_is_empty (mq_head q1) (mq_tail q1)" "cell_is_ready (mq_items q1 ! unat (mq_tail q1 mod 1024))"
    "cell_data (mq_items q1 ! unat (mq_tail q1 mod 1024)) = v"
    "q_holds (q1\<lparr>mq_items := (mq_items q1)[unat (mq_tail q1 mod 1024) := (mq_items q1 ! unat (mq_tail q1 mod 1024))\<lparr>cell_is_ready := False\<rparr>],
                mq_tail := mq_tail q1 + 1\<rparr>) 1024 []"
proof -
  obtain q1 where q1: "mpsc_push 0 q v = Some (True, q1)" "q_holds q1 1024 [v]" using q_holds_push [OF assms, of 0 v] by auto
  moreover have "mpmc_ok (mpmc_start q1)" using q1(2) by (intro q_holds_ok) (simp add: mpmc_start_def)
  ultimately show ?thesis using that oldest_cell [OF q1(2)] by (simp add: mpmc_ok_def mpmc_start_def popped_def Let_def)
qed

lemma kMpmc_values: "unat kMpmcProducers = 4" "unat kMpmcConsumers = 4" "unat expected_total = 2 ^ 19" "unat kMpmcPerProd = 2 ^ 17"
  by (simp_all add: kMpmcProducers_def kMpmcConsumers_def kMpmcPerProd_def expected_total_def)

text \<open>Producer 0 pushes; consumers 0 and 1 both find its item ready before either of them moves on.\<close>

definition two_takers :: "mpmc_thread list" where
  "two_takers = [Producer 0, Consumer 0, Consumer 0, Consumer 0, Consumer 1, Consumer 1, Consumer 1,
     Consumer 0, Consumer 0, Consumer 0, Consumer 1, Consumer 1, Consumer 1]"

lemma take_twice:
  assumes h: "q_holds q 1024 []"
  shows "\<exists>b. mpmc_run two_takers (mpmc_start q) = Some b \<and> q_holds (mm_q b) 1024 [] \<and> mm_i b = (\<lambda>_. 0)(0 := 1) \<and>
     mm_pop b = (\<lambda>_. Pop_Idle) \<and> mm_got b 0 = [pack 0 0] \<and> mm_got b 1 = [pack 0 0] \<and> mm_total b = 2"
proof -
  obtain q1 where q1: "mpsc_push 0 q (pack 0 0) = Some (True, q1)" "mq_capacity q1 = 1024" "length (mq_items q1) = 1024"
    "\<not> mpsc_is_empty (mq_head q1) (mq_tail q1)" "cell_is_ready (mq_items q1 ! unat (mq_tail q1 mod 1024))"
    "cell_data (mq_items q1 ! unat (mq_tail q1 mod 1024)) = pack 0 0"
    "q_holds (q1\<lparr>mq_items := (mq_items q1)[unat (mq_tail q1 mod 1024) := (mq_items q1 ! unat (mq_tail q1 mod 1024))\<lparr>cell_is_ready := False\<rparr>],
                mq_tail := mq_tail q1 + 1\<rparr>) 1024 []" by (rule push_one [OF h])
  then show ?thesis
    using cell_index
    by (simp add: two_takers_def mpmc_start_def mpmc_produce_def mpmc_consume_def consumer_at_def kMpmc_values mpmc_cell_def
        mpsc_element_def Let_def kMpmcPerProd_def expected_total_def kMpmcProducers_def fun_eq_iff)
qed

section \<open>The test can finish, and fails\<close>

text \<open>Producer \<open>p\<close> pushes its next item and consumer 0 pops it.\<close>

abbreviation lap :: "nat \<Rightarrow> mpmc_thread list" where "lap p \<equiv> Producer p # replicate 6 (Consumer 0)"

lemma lap_run:
  assumes h: "q_holds (mm_q b) 1024 []" and p: "p < 4" "mm_i b p < kMpmcPerProd" and c: "mm_pop b = (\<lambda>_. Pop_Idle)"
    and t: "mm_total b < expected_total"
  shows "\<exists>b'. mpmc_run (lap p) b = Some b' \<and> q_holds (mm_q b') 1024 [] \<and> mm_i b' = (mm_i b)(p := mm_i b p + 1) \<and>
    mm_pop b' = (\<lambda>_. Pop_Idle) \<and> mm_total b' = mm_total b + 1"
proof -
  let ?v = "pack (of_nat p) (mm_i b p)"
  obtain q1 where q1: "mpsc_push 0 (mm_q b) ?v = Some (True, q1)" "mq_capacity q1 = 1024" "length (mq_items q1) = 1024"
    "\<not> mpsc_is_empty (mq_head q1) (mq_tail q1)" "cell_is_ready (mq_items q1 ! unat (mq_tail q1 mod 1024))"
    "cell_data (mq_items q1 ! unat (mq_tail q1 mod 1024)) = ?v"
    "q_holds (q1\<lparr>mq_items := (mq_items q1)[unat (mq_tail q1 mod 1024) := (mq_items q1 ! unat (mq_tail q1 mod 1024))\<lparr>cell_is_ready := False\<rparr>],
                mq_tail := mq_tail q1 + 1\<rparr>) 1024 []" by (rule push_one [OF h])
  moreover have "replicate 6 (Consumer 0) = [Consumer 0, Consumer 0, Consumer 0, Consumer 0, Consumer 0, Consumer 0]"
    by (simp add: numeral_eq_Suc)
  ultimately show ?thesis
    using q1 cell_index p c t
    by (simp add: mpmc_produce_def mpmc_consume_def consumer_at_def kMpmc_values mpmc_cell_def mpsc_element_def Let_def fun_eq_iff)
qed

text \<open>
  When one item too many has been counted, the consumers leave their loops with one item still in the queue.
\<close>

definition items_left :: "mpmc \<Rightarrow> nat" where
  "items_left b = (\<Sum>p<4. 2 ^ 17 - unat (mm_i b p))"

lemma four_producers: "{..<4::nat} = {0, 1, 2, 3}"
  by auto

lemma finish:
  assumes "q_holds (mm_q b) 1024 []" "\<forall>p. unat (mm_i b p) \<le> 2 ^ 17" "mm_pop b = (\<lambda>_. Pop_Idle)"
    "unat (mm_total b) + items_left b = 2 ^ 19 + 1" "unat (mm_total b) \<le> 2 ^ 19"
  shows "\<exists>ts b'. mpmc_run ts b = Some b' \<and> mpmc_joined b'"
  using assms
proof (induction "items_left b" arbitrary: b rule: less_induct)
  case less
  have pos: "0 < items_left b" using less.prems(4,5) by linarith
  then obtain p where p: "p < 4" "unat (mm_i b p) < 2 ^ 17" by (auto simp: items_left_def zero_less_iff_neq_zero sum_eq_0_iff)
  then have p': "mm_i b p < kMpmcPerProd" by (simp add: word_less_nat_alt kMpmc_values)
  have up: "unat (mm_i b p + 1) = unat (mm_i b p) + 1" using p(2) by (simp add: unat_word_ariths)
  have left: "items_left b' + 1 = items_left b" if "mm_i b' = (mm_i b)(p := mm_i b p + 1)" for b'
    using p up that by (simp add: items_left_def sum.remove [of "{..<4}" p])
  show ?case
  proof (cases "mm_total b < expected_total")
    case True
    then obtain b1 where b1: "mpmc_run (lap p) b = Some b1" "q_holds (mm_q b1) 1024 []" "mm_i b1 = (mm_i b)(p := mm_i b p + 1)"
      "mm_pop b1 = (\<lambda>_. Pop_Idle)" "mm_total b1 = mm_total b + 1"
      using lap_run [OF less.prems(1) p(1) p' less.prems(3)] by blast
    have "unat (mm_total b) < 2 ^ 19" using True by (simp add: word_less_nat_alt kMpmc_values)
    then have "unat (mm_total b1) = unat (mm_total b) + 1" by (simp add: b1(5) unat_word_ariths)
    moreover have "\<forall>q. unat (mm_i b1 q) \<le> 2 ^ 17" using less.prems(2) p(2) up by (simp add: b1(3))
    ultimately obtain ts b' where "mpmc_run ts b1 = Some b'" "mpmc_joined b'"
      using less.hyps [of b1] left [OF b1(3)] b1(2,4) less.prems(4) \<open>unat (mm_total b) < 2 ^ 19\<close> by auto
    with b1(1) show ?thesis by (intro exI [of _ "lap p @ ts"]) (simp only: mpmc_run_append, simp)
  next
    case False
    then have t: "items_left b = 1" using less.prems(4,5) by (simp add: word_less_nat_alt kMpmc_values)
    obtain q1 where q1: "mpsc_push 0 (mm_q b) (pack (of_nat p) (mm_i b p)) = Some (True, q1)"
      using q_holds_push [OF less.prems(1)] by fastforce
    define b1 where "b1 = b\<lparr>mm_q := q1, mm_i := (mm_i b)(p := mm_i b p + 1)\<rparr>"
    have "items_left b1 = 0" using left [of b1] t by (simp add: b1_def)
    then have "2 ^ 17 \<le> unat (mm_i b1 r)" if "r < 4" for r using that by (simp add: items_left_def sum_eq_0_iff)
    moreover have "mm_total b1 = mm_total b" "mm_pop b1 = mm_pop b" by (simp_all add: b1_def)
    ultimately have "mpmc_joined b1"
      using False less.prems(3) by (auto simp: mpmc_joined_def list_all_iff kMpmc_values word_less_nat_alt not_less)
    moreover have "mpmc_run [Producer p] b = Some b1" using q1 p p' by (simp add: mpmc_produce_def kMpmc_values b1_def)
    ultimately show ?thesis by blast
  qed
qed

lemma mpmc_test_fails:
  assumes av: "available 1024"
  shows "test_concurrent_mpmc available (two_takers @ ts) \<in> {Unfinished, Exited 1}"
    "\<exists>ts. test_concurrent_mpmc available (two_takers @ ts) = Exited 1"
proof -
  obtain q evs where q: "mpsc_create available (0 :: u64) 1024 = Inr (q, evs)" using av by (auto simp: mpsc_create_def)
  have h: "q_holds q 1024 []" using mpsc_create_wf [OF q] by (simp add: q_holds_def mpsc_inv_def is_pow2_def)
  obtain b where b: "mpmc_run two_takers (mpmc_start q) = Some b" "q_holds (mm_q b) 1024 []" "mm_i b = (\<lambda>_. 0)(0 := 1)"
    "mm_pop b = (\<lambda>_. Pop_Idle)" "mm_got b 0 = [pack 0 0]" "mm_got b 1 = [pack 0 0]" "mm_total b = 2" using take_twice [OF h] by blast
  have res: "test_concurrent_mpmc available (two_takers @ ts) = (if mpmc_joined b' then Exited 1 else Unfinished)"
    if "mpmc_run ts b = Some b'" for ts b'
  proof -
    have "prefix [pack 0 0] (mm_got b' 0)" "prefix [pack 0 0] (mm_got b' 1)"
      using mpmc_run_ok [OF q_holds_ok [OF b(2)], of ts] that b(5,6) by (metis option.inject)+
    then have "pack 0 0 \<in> set (mm_got b' 0) \<inter> set (mm_got b' 1)" by (auto simp: prefix_def)
    then have "\<not> distinct (concat (map (mm_got b') [0..<4]))" by (auto simp: upt_rec)
    then show ?thesis using q b(1) that
      by (simp add: test_concurrent_mpmc_def with_queue_def kMpmcCap_def mpmc_run_append call_def ASSERT_def kMpmc_values Let_def)
  qed
  obtain b' where "mpmc_run ts b = Some b'" using mpmc_run_ok [OF q_holds_ok [OF b(2)]] by blast
  with res show "test_concurrent_mpmc available (two_takers @ ts) \<in> {Unfinished, Exited 1}" by simp
  have "items_left b = 2 ^ 19 - 1" by (simp add: items_left_def b(3) four_producers)
  moreover have "\<forall>p. unat (mm_i b p) \<le> 2 ^ 17" by (simp add: b(3))
  ultimately obtain us b2 where "mpmc_run us b = Some b2" "mpmc_joined b2" using finish [OF b(2) _ b(4)] b(7) by auto
  with res [of us b2] show "\<exists>ts. test_concurrent_mpmc available (two_takers @ ts) = Exited 1" by (intro exI [of _ us]) simp
qed

section \<open>Property\<close>

text \<open>
  C34: Three things the queue does that a user may not expect. \<^verbatim>\<open>push\<close> can report a full queue when the
  queue is empty: a producer loads \<^verbatim>\<open>head_\<close>; before it loads \<^verbatim>\<open>tail_\<close>, another value is pushed and popped; then
  \<^verbatim>\<open>head - tail\<close> is \<open>2 ^ 64 - 1\<close>. A capacity that is not a power of two, which the constructor accepts,
  loses elements when the counters wrap: after \<open>2 ^ 64 - 1\<close> pushes, each popped at once, a queue of capacity
  3 puts the next two values into the same cell; both pushes return true, \<^verbatim>\<open>pop\<close> returns the second value,
  and then nothing although the size is one. And the queue is for one consumer: in \<^verbatim>\<open>test_concurrent_mpmc\<close> two
  consumers can get the same item; from then on the test cannot pass, whatever follows, and it can finish, leaving the
  process with status 1.
\<close>

theorem mpsc_flaws:
  "(\<exists>s as. mpsc_run mv as two_cells = Some s \<and> mc_push_ret s 0 = Some False \<and>
     mpsc_size (mpsc_view s) = 0 \<and> mpsc_capacity (mpsc_view s) = 2 \<and> length (mc_claims s) = 1) \<and>
   (\<exists>q ev q1 q2 q3 q4. mpsc_create (\<lambda>_. True) d 3 = Inr (q, ev) \<and>
     push_pop_pairs mv' x (2 ^ 64 - 1) q = Some q1 \<and>
     mpsc_push 0 q1 a = Some (True, q2) \<and> mpsc_push 0 q2 b = Some (True, q3) \<and>
     mpsc_pop mv' q3 = Some (Some b, q4) \<and> mpsc_pop mv' q4 = Some (None, q4) \<and> mpsc_size q4 = 1) \<and>
   (\<forall>ts. test_concurrent_mpmc (\<lambda>_. True) (two_takers @ ts) \<in> {Unfinished, Exited 1}) \<and>
   (\<exists>ts. test_concurrent_mpmc (\<lambda>_. True) (two_takers @ ts) = Exited 1)"
  using mpmc_test_fails [of "\<lambda>_. True"] by (intro conjI allI mpsc_push_spuriously_full mpsc_wrap_loses_element) simp_all

end
