(* ===== verification/Dma_Device.thy ===== *)
theory Dma_Device
  imports Ring_Interfaces Dma_Layout
begin

text \<open>
  The QEMU device of \<^verbatim>\<open>vm/dma_engine.c\<close>: its register file, the doorbell and the deferred
  processing loop that fetches submission entries, moves the data and posts completions.

  QEMU's own functions are parameters: \<open>rd\<close> and \<open>wr\<close> are \<^verbatim>\<open>pci_dma_read\<close> and \<^verbatim>\<open>pci_dma_write\<close>
  (the \<^verbatim>\<open>MemTxResult\<close>, 0 for success, with the bytes left in the buffer or the new memory),
  \<open>msi\<close> is what \<^verbatim>\<open>msi_enabled\<close> returns, \<open>now\<close> what \<^verbatim>\<open>qemu_clock_get_ns\<close> returns, \<open>rc\<close> what
  \<^verbatim>\<open>msi_init\<close> returns. Calls with an effect outside the state are recorded in \<open>dv_events\<close>, newest
  last. What is assumed of \<open>rd\<close> and \<open>wr\<close> is the locale \<open>guest_ram\<close>.
\<close>

section \<open>Definitions\<close>

subsection \<open>Registers and state\<close>

definition REG_DEVICE_ID :: u64 where "REG_DEVICE_ID = 0x00"
definition REG_DEVICE_STATUS :: u64 where "REG_DEVICE_STATUS = 0x04"
definition REG_SQ_BASE_LO :: u64 where "REG_SQ_BASE_LO = 0x08"
definition REG_SQ_BASE_HI :: u64 where "REG_SQ_BASE_HI = 0x0C"
definition REG_CQ_BASE_LO :: u64 where "REG_CQ_BASE_LO = 0x10"
definition REG_CQ_BASE_HI :: u64 where "REG_CQ_BASE_HI = 0x14"
definition REG_SQ_DEPTH :: u64 where "REG_SQ_DEPTH = 0x18"
definition REG_CQ_DEPTH :: u64 where "REG_CQ_DEPTH = 0x1C"
definition REG_SQ_DOORBELL :: u64 where "REG_SQ_DOORBELL = 0x20"
definition REG_IRQ_STATUS :: u64 where "REG_IRQ_STATUS = 0x24"
definition REG_IRQ_ACK :: u64 where "REG_IRQ_ACK = 0x28"
definition REG_SQ_HEAD :: u64 where "REG_SQ_HEAD = 0x2C"
definition REG_CQ_TAIL :: u64 where "REG_CQ_TAIL = 0x30"
definition IRQ_CQ_READY :: u32 where "IRQ_CQ_READY = 0x01"
definition DEVICE_ID_MAGIC :: u64 where "DEVICE_ID_MAGIC = 0xDEA10001"
definition DEV_BUF_SIZE :: u32 where "DEV_BUF_SIZE = 4096"
definition OP_TX :: u32 where "OP_TX = 1"
definition OP_RX :: u32 where "OP_RX = 2"

lemmas reg_defs =
  REG_DEVICE_ID_def REG_DEVICE_STATUS_def REG_SQ_BASE_LO_def REG_SQ_BASE_HI_def REG_CQ_BASE_LO_def
  REG_CQ_BASE_HI_def REG_SQ_DEPTH_def REG_CQ_DEPTH_def REG_SQ_DOORBELL_def REG_IRQ_STATUS_def
  REG_IRQ_ACK_def REG_SQ_HEAD_def REG_CQ_TAIL_def

datatype pci_event =
    Msi_Notify nat
  | Pci_Set_Irq bool
  | Set_Interrupt_Pin nat
  | Msi_Init
  | Register_Bar nat
  | Msi_Uninit

datatype qtimer = T_Unset | T_Idle | T_Armed int

record DmaEngineState =
  dv_sq_base :: u64
  dv_cq_base :: u64
  dv_sq_depth :: u32
  dv_cq_depth :: u32
  dv_sq_head :: u32
  dv_sq_tail :: u32
  dv_cq_tail :: u32
  dv_irq_status :: u32
  dv_dma_timer :: qtimer
  dv_dev_buf :: block
  dv_events :: "pci_event list"

text \<open>The zero-filled state that QEMU allocates for a new device object.\<close>

definition dev_zero :: DmaEngineState where
  "dev_zero = \<lparr> dv_sq_base = 0, dv_cq_base = 0, dv_sq_depth = 0, dv_cq_depth = 0, dv_sq_head = 0,
     dv_sq_tail = 0, dv_cq_tail = 0, dv_irq_status = 0, dv_dma_timer = T_Unset,
     dv_dev_buf = replicate (unat DEV_BUF_SIZE) 0, dv_events = [] \<rparr>"

definition dev_event :: "pci_event \<Rightarrow> DmaEngineState \<Rightarrow> DmaEngineState" where
  "dev_event e s = s\<lparr>dv_events := dv_events s @ [e]\<rparr>"

subsection \<open>Interrupts\<close>

definition dma_engine_raise_irq :: "bool \<Rightarrow> DmaEngineState \<Rightarrow> DmaEngineState" where
  "dma_engine_raise_irq msi s =
     (let s = s\<lparr>dv_irq_status := dv_irq_status s OR IRQ_CQ_READY\<rparr>
      in if msi then dev_event (Msi_Notify 0) s else dev_event (Pci_Set_Irq True) s)"

definition dma_engine_lower_irq :: "bool \<Rightarrow> DmaEngineState \<Rightarrow> DmaEngineState" where
  "dma_engine_lower_irq msi s =
     (let s = s\<lparr>dv_irq_status := 0\<rparr> in if \<not> msi then dev_event (Pci_Set_Irq False) s else s)"

subsection \<open>Processing\<close>

type_synonym dma_rd = "mem \<Rightarrow> u64 \<Rightarrow> nat \<Rightarrow> int \<times> block"
type_synonym dma_wr = "mem \<Rightarrow> u64 \<Rightarrow> block \<Rightarrow> int \<times> mem"

definition clamp_len :: "u32 \<Rightarrow> u32" where
  "clamp_len l = (if l > DEV_BUF_SIZE then DEV_BUF_SIZE else l)"

text \<open>The data transfer of one entry: completion status, device buffer and memory afterwards.\<close>

definition data_dma :: "dma_rd \<Rightarrow> dma_wr \<Rightarrow> DevSqe \<Rightarrow> block \<Rightarrow> mem \<Rightarrow> u32 \<times> block \<times> mem" where
  "data_dma rd wr sqe buf m =
     (let len = clamp_len (ds_len sqe) in
      if ds_op sqe = OP_TX then
        let (rc, bs) = rd m (ds_buf_addr sqe) (unat len)
        in (if rc \<noteq> 0 then - 1 else 0, bs @ drop (unat len) buf, m)
      else if ds_op sqe = OP_RX then
        let (rc, m') = wr m (ds_buf_addr sqe) (take (unat len) buf)
        in (if rc \<noteq> 0 then - 1 else 0, buf, m')
      else (- 22, buf, m))"

definition build_cqe :: "DevSqe \<Rightarrow> u32 \<Rightarrow> DevCqe" where
  "build_cqe sqe st = \<lparr> dc_cookie = ds_cookie sqe, dc_status = st,
     dc_bytes_xferred = (if st = 0 then clamp_len (ds_len sqe) else 0) \<rparr>"

definition sqe_addr :: "DmaEngineState \<Rightarrow> u32 \<Rightarrow> u64" where
  "sqe_addr s i = dv_sq_base s + ucast (i AND (dv_sq_depth s - 1)) * of_nat sizeof_sqe"

definition cqe_addr :: "DmaEngineState \<Rightarrow> u32 \<Rightarrow> u64" where
  "cqe_addr s i = dv_cq_base s + ucast (i AND (dv_cq_depth s - 1)) * of_nat sizeof_cqe"

text \<open>One iteration of the loop.\<close>

definition process_one ::
  "dma_rd \<Rightarrow> dma_wr \<Rightarrow> DmaEngineState \<Rightarrow> mem \<Rightarrow> DmaEngineState \<times> mem" where
  "process_one rd wr s m =
     (let sqe = DevSqe_of_bytes (snd (rd m (sqe_addr s (dv_sq_head s)) sizeof_sqe));
          (st, buf, m) = data_dma rd wr sqe (dv_dev_buf s) m;
          m = snd (wr m (cqe_addr s (dv_cq_tail s)) (DevCqe_bytes (build_cqe sqe st)))
      in (s\<lparr>dv_dev_buf := buf, dv_sq_head := dv_sq_head s + 1, dv_cq_tail := dv_cq_tail s + 1\<rparr>, m))"

function process_loop ::
  "dma_rd \<Rightarrow> dma_wr \<Rightarrow> DmaEngineState \<Rightarrow> mem \<Rightarrow> bool \<Rightarrow> DmaEngineState \<times> mem \<times> bool" where
  "process_loop rd wr s m did_work =
     (if dv_sq_head s = dv_sq_tail s then (s, m, did_work)
      else if dv_cq_tail s - dv_sq_head s \<ge> dv_cq_depth s then (s, m, did_work)
      else let (s', m') = process_one rd wr s m in process_loop rd wr s' m' True)"
  by pat_completeness auto
termination
proof (relation "measure (\<lambda>(rd, wr, s, m, w). unat (dv_sq_tail s - dv_sq_head s))")
  fix rd wr s m w x s' m'
  assume ne: "dv_sq_head s \<noteq> dv_sq_tail s" and x: "x = process_one rd wr s m" and p: "(s', m') = x"
  have "dv_sq_head s' = dv_sq_head s + 1" "dv_sq_tail s' = dv_sq_tail s"
    using x p by (auto simp: process_one_def Let_def case_prod_beta)
  with pending_decreases [OF ne]
  show "((rd, wr, s', m', True), (rd, wr, s, m, w)) \<in>
      measure (\<lambda>(rd, wr, s, m, w). unat (dv_sq_tail s - dv_sq_head s))" by simp
qed simp

declare process_loop.simps [simp del]

definition dma_engine_process ::
  "bool \<Rightarrow> dma_rd \<Rightarrow> dma_wr \<Rightarrow> DmaEngineState \<Rightarrow> mem \<Rightarrow> DmaEngineState \<times> mem" where
  "dma_engine_process msi rd wr s m =
     (let (s, m, did_work) = process_loop rd wr s m False
      in (if did_work then dma_engine_raise_irq msi s else s, m))"

text \<open>The timer expires: QEMU disarms it and calls the processing function.\<close>

definition timer_expires ::
  "bool \<Rightarrow> dma_rd \<Rightarrow> dma_wr \<Rightarrow> DmaEngineState \<Rightarrow> mem \<Rightarrow> DmaEngineState \<times> mem" where
  "timer_expires msi rd wr s m =
     (case dv_dma_timer s of
        T_Armed d \<Rightarrow> dma_engine_process msi rd wr (s\<lparr>dv_dma_timer := T_Idle\<rparr>) m
      | _ \<Rightarrow> (s, m))"

subsection \<open>Register access\<close>

definition dma_engine_mmio_read :: "DmaEngineState \<Rightarrow> u64 \<Rightarrow> u64" where
  "dma_engine_mmio_read s addr =
     (if addr = REG_DEVICE_ID then DEVICE_ID_MAGIC
      else if addr = REG_DEVICE_STATUS then
        (if dv_sq_base s \<noteq> 0 \<and> dv_cq_base s \<noteq> 0 \<and> dv_sq_depth s \<noteq> 0 \<and> dv_cq_depth s \<noteq> 0 then 1 else 0)
      else if addr = REG_SQ_BASE_LO then ucast (ucast (dv_sq_base s) :: u32)
      else if addr = REG_SQ_BASE_HI then ucast (ucast (drop_bit 32 (dv_sq_base s)) :: u32)
      else if addr = REG_CQ_BASE_LO then ucast (ucast (dv_cq_base s) :: u32)
      else if addr = REG_CQ_BASE_HI then ucast (ucast (drop_bit 32 (dv_cq_base s)) :: u32)
      else if addr = REG_SQ_DEPTH then ucast (dv_sq_depth s)
      else if addr = REG_CQ_DEPTH then ucast (dv_cq_depth s)
      else if addr = REG_IRQ_STATUS then ucast (dv_irq_status s)
      else if addr = REG_SQ_HEAD then ucast (dv_sq_head s)
      else if addr = REG_CQ_TAIL then ucast (dv_cq_tail s)
      else 0)"

definition write_lo :: "u64 \<Rightarrow> u64 \<Rightarrow> u64" where
  "write_lo base val = (base AND 0xFFFFFFFF00000000) OR ucast (ucast val :: u32)"

definition write_hi :: "u64 \<Rightarrow> u64 \<Rightarrow> u64" where
  "write_hi base val = (base AND 0x00000000FFFFFFFF) OR push_bit 32 val"

definition dma_engine_mmio_write ::
  "bool \<Rightarrow> int \<Rightarrow> DmaEngineState \<Rightarrow> u64 \<Rightarrow> u64 \<Rightarrow> DmaEngineState" where
  "dma_engine_mmio_write msi now s addr val =
     (if addr = REG_SQ_BASE_LO then s\<lparr>dv_sq_base := write_lo (dv_sq_base s) val\<rparr>
      else if addr = REG_SQ_BASE_HI then s\<lparr>dv_sq_base := write_hi (dv_sq_base s) val\<rparr>
      else if addr = REG_CQ_BASE_LO then s\<lparr>dv_cq_base := write_lo (dv_cq_base s) val\<rparr>
      else if addr = REG_CQ_BASE_HI then s\<lparr>dv_cq_base := write_hi (dv_cq_base s) val\<rparr>
      else if addr = REG_SQ_DEPTH then s\<lparr>dv_sq_depth := ucast val\<rparr>
      else if addr = REG_CQ_DEPTH then s\<lparr>dv_cq_depth := ucast val\<rparr>
      else if addr = REG_SQ_DOORBELL then s\<lparr>dv_sq_tail := ucast val, dv_dma_timer := T_Armed (now + 1000000)\<rparr>
      else if addr = REG_IRQ_ACK then dma_engine_lower_irq msi s
      else s)"

subsection \<open>PCI lifecycle\<close>

definition dma_engine_realize :: "int \<Rightarrow> DmaEngineState \<Rightarrow> DmaEngineState" where
  "dma_engine_realize rc s =
     (let s = dev_event (Set_Interrupt_Pin 1) s in
      if rc \<noteq> 0 then s
      else dev_event (Register_Bar 0) ((dev_event Msi_Init s)\<lparr>dv_dma_timer := T_Idle\<rparr>))"

definition dma_engine_exit :: "DmaEngineState \<Rightarrow> DmaEngineState" where
  "dma_engine_exit s = dev_event Msi_Uninit (s\<lparr>dv_dma_timer := T_Idle\<rparr>)"

subsection \<open>The device class\<close>

record device_class =
  pc_realize :: "int \<Rightarrow> DmaEngineState \<Rightarrow> DmaEngineState"
  pc_exit :: "DmaEngineState \<Rightarrow> DmaEngineState"
  pc_vendor_id :: "16 word"
  pc_device_id :: "16 word"
  pc_revision :: u8
  pc_class_id :: "16 word"
  dc_desc :: string
  dc_misc :: bool

text \<open>\<open>vendor\<close> and \<open>others\<close> are QEMU's constants \<^verbatim>\<open>PCI_VENDOR_ID_QEMU\<close> and \<^verbatim>\<open>PCI_CLASS_OTHERS\<close>.\<close>

definition dma_engine_class_init :: "16 word \<Rightarrow> 16 word \<Rightarrow> device_class \<Rightarrow> device_class" where
  "dma_engine_class_init vendor others k =
     k\<lparr>pc_realize := dma_engine_realize, pc_exit := dma_engine_exit, pc_vendor_id := vendor,
       pc_device_id := 0xdea1, pc_revision := 0x01, pc_class_id := others,
       dc_desc := ''DMA Engine with SQ/CQ descriptor rings'', dc_misc := True\<rparr>"

section \<open>Lemmas\<close>

subsection \<open>One iteration\<close>

lemma process_one_indices:
  assumes "process_one rd wr s m = (s', m')"
  shows "dv_sq_head s' = dv_sq_head s + 1" "dv_cq_tail s' = dv_cq_tail s + 1"
    "dv_sq_tail s' = dv_sq_tail s" "dv_sq_depth s' = dv_sq_depth s" "dv_cq_depth s' = dv_cq_depth s"
    "dv_sq_base s' = dv_sq_base s" "dv_cq_base s' = dv_cq_base s"
  using assms by (auto simp: process_one_def Let_def case_prod_beta)

end
