(* ===== verification/Dma_Process.thy ===== *)
theory Dma_Process
  imports Dma_Device
begin

text \<open>
  What the processing loop of the device does, as a list function: \<open>complete_all\<close> executes a list
  of submission entries one after the other and posts their completions. Inside the locale
  \<open>guest_ram\<close>, the contract of \<^verbatim>\<open>pci_dma_read\<close> and \<^verbatim>\<open>pci_dma_write\<close>, the loop is shown to be that
  function on the entries pending in guest memory, and the completion ring afterwards to hold
  exactly one completion per entry, in order.
\<close>

section \<open>Definitions\<close>

fun complete_all ::
  "dma_rd \<Rightarrow> dma_wr \<Rightarrow> (u32 \<Rightarrow> u64) \<Rightarrow> u32 \<Rightarrow> DevSqe list \<Rightarrow> block \<Rightarrow> mem \<Rightarrow> DevCqe list \<times> block \<times> mem" where
  "complete_all rd wr addr t [] buf m = ([], buf, m)"
| "complete_all rd wr addr t (e # es) buf m =
     (let (st, buf, m) = data_dma rd wr e buf m;
          c = build_cqe e st;
          m = snd (wr m (addr t) (DevCqe_bytes c));
          (cs, buf, m) = complete_all rd wr addr (t + 1) es buf m
      in (c # cs, buf, m))"

text \<open>The entries between the device's head and the last doorbell value, as memory has them.\<close>

definition pending :: "DmaEngineState \<Rightarrow> mem \<Rightarrow> DevSqe list" where
  "pending s m =
     map (\<lambda>i. DevSqe_of_bytes (load m (sqe_addr s (dv_sq_head s + of_nat i)) sizeof_sqe))
       [0..<unat (dv_sq_tail s - dv_sq_head s)]"

text \<open>
  The completion an entry calls for: at most 4096 bytes are moved; a transmit (1) or receive (2) is
  successful when its host buffer is RAM, and fails with \<open>-1\<close> otherwise; any other operation is \<open>-22\<close>.
\<close>

definition xfer_len :: "DevSqe \<Rightarrow> nat" where
  "xfer_len e = min (unat (ds_len e)) 4096"

definition status_of :: "(u64 \<Rightarrow> nat \<Rightarrow> bool) \<Rightarrow> DevSqe \<Rightarrow> u32" where
  "status_of backed e =
     (if ds_op e = 1 \<or> ds_op e = 2 then if backed (ds_buf_addr e) (xfer_len e) then 0 else - 1 else - 22)"

definition completion :: "(u64 \<Rightarrow> nat \<Rightarrow> bool) \<Rightarrow> DevSqe \<Rightarrow> DevCqe" where
  "completion backed e = \<lparr> dc_cookie = ds_cookie e, dc_status = status_of backed e,
     dc_bytes_xferred = (if status_of backed e = 0 then of_nat (xfer_len e) else 0) \<rparr>"

text \<open>
  What executing entries whose buffers are all RAM does to the device buffer and to memory, in order: a transmit
  loads host bytes into the device buffer, a receive stores bytes of the device buffer in host memory, and either way the completion
  is stored in the next slot.
\<close>

fun execute :: "(u32 \<Rightarrow> u64) \<Rightarrow> u32 \<Rightarrow> DevSqe list \<Rightarrow> block \<times> mem \<Rightarrow> block \<times> mem" where
  "execute slot t [] (buf, m) = (buf, m)"
| "execute slot t (e # es) (buf, m) =
     execute slot (t + 1) es
       (if ds_op e = 1 then load m (ds_buf_addr e) (xfer_len e) @ drop (xfer_len e) buf else buf,
        store (if ds_op e = 2 then store m (ds_buf_addr e) (take (xfer_len e) buf) else m)
          (slot t) (DevCqe_bytes (completion (\<lambda>_ _. True) e)))"

text \<open>Rings of a power-of-two depth, in guest RAM, that do not overlap.\<close>

definition rings_ok :: "(u64 \<Rightarrow> nat \<Rightarrow> bool) \<Rightarrow> DmaEngineState \<Rightarrow> bool" where
  "rings_ok backed s \<longleftrightarrow>
     is_pow2 (dv_sq_depth s) \<and> is_pow2 (dv_cq_depth s) \<and>
     (\<forall>i. backed (sqe_addr s i) sizeof_sqe) \<and> (\<forall>i. backed (cqe_addr s i) sizeof_cqe) \<and>
     apart (dv_sq_base s) (unat (dv_sq_depth s) * sizeof_sqe) (dv_cq_base s) (unat (dv_cq_depth s) * sizeof_cqe)"

text \<open>A transfer to the host does not hit the rings.\<close>

definition rx_safe :: "DmaEngineState \<Rightarrow> DevSqe \<Rightarrow> bool" where
  "rx_safe s e \<longleftrightarrow>
     (let n = unat (clamp_len (ds_len e)) in
      ds_op e = OP_RX \<and> 0 < n \<longrightarrow>
        apart (dv_sq_base s) (unat (dv_sq_depth s) * sizeof_sqe) (ds_buf_addr e) n \<and>
        apart (dv_cq_base s) (unat (dv_cq_depth s) * sizeof_cqe) (ds_buf_addr e) n)"

text \<open>The \<open>n\<close> completions from index \<open>h\<close> on, as the driver reads them.\<close>

definition cqes_at :: "DmaEngineState \<Rightarrow> mem \<Rightarrow> u32 \<Rightarrow> nat \<Rightarrow> cqe_t list" where
  "cqes_at s m h n = map (\<lambda>i. cqe_of_bytes (load m (cqe_addr s (h + of_nat i)) sizeof_cqe)) [0..<n]"

text \<open>The device invariant.\<close>

definition dev_inv :: "DmaEngineState \<Rightarrow> bool" where
  "dev_inv s \<longleftrightarrow> length (dv_dev_buf s) = unat DEV_BUF_SIZE \<and> dv_cq_tail s = dv_sq_head s"

text \<open>Byte-addressed RAM with a set of backed ranges: an instance of the contract.\<close>

definition flat_read :: "(u64 \<Rightarrow> nat \<Rightarrow> bool) \<Rightarrow> dma_rd" where
  "flat_read backed m a n = (if backed a n then 0 else 2, load m a n)"

definition flat_write :: "(u64 \<Rightarrow> nat \<Rightarrow> bool) \<Rightarrow> dma_wr" where
  "flat_write backed m a bs = (if backed a (length bs) then (0, store m a bs) else (2, m))"

section \<open>The completion of one entry\<close>

lemma clamp_len_xfer: "unat (clamp_len (ds_len e)) = xfer_len e" "clamp_len (ds_len e) = of_nat (xfer_len e)"
proof -
  show u: "unat (clamp_len (ds_len e)) = xfer_len e"
    by (simp add: clamp_len_def xfer_len_def DEV_BUF_SIZE_def word_less_nat_alt)
  show "clamp_len (ds_len e) = of_nat (xfer_len e)" unfolding u [symmetric] by simp
qed

lemma build_cqe_completion: "build_cqe e (status_of backed e) = completion backed e"
  by (simp add: build_cqe_def completion_def clamp_len_xfer(2))

section \<open>Addresses of ring slots\<close>

lemma ucast_of_nat: "(ucast (x::u32) :: u64) = of_nat (unat x)"
  by simp

lemma sqe_addr_slot:
  "sqe_addr s i = dv_sq_base s + of_nat (unat (i AND (dv_sq_depth s - 1)) * sizeof_sqe)"
  unfolding sqe_addr_def ucast_of_nat of_nat_mult ..

lemma cqe_addr_slot:
  "cqe_addr s i = dv_cq_base s + of_nat (unat (i AND (dv_cq_depth s - 1)) * sizeof_cqe)"
  unfolding cqe_addr_def ucast_of_nat of_nat_mult ..

lemma ring_slot_apart:
  fixes d i :: u32
  assumes "is_pow2 d" "0 < sz" "apart base (unat d * sz) a n"
  shows "apart (base + of_nat (unat (i AND (d - 1)) * sz)) sz a n"
proof (rule apart_sub [OF assms(3)])
  have "unat (i AND (d - 1)) < unat d" using assms(1) by (rule mask_ring.slot_less)
  then show "unat (i AND (d - 1)) * sz + sz \<le> unat d * sz"
    using mult_chunk_le [of "unat (i AND (d - 1))" 1 "unat d" sz] by simp
qed (rule assms(2))

lemma sqe_addr_apart:
  assumes "is_pow2 (dv_sq_depth s)" "apart (dv_sq_base s) (unat (dv_sq_depth s) * sizeof_sqe) a n"
  shows "apart (sqe_addr s i) sizeof_sqe a n"
  unfolding sqe_addr_slot by (rule ring_slot_apart [OF assms(1) _ assms(2)]) (simp add: sizeof_sqe_def)

lemma cqe_addr_apart:
  assumes "is_pow2 (dv_cq_depth s)" "apart (dv_cq_base s) (unat (dv_cq_depth s) * sizeof_cqe) a n"
  shows "apart (cqe_addr s i) sizeof_cqe a n"
  unfolding cqe_addr_slot by (rule ring_slot_apart [OF assms(1) _ assms(2)]) (simp add: sizeof_cqe_def)

text \<open>Different slots of one ring do not overlap.\<close>

lemma slots_apart_less:
  fixes base :: u64
  assumes "a < b" "b < N" "N * sz \<le> 2 ^ 64"
  shows "apart (base + of_nat (a * sz)) sz (base + of_nat (b * sz)) sz"
proof (cases "sz = 0")
  case False
  have ab: "a * sz + sz \<le> b * sz" using mult_chunk_le [of a 1 b sz] assms(1) by simp
  have bN: "b * sz + sz \<le> N * sz" using mult_chunk_le [of b 1 N sz] assms(2) by simp
  let ?d = "b * sz - a * sz"
  have d: "(of_nat (b * sz) :: u64) - of_nat (a * sz) = of_nat ?d"
    using ab by (simp only: of_nat_diff)
  have ud: "unat (of_nat ?d :: u64) = ?d"
    using ab bN assms(3) False by (intro unat_offset) linarith
  have pos: "sz \<le> ?d" "sz \<le> 2 ^ 64 - ?d" using ab bN assms(3) by linarith+
  have "(of_nat ?d :: u64) \<noteq> 0" using ud pos False by (metis le_zero_eq unsigned_0)
  then have "(of_nat (a * sz) :: u64) \<noteq> of_nat (b * sz)" unfolding d [symmetric] by (simp only: right_minus_eq)
  then have "unat ((of_nat (a * sz) :: u64) - of_nat (b * sz)) = 2 ^ 64 - ?d"
    using unat_minus_swap [of "of_nat (a * sz)" "of_nat (b * sz)"] d ud by simp
  then show ?thesis using d ud pos by (simp only: apart_def add_diff_cancel_left)
qed (simp add: apart_def)

lemma slots_apart:
  fixes base :: u64
  assumes "a \<noteq> b" "a < N" "b < N" "N * sz \<le> 2 ^ 64"
  shows "apart (base + of_nat (a * sz)) sz (base + of_nat (b * sz)) sz"
proof (cases "a < b")
  case True
  then show ?thesis using assms(3,4) by (rule slots_apart_less)
next
  case False
  with assms(1) have "b < a" by simp
  then show ?thesis using assms(2,4) by (subst apart_sym) (rule slots_apart_less)
qed

lemma u32_ring_fits: "unat (d::u32) * sizeof_cqe \<le> 2 ^ 64" "unat (d::u32) * sizeof_sqe \<le> 2 ^ 64"
proof -
  have "unat d < 2 ^ LENGTH(32)" by (rule unsigned_less)
  then show "unat d * sizeof_cqe \<le> 2 ^ 64" "unat d * sizeof_sqe \<le> 2 ^ 64"
    by (simp_all add: sizeof_cqe_def sizeof_sqe_def)
qed

lemma cqe_slots_apart:
  assumes "is_pow2 (dv_cq_depth s)" "i < unat (dv_cq_depth s)" "j < unat (dv_cq_depth s)" "i \<noteq> j"
  shows "apart (cqe_addr s (t + of_nat i)) sizeof_cqe (cqe_addr s (t + of_nat j)) sizeof_cqe"
  unfolding cqe_addr_slot
proof (rule slots_apart [OF _ _ _ u32_ring_fits(1)])
  show "unat ((t + of_nat i) AND (dv_cq_depth s - 1)) \<noteq> unat ((t + of_nat j) AND (dv_cq_depth s - 1))"
    using mask_ring.slot_inj [OF assms(1-3)] assms(4) by blast
qed (rule mask_ring.slot_less [OF assms(1)])+

lemma cqe_addr_wraps:
  assumes "is_pow2 (dv_cq_depth s)"
  shows "cqe_addr s (h + dv_cq_depth s) = cqe_addr s h"
proof -
  have "unat ((h + of_nat (unat (dv_cq_depth s))) AND (dv_cq_depth s - 1)) = unat (h AND (dv_cq_depth s - 1))"
    unfolding and_mask_is_mod [OF assms] unat_plus_mod_dvd [OF is_pow2_dvd [OF assms]] by simp
  then show ?thesis by (simp add: cqe_addr_slot)
qed

lemma sqe_slots_apart:
  assumes "is_pow2 (dv_sq_depth s)" "i < unat (dv_sq_depth s)" "j < unat (dv_sq_depth s)" "i \<noteq> j"
  shows "apart (sqe_addr s (t + of_nat i)) sizeof_sqe (sqe_addr s (t + of_nat j)) sizeof_sqe"
  unfolding sqe_addr_slot
proof (rule slots_apart [OF _ _ _ u32_ring_fits(2)])
  show "unat ((t + of_nat i) AND (dv_sq_depth s - 1)) \<noteq> unat ((t + of_nat j) AND (dv_sq_depth s - 1))"
    using mask_ring.slot_inj [OF assms(1-3)] assms(4) by blast
qed (rule mask_ring.slot_less [OF assms(1)])+

lemma sqe_cqe_apart:
  assumes "rings_ok backed s"
  shows "apart (sqe_addr s i) sizeof_sqe (cqe_addr s t) sizeof_cqe" "apart (cqe_addr s t) sizeof_cqe (sqe_addr s i) sizeof_sqe"
proof -
  have p: "is_pow2 (dv_sq_depth s)" "is_pow2 (dv_cq_depth s)" using assms by (simp_all add: rings_ok_def)
  have "apart (sqe_addr s i) sizeof_sqe (dv_cq_base s) (unat (dv_cq_depth s) * sizeof_cqe)"
    using assms p by (intro sqe_addr_apart) (simp_all add: rings_ok_def)
  then show "apart (cqe_addr s t) sizeof_cqe (sqe_addr s i) sizeof_sqe"
    using p by (intro cqe_addr_apart) (simp_all add: apart_sym)
  then show "apart (sqe_addr s i) sizeof_sqe (cqe_addr s t) sizeof_cqe" by (simp add: apart_sym)
qed

section \<open>The loop under the memory contract\<close>

text \<open>
  \<^verbatim>\<open>pci_dma_read\<close> fills the buffer from guest memory and returns 0 on a range backed by RAM, and
  returns an error on any other; \<^verbatim>\<open>pci_dma_write\<close> stores the bytes or returns an error; neither
  touches memory outside its range.
\<close>

locale guest_ram =
  fixes rd :: dma_rd and wr :: dma_wr and backed :: "u64 \<Rightarrow> nat \<Rightarrow> bool"
  assumes rd_ok: "backed a n \<Longrightarrow> rd m a n = (0, load m a n)"
    and rd_length: "length (snd (rd m a n)) = n"
    and rd_error: "\<not> backed a n \<Longrightarrow> fst (rd m a n) \<noteq> 0"
    and wr_ok: "backed a (length bs) \<Longrightarrow> wr m a bs = (0, store m a bs)"
    and wr_error: "\<not> backed a (length bs) \<Longrightarrow> fst (wr m a bs) \<noteq> 0"
    and wr_local: "bs = [] \<or> apart b k a (length bs) \<Longrightarrow> load (snd (wr m a bs)) b k = load m b k"
begin

lemma data_dma_result:
  assumes "data_dma rd wr e buf m = (st, buf', m')" "length buf = unat DEV_BUF_SIZE"
  shows "st = status_of backed e" "length buf' = unat DEV_BUF_SIZE"
proof -
  let ?n = "unat (clamp_len (ds_len e))"
  have n: "?n \<le> unat DEV_BUF_SIZE" by (simp add: clamp_len_def word_less_nat_alt)
  then have l: "length (take ?n buf) = ?n" using assms(2) by simp
  note r = rd_ok [of "ds_buf_addr e" ?n m] rd_error [of "ds_buf_addr e" ?n m] rd_length [of m "ds_buf_addr e" ?n]
  note w = wr_ok [of "ds_buf_addr e" "take ?n buf" m] wr_error [of "ds_buf_addr e" "take ?n buf" m]
  show "st = status_of backed e"
    using assms r w l by (auto simp: data_dma_def status_of_def Let_def OP_TX_def OP_RX_def clamp_len_xfer(1) split: if_splits prod.splits)
  show "length buf' = unat DEV_BUF_SIZE"
    using assms r n by (auto simp: data_dma_def Let_def split: if_splits prod.splits)
qed

lemma data_dma_local:
  assumes "data_dma rd wr e buf m = (st, buf', m')" "length buf = unat DEV_BUF_SIZE"
    and "ds_op e = OP_RX \<Longrightarrow> 0 < unat (clamp_len (ds_len e)) \<Longrightarrow>
      apart a n (ds_buf_addr e) (unat (clamp_len (ds_len e)))"
  shows "load m' a n = load m a n"
proof -
  let ?n = "unat (clamp_len (ds_len e))"
  have "?n \<le> unat DEV_BUF_SIZE" by (simp add: clamp_len_def word_less_nat_alt)
  then have l: "length (take ?n buf) = ?n" using assms(2) by simp
  then have "take ?n buf = [] \<or> 0 < ?n" by (cases "take ?n buf") auto
  with l assms(3) wr_local [of "take ?n buf" a n "ds_buf_addr e" m] assms(1) show ?thesis
    by (auto simp: data_dma_def Let_def split: if_splits prod.splits)
qed

text \<open>Slots of the submission ring, and slots of the completion ring, survive a safe transfer.\<close>

lemma data_dma_slots:
  assumes "data_dma rd wr e buf m = (st, buf', m')" "length buf = unat DEV_BUF_SIZE"
    and s: "rings_ok backed s" "rx_safe s e"
  shows "load m' (sqe_addr s i) sizeof_sqe = load m (sqe_addr s i) sizeof_sqe"
    and "load m' (cqe_addr s i) sizeof_cqe = load m (cqe_addr s i) sizeof_cqe"
  using s by (auto intro!: data_dma_local [OF assms(1,2)] sqe_addr_apart cqe_addr_apart
      simp: rings_ok_def rx_safe_def Let_def)

lemma cqe_write_keeps_sqe:
  assumes "rings_ok backed s"
  shows "load (snd (wr m (cqe_addr s t) (DevCqe_bytes c))) (sqe_addr s i) sizeof_sqe =
    load m (sqe_addr s i) sizeof_sqe"
  using sqe_cqe_apart [OF assms] by (intro wr_local) simp

text \<open>The loop is \<open>complete_all\<close> on the pending entries.\<close>

lemma pending_step:
  assumes s: "rings_ok backed s" and ne: "dv_sq_head s \<noteq> dv_sq_tail s"
    and buf: "length (dv_dev_buf s) = unat DEV_BUF_SIZE" and safe: "\<forall>e \<in> set (pending s m). rx_safe s e"
    and p: "process_one rd wr s m = (s', m')"
  shows "\<exists>e st buf m1. pending s m = e # pending s' m' \<and> data_dma rd wr e (dv_dev_buf s) m = (st, buf, m1) \<and>
    m' = snd (wr m1 (cqe_addr s (dv_cq_tail s)) (DevCqe_bytes (build_cqe e st))) \<and>
    s' = s\<lparr>dv_dev_buf := buf, dv_sq_head := dv_sq_head s + 1, dv_cq_tail := dv_cq_tail s + 1\<rparr> \<and>
    length buf = unat DEV_BUF_SIZE"
proof -
  let ?h = "dv_sq_head s" and ?t = "dv_sq_tail s"
  let ?rd = "\<lambda>m i. DevSqe_of_bytes (load m (sqe_addr s i) sizeof_sqe)"
  have "rd m (sqe_addr s ?h) sizeof_sqe = (0, load m (sqe_addr s ?h) sizeof_sqe)"
    using s by (intro rd_ok) (simp add: rings_ok_def)
  then obtain st buf m1 where d: "data_dma rd wr (?rd m ?h) (dv_dev_buf s) m = (st, buf, m1)"
    and m': "m' = snd (wr m1 (cqe_addr s (dv_cq_tail s)) (DevCqe_bytes (build_cqe (?rd m ?h) st)))"
    and s': "s' = s\<lparr>dv_dev_buf := buf, dv_sq_head := ?h + 1, dv_cq_tail := dv_cq_tail s + 1\<rparr>"
    using p by (auto simp: process_one_def Let_def split: prod.splits)
  have "unat (?t - ?h) \<noteq> 0" using ne by (simp add: unat_eq_0)
  then have n: "unat (?t - ?h) = Suc (unat (?t - (?h + 1)))"
    using unat_dist_sub [of 1 ?t ?h] by simp
  then have pend: "pending s m = ?rd m ?h # map (\<lambda>i. ?rd m (?h + 1 + of_nat i)) [0..<unat (?t - (?h + 1))]"
    by (simp add: pending_def upt_conv_Cons map_Suc_upt [symmetric] add.assoc del: upt_Suc)
  have safe0: "rx_safe s (?rd m ?h)" using safe pend by simp
  have "load m' (sqe_addr s i) sizeof_sqe = load m (sqe_addr s i) sizeof_sqe" for i
    unfolding m' using cqe_write_keeps_sqe [OF s] data_dma_slots(1) [OF d buf s safe0] by simp
  then have "pending s' m' = map (\<lambda>i. ?rd m (?h + 1 + of_nat i)) [0..<unat (?t - (?h + 1))]"
    by (simp add: pending_def s' sqe_addr_def)
  then show ?thesis using pend d m' s' data_dma_result(2) [OF d buf] by auto
qed

theorem process_loop_spec:
  assumes "rings_ok backed s" "dev_inv s" "\<forall>e \<in> set (pending s m). rx_safe s e"
    and "complete_all rd wr (cqe_addr s) (dv_cq_tail s) (pending s m) (dv_dev_buf s) m = (cs, buf, m')"
  shows "process_loop rd wr s m w =
    (s\<lparr>dv_dev_buf := buf, dv_sq_head := dv_sq_tail s, dv_cq_tail := dv_sq_tail s\<rparr>, m',
     w \<or> dv_sq_head s \<noteq> dv_sq_tail s)"
  using assms
proof (induction "unat (dv_sq_tail s - dv_sq_head s)" arbitrary: s m w cs)
  case 0
  then have "dv_sq_tail s = dv_sq_head s" by (simp add: unat_eq_0)
  with 0 show ?case by (simp add: process_loop.simps [of _ _ s] pending_def dev_inv_def)
next
  case (Suc n)
  have ne: "dv_sq_head s \<noteq> dv_sq_tail s" using Suc.hyps(2) by auto
  obtain s1 m1 where p: "process_one rd wr s m = (s1, m1)" by (cases "process_one rd wr s m")
  have buf: "length (dv_dev_buf s) = unat DEV_BUF_SIZE" using Suc.prems by (simp add: dev_inv_def)
  obtain e st b m2 where e: "pending s m = e # pending s1 m1" "data_dma rd wr e (dv_dev_buf s) m = (st, b, m2)"
    "m1 = snd (wr m2 (cqe_addr s (dv_cq_tail s)) (DevCqe_bytes (build_cqe e st)))"
    and s1: "s1 = s\<lparr>dv_dev_buf := b, dv_sq_head := dv_sq_head s + 1, dv_cq_tail := dv_cq_tail s + 1\<rparr>"
    and b: "length b = unat DEV_BUF_SIZE"
    using pending_step [OF Suc.prems(1) ne buf Suc.prems(3) p] by blast
  have addr: "cqe_addr s1 = cqe_addr s" "sqe_addr s1 = sqe_addr s" by (rule ext, simp add: s1 cqe_addr_def sqe_addr_def)+
  have sf: "dv_cq_tail s1 = dv_cq_tail s + 1" "dv_dev_buf s1 = b" by (simp_all add: s1)
  obtain cs1 where c1: "complete_all rd wr (cqe_addr s1) (dv_cq_tail s1) (pending s1 m1) (dv_dev_buf s1) m1 = (cs1, buf, m')"
    using Suc.prems(4) e unfolding addr sf by (auto simp: Let_def split: prod.splits)
  have r1: "rings_ok backed s1" using Suc.prems(1) by (simp add: rings_ok_def addr) (simp add: s1)
  have i1: "dev_inv s1" using Suc.prems(2) b by (simp add: dev_inv_def s1)
  have f1: "\<forall>e \<in> set (pending s1 m1). rx_safe s1 e" using Suc.prems(3) e(1) by (simp add: rx_safe_def s1)
  have n1: "n = unat (dv_sq_tail s1 - dv_sq_head s1)"
    using Suc.hyps(2) unat_dist_sub [of 1 "dv_sq_tail s" "dv_sq_head s"] by (simp add: s1)
  have "\<not> dv_cq_tail s - dv_sq_head s \<ge> dv_cq_depth s"
    using Suc.prems(1,2) by (auto simp: rings_ok_def dev_inv_def is_pow2_def)
  then have "process_loop rd wr s m w = process_loop rd wr s1 m1 True"
    using ne p by (simp add: process_loop.simps [of _ _ s])
  also have "\<dots> = (s1\<lparr>dv_dev_buf := buf, dv_sq_head := dv_sq_tail s1, dv_cq_tail := dv_sq_tail s1\<rparr>, m', True)"
    using Suc.hyps(1) [OF n1 r1 i1 f1 c1, of True] by simp
  finally show ?case using ne by (simp add: s1)
qed

text \<open>The completions are those the entries call for, and the ring holds them in order.\<close>

lemma complete_all_completions:
  "complete_all rd wr addr t es buf m = (cs, buf', m') \<Longrightarrow> length buf = unat DEV_BUF_SIZE \<Longrightarrow>
     cs = map (completion backed) es \<and> length buf' = unat DEV_BUF_SIZE"
proof (induction es arbitrary: t buf m cs)
  case (Cons e es)
  obtain st b m1 where d: "data_dma rd wr e buf m = (st, b, m1)" by (cases "data_dma rd wr e buf m")
  with Cons.prems Cons.IH data_dma_result [OF d Cons.prems(2)] show ?case
    by (fastforce simp: Let_def build_cqe_completion split: prod.splits)
qed simp

text \<open>Memory that is no slot of a new completion and no receive buffer stays as it is.\<close>

lemma complete_all_elsewhere:
  assumes "complete_all rd wr slot t es buf m = (cs, buf', m')" "length buf = unat DEV_BUF_SIZE"
    and "\<forall>e \<in> set es. ds_op e = OP_RX \<and> 0 < xfer_len e \<longrightarrow> apart a n (ds_buf_addr e) (xfer_len e)"
    and "\<And>j. j < length es \<Longrightarrow> apart a n (slot (t + of_nat j)) sizeof_cqe"
  shows "load m' a n = load m a n"
  using assms
proof (induction es arbitrary: t buf m cs)
  case (Cons e es)
  obtain st b m1 where d: "data_dma rd wr e buf m = (st, b, m1)" by (cases "data_dma rd wr e buf m")
  let ?m2 = "snd (wr m1 (slot t) (DevCqe_bytes (build_cqe e st)))"
  obtain cs1 where c: "complete_all rd wr slot (t + 1) es b ?m2 = (cs1, buf', m')"
    using Cons.prems(1) d by (auto simp: Let_def split: prod.splits)
  have "apart a n (slot (t + 1 + of_nat j)) sizeof_cqe" if "j < length es" for j
    using Cons.prems(4) [of "Suc j"] that by (simp add: add.assoc)
  with c Cons.prems(3) data_dma_result(2) [OF d Cons.prems(2)]
  have "load m' a n = load ?m2 a n" by (intro Cons.IH [of "t + 1" b ?m2 cs1]) auto
  also have "\<dots> = load m1 a n" using Cons.prems(4) [of 0] by (intro wr_local) simp
  also have "\<dots> = load m a n"
    using Cons.prems(3) by (intro data_dma_local [OF d Cons.prems(2)]) (simp add: clamp_len_xfer(1))
  finally show ?case .
qed simp

lemma complete_all_untouched:
  assumes "rings_ok backed s" "complete_all rd wr (cqe_addr s) t es buf m = (cs, buf', m')"
    and "length buf = unat DEV_BUF_SIZE" "\<forall>e \<in> set es. rx_safe s e"
    and "\<And>j. j < length es \<Longrightarrow> apart (cqe_addr s x) sizeof_cqe (cqe_addr s (t + of_nat j)) sizeof_cqe"
  shows "load m' (cqe_addr s x) sizeof_cqe = load m (cqe_addr s x) sizeof_cqe"
  using assms by (intro complete_all_elsewhere [OF assms(2,3)])
    (auto intro!: cqe_addr_apart simp: rings_ok_def rx_safe_def Let_def clamp_len_xfer(1))

text \<open>With all buffers in RAM the loop's effect on the data is that of \<open>execute\<close>.\<close>

lemma complete_all_execute:
  assumes "\<And>i. backed (slot i) sizeof_cqe" "complete_all rd wr slot t es buf m = (cs, buf', m')"
    and "length buf = unat DEV_BUF_SIZE"
    and "\<forall>e \<in> set es. ds_op e = OP_TX \<or> ds_op e = OP_RX \<longrightarrow> backed (ds_buf_addr e) (xfer_len e)"
  shows "(buf', m') = execute slot t es (buf, m)"
  using assms(2-4)
proof (induction es arbitrary: t buf m cs)
  case (Cons e es)
  obtain st b m1 where d: "data_dma rd wr e buf m = (st, b, m1)" by (cases "data_dma rd wr e buf m")
  note r = data_dma_result [OF d Cons.prems(2)]
  have "build_cqe e st = completion (\<lambda>_ _. True) e"
    using r(1) Cons.prems(3) unfolding build_cqe_completion [of e "\<lambda>_ _. True", symmetric]
    by (auto simp: status_of_def OP_TX_def OP_RX_def)
  moreover have "length (take (xfer_len e) buf) = xfer_len e"
    using Cons.prems(2) by (simp add: xfer_len_def DEV_BUF_SIZE_def)
  then have "b = (if ds_op e = 1 then load m (ds_buf_addr e) (xfer_len e) @ drop (xfer_len e) buf else buf)"
    "m1 = (if ds_op e = 2 then store m (ds_buf_addr e) (take (xfer_len e) buf) else m)"
    using d Cons.prems(3) rd_ok [of "ds_buf_addr e" "xfer_len e" m] wr_ok [of "ds_buf_addr e" "take (xfer_len e) buf" m]
    by (auto simp: data_dma_def Let_def OP_TX_def OP_RX_def clamp_len_xfer(1) split: if_splits prod.splits)
  moreover have "snd (wr m1 (slot t) (DevCqe_bytes c)) = store m1 (slot t) (DevCqe_bytes c)" for c
    using assms(1) by (subst wr_ok) (simp_all add: sizeof_cqe_def)
  ultimately show ?case
    using Cons.prems d Cons.IH [OF _ r(2)] by (auto simp: Let_def split: prod.splits)
qed simp

lemma complete_all_posted:
  assumes "rings_ok backed s" "complete_all rd wr (cqe_addr s) t es buf m = (cs, buf', m')"
    and "length buf = unat DEV_BUF_SIZE" "\<forall>e \<in> set es. rx_safe s e" "length es \<le> unat (dv_cq_depth s)"
    and "j < length es"
  shows "load m' (cqe_addr s (t + of_nat j)) sizeof_cqe = DevCqe_bytes (completion backed (es ! j))"
  using assms(2-6)
proof (induction es arbitrary: t buf m cs j)
  case (Cons e es)
  have p: "is_pow2 (dv_cq_depth s)" using assms(1) by (simp add: rings_ok_def)
  obtain st b m1 where d: "data_dma rd wr e buf m = (st, b, m1)" by (cases "data_dma rd wr e buf m")
  have st: "build_cqe e st = completion backed e" and b: "length b = unat DEV_BUF_SIZE"
    using data_dma_result [OF d Cons.prems(2)] by (simp_all add: build_cqe_completion)
  let ?m2 = "snd (wr m1 (cqe_addr s t) (DevCqe_bytes (completion backed e)))"
  obtain cs1 where c: "complete_all rd wr (cqe_addr s) (t + 1) es b ?m2 = (cs1, buf', m')"
    using Cons.prems(1) d st by (auto simp: Let_def split: prod.splits)
  show ?case
  proof (cases j)
    case 0
    have "apart (cqe_addr s t) sizeof_cqe (cqe_addr s (t + 1 + of_nat i)) sizeof_cqe" if "i < length es" for i
      using cqe_slots_apart [OF p, of 0 "Suc i" t] that Cons.prems(4) by (simp add: add.assoc)
    with c b Cons.prems(3) have "load m' (cqe_addr s t) sizeof_cqe = load ?m2 (cqe_addr s t) sizeof_cqe"
      by (intro complete_all_untouched [OF assms(1)]) auto
    moreover have "wr m1 (cqe_addr s t) (DevCqe_bytes (completion backed e)) =
        (0, store m1 (cqe_addr s t) (DevCqe_bytes (completion backed e)))"
      using assms(1) by (intro wr_ok) (simp add: rings_ok_def)
    ultimately show ?thesis using 0 by (simp add: load_store_same sizeof_cqe_def)
  next
    case (Suc i)
    with c b Cons.prems have "load m' (cqe_addr s (t + 1 + of_nat i)) sizeof_cqe = DevCqe_bytes (completion backed (es ! i))"
      by (intro Cons.IH) auto
    with Suc show ?thesis by (simp add: add.assoc)
  qed
qed simp

text \<open>New completions appear behind the \<open>k\<close> that are still in the ring, which stay as they are.\<close>

lemma complete_all_window:
  assumes r: "rings_ok backed s" and c: "complete_all rd wr (cqe_addr s) (h + of_nat k) es buf m = (cs, buf', m')"
    and buf: "length buf = unat DEV_BUF_SIZE" and safe: "\<forall>e \<in> set es. rx_safe s e"
    and room: "k + length es \<le> unat (dv_cq_depth s)"
  shows "cqes_at s m' h (k + length es) = cqes_at s m h k @ map (\<lambda>e. drv_view (completion backed e)) es"
proof (rule nth_equalityI)
  have p: "is_pow2 (dv_cq_depth s)" using r by (simp add: rings_ok_def)
  fix i assume "i < length (cqes_at s m' h (k + length es))"
  then have i: "i < k + length es" by (simp add: cqes_at_def)
  show "cqes_at s m' h (k + length es) ! i = (cqes_at s m h k @ map (\<lambda>e. drv_view (completion backed e)) es) ! i"
  proof (cases "i < k")
    case True
    have "apart (cqe_addr s (h + of_nat i)) sizeof_cqe (cqe_addr s (h + of_nat k + of_nat j)) sizeof_cqe"
      if "j < length es" for j
      using cqe_slots_apart [OF p, of i "k + j" h] True that room by (simp add: add.assoc)
    then have "load m' (cqe_addr s (h + of_nat i)) sizeof_cqe = load m (cqe_addr s (h + of_nat i)) sizeof_cqe"
      by (intro complete_all_untouched [OF r c buf safe])
    with True show ?thesis by (simp add: nth_append cqes_at_def)
  next
    case False
    then obtain j where j: "i = k + j" "j < length es" using i by (metis le_iff_add not_less nat_add_left_cancel_less)
    with complete_all_posted [OF r c buf safe _ j(2)] room show ?thesis
      by (simp add: nth_append cqes_at_def add.assoc)
  qed
qed (simp add: cqes_at_def)

text \<open>A transmit followed by a receive of the same length copies host memory through the device.\<close>

lemma tx_rx_copies:
  assumes r: "rings_ok backed s" and c: "complete_all rd wr (cqe_addr s) t [tx, rx] buf m = (cs, buf', m')"
    and buf: "length buf = unat DEV_BUF_SIZE" and op: "ds_op tx = OP_TX" "ds_op rx = OP_RX"
    and len: "ds_len rx = ds_len tx" "n = unat (clamp_len (ds_len tx))"
    and ok: "backed (ds_buf_addr tx) n" "backed (ds_buf_addr rx) n" and safe: "rx_safe s rx"
  shows "load m' (ds_buf_addr rx) n = load m (ds_buf_addr tx) n"
proof (cases "n = 0")
  case False
  have n: "n \<le> unat DEV_BUF_SIZE" by (simp add: len(2) clamp_len_def word_less_nat_alt)
  let ?data = "load m (ds_buf_addr tx) n"
  let ?m1 = "snd (wr m (cqe_addr s t) (DevCqe_bytes (build_cqe tx 0)))"
  let ?m2 = "store ?m1 (ds_buf_addr rx) ?data"
  have d1: "data_dma rd wr tx buf m = (0, ?data @ drop n buf, m)"
    using rd_ok [OF ok(1), of m] op len by (simp add: data_dma_def Let_def)
  have d2: "data_dma rd wr rx (?data @ drop n buf) ?m1 = (0, ?data @ drop n buf, ?m2)"
    using wr_ok [of "ds_buf_addr rx" ?data ?m1] ok(2) op len by (simp add: data_dma_def Let_def OP_TX_def OP_RX_def)
  have m': "m' = snd (wr ?m2 (cqe_addr s (t + 1)) (DevCqe_bytes (build_cqe rx 0)))"
    using c d1 d2 by (simp add: Let_def)
  have "is_pow2 (dv_cq_depth s)" using r by (simp add: rings_ok_def)
  then have "apart (cqe_addr s (t + 1)) sizeof_cqe (ds_buf_addr rx) n"
    using safe False op len by (intro cqe_addr_apart) (simp_all add: rx_safe_def Let_def)
  then have "load m' (ds_buf_addr rx) n = load ?m2 (ds_buf_addr rx) n"
    unfolding m' by (intro wr_local) (simp add: apart_sym)
  also have "\<dots> = ?data" using n by (intro load_store_same) (simp_all add: DEV_BUF_SIZE_def)
  finally show ?thesis .
qed (simp add: load_def)

end

text \<open>Byte-addressed RAM keeps the contract.\<close>

interpretation flat_ram: guest_ram "flat_read backed" "flat_write backed" backed for backed
proof unfold_locales
  fix bs :: block and b a :: u64 and k m
  assume "bs = [] \<or> apart b k a (length bs)"
  then show "load (snd (flat_write backed m a bs)) b k = load m b k"
    by (auto simp: flat_write_def load_store_apart) (simp add: store_def load_def)
qed (simp_all add: flat_read_def flat_write_def)

end
