(* ===== verification/Nic_Registers.thy ===== *)
theory Nic_Registers
  imports Dma_Device
begin

text \<open>
  The driver's half of the interface with the device, from \<^verbatim>\<open>nic.h\<close> and the PCI table of \<^verbatim>\<open>nic.c\<close>: register
  offsets, constants and PCI identifiers. The header repeats the constants of \<^verbatim>\<open>vm/dma_engine.c\<close>; they are
  defined here a second time, from the header, and used by the driver. That the two sides agree is
  part of C24.
\<close>

section \<open>Definitions\<close>

definition NIC_REG_DEVICE_ID :: u64 where "NIC_REG_DEVICE_ID = 0x00"
definition NIC_REG_DEVICE_STATUS :: u64 where "NIC_REG_DEVICE_STATUS = 0x04"
definition NIC_REG_SQ_BASE_LO :: u64 where "NIC_REG_SQ_BASE_LO = 0x08"
definition NIC_REG_SQ_BASE_HI :: u64 where "NIC_REG_SQ_BASE_HI = 0x0C"
definition NIC_REG_CQ_BASE_LO :: u64 where "NIC_REG_CQ_BASE_LO = 0x10"
definition NIC_REG_CQ_BASE_HI :: u64 where "NIC_REG_CQ_BASE_HI = 0x14"
definition NIC_REG_SQ_DEPTH :: u64 where "NIC_REG_SQ_DEPTH = 0x18"
definition NIC_REG_CQ_DEPTH :: u64 where "NIC_REG_CQ_DEPTH = 0x1C"
definition NIC_REG_SQ_DOORBELL :: u64 where "NIC_REG_SQ_DOORBELL = 0x20"
definition NIC_REG_IRQ_STATUS :: u64 where "NIC_REG_IRQ_STATUS = 0x24"
definition NIC_REG_IRQ_ACK :: u64 where "NIC_REG_IRQ_ACK = 0x28"
definition NIC_REG_SQ_HEAD :: u64 where "NIC_REG_SQ_HEAD = 0x2C"
definition NIC_REG_CQ_TAIL :: u64 where "NIC_REG_CQ_TAIL = 0x30"
definition NIC_DEVICE_ID_MAGIC :: u64 where "NIC_DEVICE_ID_MAGIC = 0xDEA10001"
definition NIC_DEV_BUF_SIZE :: u32 where "NIC_DEV_BUF_SIZE = 4096"
definition DMA_ENGINE_VENDOR_ID :: "16 word" where "DMA_ENGINE_VENDOR_ID = 0x1234"
definition DMA_ENGINE_DEVICE_ID :: "16 word" where "DMA_ENGINE_DEVICE_ID = 0xdea1"

text \<open>The table of devices the driver serves, ended by an entry of zeros.\<close>

definition dma_engine_pci_ids :: "(16 word \<times> 16 word) list" where
  "dma_engine_pci_ids = [(DMA_ENGINE_VENDOR_ID, DMA_ENGINE_DEVICE_ID), (0, 0)]"

section \<open>Lemmas\<close>

text \<open>The offsets on both sides are the same; the driver's names are rewritten to the device's.\<close>

lemma nic_regs_agree [simp]:
  "NIC_REG_DEVICE_ID = REG_DEVICE_ID" "NIC_REG_DEVICE_STATUS = REG_DEVICE_STATUS"
  "NIC_REG_SQ_BASE_LO = REG_SQ_BASE_LO" "NIC_REG_SQ_BASE_HI = REG_SQ_BASE_HI"
  "NIC_REG_CQ_BASE_LO = REG_CQ_BASE_LO" "NIC_REG_CQ_BASE_HI = REG_CQ_BASE_HI"
  "NIC_REG_SQ_DEPTH = REG_SQ_DEPTH" "NIC_REG_CQ_DEPTH = REG_CQ_DEPTH"
  "NIC_REG_SQ_DOORBELL = REG_SQ_DOORBELL" "NIC_REG_IRQ_STATUS = REG_IRQ_STATUS"
  "NIC_REG_IRQ_ACK = REG_IRQ_ACK" "NIC_REG_SQ_HEAD = REG_SQ_HEAD" "NIC_REG_CQ_TAIL = REG_CQ_TAIL"
  by (simp_all add: NIC_REG_DEVICE_ID_def NIC_REG_DEVICE_STATUS_def NIC_REG_SQ_BASE_LO_def NIC_REG_SQ_BASE_HI_def
      NIC_REG_CQ_BASE_LO_def NIC_REG_CQ_BASE_HI_def NIC_REG_SQ_DEPTH_def NIC_REG_CQ_DEPTH_def NIC_REG_SQ_DOORBELL_def
      NIC_REG_IRQ_STATUS_def NIC_REG_IRQ_ACK_def NIC_REG_SQ_HEAD_def NIC_REG_CQ_TAIL_def reg_defs)

end
