(* ===== verification/Nic_Driver.thy ===== *)
theory Nic_Driver
  imports Nic_Registers
begin

text \<open>
  The kernel driver of \<^verbatim>\<open>nic.c\<close> and \<^verbatim>\<open>nic.h\<close>: the engine object, the submit, doorbell, drain and
  wait operations, the interrupt handler, and the probe and remove functions.

  The kernel is not part of the repository. Register access is a pair of functions \<open>ior\<close>, \<open>iow\<close>
  on the state \<open>'d\<close> of the device (\<^verbatim>\<open>ioread32\<close>, \<^verbatim>\<open>iowrite32\<close>); \<open>we\<close> is
  \<^verbatim>\<open>wait_event_interruptible_timeout\<close>, during which the world may change; what the allocating
  and mapping functions return is a record of answers. Every call that acquires or releases a
  kernel resource is logged. A CPU pointer to DMA memory is represented by the bus address of the
  byte it points to; \<open>None\<close> as a pointer is \<^verbatim>\<open>NULL\<close>, and \<open>None\<close> as the result of an operation is an
  access through it (a kernel oops).
\<close>

section \<open>Definitions\<close>

subsection \<open>The engine and the world it runs in\<close>

record engine_t =
  eng_sq :: "u64 option"
  eng_sq_dma :: u64
  eng_sq_depth :: u32
  eng_sq_tail :: u32
  eng_cq :: "u64 option"
  eng_cq_dma :: u64
  eng_cq_depth :: u32
  eng_cq_head :: u32
  eng_mmio :: u64

datatype resource =
    R_Engine | R_Sq | R_Cq | R_Iomap | R_Vectors | R_Irq | R_Enable | R_Master | R_Region
  | R_Src | R_Dst | R_Map_Src | R_Map_Dst

datatype log_event = Acquire resource | Release resource | Set_Drvdata bool | Wake_Up

text \<open>The resources held after a log, oldest first.\<close>

fun held :: "resource list \<Rightarrow> log_event list \<Rightarrow> resource list" where
  "held rs [] = rs"
| "held rs (Acquire r # es) = held (rs @ [r]) es"
| "held rs (Release r # es) = held (remove1 r rs) es"
| "held rs (_ # es) = held rs es"

text \<open>A log that never releases what is not held.\<close>

fun releases_ok :: "resource list \<Rightarrow> log_event list \<Rightarrow> bool" where
  "releases_ok rs [] = True"
| "releases_ok rs (Acquire r # es) = releases_ok (rs @ [r]) es"
| "releases_ok rs (Release r # es) = (r \<in> set rs \<and> releases_ok (remove1 r rs) es)"
| "releases_ok rs (_ # es) = releases_ok rs es"

record 'd world =
  w_dev :: 'd
  w_mem :: mem
  w_log :: "log_event list"
  w_drvdata :: "engine_t option"

type_synonym 'd io_read = "'d \<Rightarrow> u64 \<Rightarrow> u32"
type_synonym 'd io_write = "'d \<Rightarrow> u64 \<Rightarrow> u32 \<Rightarrow> 'd"

text \<open>\<^verbatim>\<open>wait_event_interruptible_timeout(wq, condition, timeout)\<close>: its return value and the world then.\<close>

type_synonym 'd wait_event = "('d world \<Rightarrow> bool) \<Rightarrow> int \<Rightarrow> 'd world \<Rightarrow> int \<times> 'd world"

definition log :: "log_event list \<Rightarrow> 'd world \<Rightarrow> 'd world" where
  "log es w = w\<lparr>w_log := w_log w @ es\<rparr>"

definition EAGAIN :: int where "EAGAIN = 11"
definition EIO :: int where "EIO = 5"
definition ETIMEDOUT :: int where "ETIMEDOUT = 110"

subsection \<open>Register helper and interrupt handler\<close>

definition mmio_write64 :: "'d io_write \<Rightarrow> 'd \<Rightarrow> u64 \<Rightarrow> u64 \<Rightarrow> u64 \<Rightarrow> 'd" where
  "mmio_write64 iow d mmio reg_lo val =
     iow (iow d (mmio + reg_lo) (ucast val)) (mmio + reg_lo + 4) (ucast (drop_bit 32 val))"

text \<open>\<open>True\<close> is \<^verbatim>\<open>IRQ_HANDLED\<close>, \<open>False\<close> is \<^verbatim>\<open>IRQ_NONE\<close>.\<close>

definition dma_engine_irq :: "'d io_read \<Rightarrow> 'd io_write \<Rightarrow> engine_t \<Rightarrow> 'd world \<Rightarrow> bool \<times> 'd world" where
  "dma_engine_irq ior iow eng w =
     (let st = ior (w_dev w) (eng_mmio eng + NIC_REG_IRQ_STATUS) in
      if st \<noteq> 0 then (True, log [Wake_Up] (w\<lparr>w_dev := iow (w_dev w) (eng_mmio eng + NIC_REG_IRQ_ACK) st\<rparr>))
      else (False, w))"

subsection \<open>Creating and destroying the engine\<close>

text \<open>
  What the kernel answers during one probe: whether \<^verbatim>\<open>pci_enable_device\<close> and \<^verbatim>\<open>kzalloc\<close> succeed, the CPU and
  bus address of each coherent allocation, the mapped register window, whether \<^verbatim>\<open>pci_alloc_irq_vectors\<close>,
  \<^verbatim>\<open>request_irq\<close> and \<^verbatim>\<open>pci_request_region\<close> succeed, the two buffers and the bus addresses they are mapped at, if
  they are. The driver looks at none of the return values; a call that fails acquires nothing.
\<close>

record answers =
  a_enable :: bool
  a_kzalloc :: bool
  a_sq :: "(u64 \<times> u64) option"
  a_cq :: "(u64 \<times> u64) option"
  a_iomap :: "u64 option"
  a_vectors :: bool
  a_irq :: bool
  a_region :: bool
  a_src :: "u64 option"
  a_dst :: "u64 option"
  a_map_src :: "u64 option"
  a_map_dst :: "u64 option"

definition acquire :: "bool \<Rightarrow> resource \<Rightarrow> log_event list" where
  "acquire ok r = (if ok then [Acquire r] else [])"

definition engine_create ::
  "'d io_write \<Rightarrow> answers \<Rightarrow> u32 \<Rightarrow> u32 \<Rightarrow> 'd world \<Rightarrow> (engine_t \<times> 'd world) option" where
  "engine_create iow a sq_depth cq_depth w =
     (if \<not> a_kzalloc a then None
      else
        let eng = \<lparr> eng_sq = map_option fst (a_sq a),
                    eng_sq_dma = (case a_sq a of None \<Rightarrow> 0 | Some (_, dma) \<Rightarrow> dma),
                    eng_sq_depth = sq_depth, eng_sq_tail = 0,
                    eng_cq = map_option fst (a_cq a),
                    eng_cq_dma = (case a_cq a of None \<Rightarrow> 0 | Some (_, dma) \<Rightarrow> dma),
                    eng_cq_depth = cq_depth, eng_cq_head = 0, eng_mmio = 0 \<rparr>;
            w = log ([Acquire R_Engine] @ acquire (a_sq a \<noteq> None) R_Sq @ acquire (a_cq a \<noteq> None) R_Cq) w
        in case a_iomap a of
             None \<Rightarrow> None
           | Some bar \<Rightarrow>
               let w = log [Acquire R_Iomap] w;
                   d = mmio_write64 iow (w_dev w) bar NIC_REG_SQ_BASE_LO (eng_sq_dma eng);
                   d = mmio_write64 iow d bar NIC_REG_CQ_BASE_LO (eng_cq_dma eng);
                   eng = eng\<lparr>eng_mmio := bar\<rparr>;
                   d = iow d (eng_mmio eng + NIC_REG_SQ_DEPTH) sq_depth;
                   d = iow d (eng_mmio eng + NIC_REG_CQ_DEPTH) cq_depth
               in Some (eng, log (acquire (a_vectors a) R_Vectors @ acquire (a_irq a) R_Irq) (w\<lparr>w_dev := d\<rparr>)))"

definition engine_destroy :: "engine_t option \<Rightarrow> 'd world \<Rightarrow> 'd world" where
  "engine_destroy eng w =
     (case eng of
        None \<Rightarrow> w
      | Some e \<Rightarrow> log [Release R_Irq, Release R_Vectors, Release R_Sq, Release R_Cq, Release R_Master,
                       Release R_Iomap, Release R_Region, Release R_Enable, Release R_Engine] w)"

subsection \<open>Submission and completion\<close>

definition engine_submit ::
  "'d io_read \<Rightarrow> engine_t \<Rightarrow> sqe_t \<Rightarrow> 'd world \<Rightarrow> (int \<times> engine_t \<times> 'd world) option" where
  "engine_submit ior eng sqe w =
     (let head = ior (w_dev w) (eng_mmio eng + NIC_REG_SQ_HEAD);
          tail = eng_sq_tail eng
      in if tail - head \<ge> eng_sq_depth eng then Some (- EAGAIN, eng, w)
         else case eng_sq eng of
                None \<Rightarrow> None
              | Some sq \<Rightarrow>
                  let i = tail AND (eng_sq_depth eng - 1);
                      m = store (w_mem w) (sq + ucast i * of_nat sizeof_sqe) (sqe_bytes sqe)
                  in Some (0, eng\<lparr>eng_sq_tail := eng_sq_tail eng + 1\<rparr>, w\<lparr>w_mem := m\<rparr>))"

definition engine_doorbell :: "'d io_write \<Rightarrow> engine_t \<Rightarrow> 'd world \<Rightarrow> 'd world" where
  "engine_doorbell iow eng w =
     w\<lparr>w_dev := iow (w_dev w) (eng_mmio eng + NIC_REG_SQ_DOORBELL) (eng_sq_tail eng)\<rparr>"

definition read_cqe :: "u64 \<Rightarrow> u32 \<Rightarrow> mem \<Rightarrow> u32 \<Rightarrow> cqe_t" where
  "read_cqe cq depth m i = cqe_of_bytes (load m (cq + ucast (i AND (depth - 1)) * of_nat sizeof_cqe) sizeof_cqe)"

text \<open>The copy loop: \<open>k\<close> entries from index \<open>i\<close> on.\<close>

fun drain_loop :: "u64 \<Rightarrow> u32 \<Rightarrow> mem \<Rightarrow> u32 \<Rightarrow> nat \<Rightarrow> cqe_t list" where
  "drain_loop cq depth m i 0 = []"
| "drain_loop cq depth m i (Suc k) = read_cqe cq depth m i # drain_loop cq depth m (i + 1) k"

definition engine_drain ::
  "'d io_read \<Rightarrow> engine_t \<Rightarrow> size_t \<Rightarrow> 'd world \<Rightarrow> (size_t \<times> cqe_t list \<times> engine_t) option" where
  "engine_drain ior eng mx w =
     (let cq_head = eng_cq_head eng;
          cq_tail = ior (w_dev w) (eng_mmio eng + NIC_REG_CQ_TAIL);
          n = min (cq_tail - cq_head) (ucast mx)
      in if n = 0 then Some (0, [], eng)
         else case eng_cq eng of
                None \<Rightarrow> None
              | Some cq \<Rightarrow> Some (ucast n, drain_loop cq (eng_cq_depth eng) (w_mem w) cq_head (unat n),
                                 eng\<lparr>eng_cq_head := cq_head + n\<rparr>))"

definition engine_wait ::
  "'d io_read \<Rightarrow> 'd wait_event \<Rightarrow> engine_t \<Rightarrow> int \<Rightarrow> 'd world \<Rightarrow> int \<times> 'd world" where
  "engine_wait ior we eng timeout w =
     (let (ret, w) = we (\<lambda>w. ior (w_dev w) (eng_mmio eng + NIC_REG_CQ_TAIL) \<noteq> eng_cq_head eng) timeout w
      in (if ret > 0 then 0 else - ETIMEDOUT, w))"

subsection \<open>Probe and remove\<close>

text \<open>One round of the smoke test: submit, doorbell, wait, drain one completion and check it.\<close>

definition smoke_round ::
  "'d io_read \<Rightarrow> 'd io_write \<Rightarrow> 'd wait_event \<Rightarrow> int \<Rightarrow> engine_t \<Rightarrow> sqe_t \<Rightarrow> 'd world \<Rightarrow>
     (bool \<times> engine_t \<times> 'd world) option" where
  "smoke_round ior iow we timeout eng sqe w = do {
     (_, eng, w) \<leftarrow> engine_submit ior eng sqe w;
     let w = engine_doorbell iow eng w;
     let (rc, w) = engine_wait ior we eng timeout w;
     if rc \<noteq> 0 then Some (False, eng, w)
     else do {
       (n, out, eng) \<leftarrow> engine_drain ior eng 1 w;
       Some (n = 1 \<and> status (hd out) = 0, eng, w)
     }
   }"

text \<open>\<^verbatim>\<open>"hello DMA engine!"\<close> with its terminating zero: 18 bytes.\<close>

definition hello :: block where
  "hello = map (\<lambda>c. of_char c) ''hello DMA engine!'' @ [0]"

definition tx_sqe :: "u64 \<Rightarrow> sqe_t" where
  "tx_sqe a = \<lparr> cookie = 0xCAFE, buf_addr = a, len_t = 18, op = DMA_OP_TX \<rparr>"

definition rx_sqe :: "u64 \<Rightarrow> sqe_t" where
  "rx_sqe a = \<lparr> cookie = 0xBEEF, buf_addr = a, len_t = 18, op = DMA_OP_RX \<rparr>"

text \<open>
  The error exit: unmap what is still mapped (the address variables are zeroed on unmapping), then
  free the buffers and the engine.
\<close>

definition err_unmap :: "u64 \<Rightarrow> u64 \<Rightarrow> log_event list" where
  "err_unmap src_dma dst_dma =
     (if src_dma \<noteq> 0 then [Release R_Map_Src] else []) @ (if dst_dma \<noteq> 0 then [Release R_Map_Dst] else [])"

definition err_free :: "engine_t \<Rightarrow> 'd world \<Rightarrow> int \<times> 'd world" where
  "err_free eng w =
     (let w = engine_destroy (Some eng) (log [Release R_Src, Release R_Dst] w)
      in (- EIO, log [Set_Drvdata False] (w\<lparr>w_drvdata := None\<rparr>)))"

text \<open>What \<^verbatim>\<open>dma_map_single\<close> returns: a bus address, or \<^verbatim>\<open>DMA_MAPPING_ERROR\<close>, which the driver does not test for.\<close>

definition DMA_MAPPING_ERROR :: u64 where "DMA_MAPPING_ERROR = - 1"

definition dma_map_single :: "u64 option \<Rightarrow> u64" where
  "dma_map_single answer = (case answer of None \<Rightarrow> DMA_MAPPING_ERROR | Some dma \<Rightarrow> dma)"

definition probe_setup ::
  "'d io_write \<Rightarrow> answers \<Rightarrow> 'd world \<Rightarrow> (engine_t \<times> u64 \<times> u64 \<times> 'd world) option" where
  "probe_setup iow a w = do {
     let w = log (acquire (a_enable a) R_Enable @ [Acquire R_Master]) w;
     (eng, w) \<leftarrow> engine_create iow a 16 16 w;
     let w = log ([Set_Drvdata True] @ acquire (a_region a) R_Region) (w\<lparr>w_drvdata := Some eng\<rparr>);
     src \<leftarrow> a_src a;
     dst \<leftarrow> a_dst a;
     let m = store (store (w_mem w) src hello) dst (replicate 64 0);
     Some (eng, src, dst, log ([Acquire R_Src, Acquire R_Dst] @ acquire (a_map_src a \<noteq> None) R_Map_Src @
       acquire (a_map_dst a \<noteq> None) R_Map_Dst) (w\<lparr>w_mem := m\<rparr>))
   }"

definition dma_engine_probe ::
  "'d io_read \<Rightarrow> 'd io_write \<Rightarrow> 'd wait_event \<Rightarrow> int \<Rightarrow> answers \<Rightarrow> 'd world \<Rightarrow> (int \<times> 'd world) option" where
  "dma_engine_probe ior iow we hz a w = do {
     (eng, src, dst, w) \<leftarrow> probe_setup iow a w;
     let src_dma_addr = dma_map_single (a_map_src a);
     let dst_dma_addr = dma_map_single (a_map_dst a);
     (ok, eng, w) \<leftarrow> smoke_round ior iow we (2 * hz) eng (tx_sqe src_dma_addr) w;
     if \<not> ok then Some (err_free eng (log (err_unmap src_dma_addr dst_dma_addr) w))
     else do {
       let w = log [Release R_Map_Src] w;
       (ok, eng, w) \<leftarrow> smoke_round ior iow we (2 * hz) eng (rx_sqe dst_dma_addr) w;
       if \<not> ok then Some (err_free eng (log (err_unmap 0 dst_dma_addr) w))
       else
         let w = log [Release R_Map_Dst] w in
         if load (w_mem w) src 18 \<noteq> load (w_mem w) dst 18 then Some (err_free eng w)
         else Some (0, log [Release R_Src, Release R_Dst] (w\<lparr>w_drvdata := Some eng\<rparr>))
     }
   }"

definition dma_engine_remove :: "'d world \<Rightarrow> 'd world" where
  "dma_engine_remove w = engine_destroy (w_drvdata w) w"

subsection \<open>The module\<close>

text \<open>
  What the module registers with the PCI core: the table of devices and the two entry points. The core
  itself (\<^verbatim>\<open>pci_register_driver\<close>, \<^verbatim>\<open>pci_unregister_driver\<close>, acting on a state \<open>'k\<close> of the kernel) is an argument.
\<close>

record 'd pci_driver =
  drv_name :: string
  drv_id_table :: "(16 word \<times> 16 word) list"
  drv_probe :: "answers \<Rightarrow> 'd world \<Rightarrow> (int \<times> 'd world) option"
  drv_remove :: "'d world \<Rightarrow> 'd world"

definition dma_engine_pci_driver :: "'d io_read \<Rightarrow> 'd io_write \<Rightarrow> 'd wait_event \<Rightarrow> int \<Rightarrow> 'd pci_driver" where
  "dma_engine_pci_driver ior iow we hz =
     \<lparr>drv_name = ''dma_engine'', drv_id_table = dma_engine_pci_ids,
      drv_probe = dma_engine_probe ior iow we hz, drv_remove = dma_engine_remove\<rparr>"

definition nic_init :: "('d pci_driver \<Rightarrow> 'k \<Rightarrow> int \<times> 'k) \<Rightarrow> 'd pci_driver \<Rightarrow> 'k \<Rightarrow> int \<times> 'k" where
  "nic_init pci_register_driver drv k = pci_register_driver drv k"

definition nic_exit :: "('d pci_driver \<Rightarrow> 'k \<Rightarrow> 'k) \<Rightarrow> 'd pci_driver \<Rightarrow> 'k \<Rightarrow> 'k" where
  "nic_exit pci_unregister_driver drv k = pci_unregister_driver drv k"

end
