(* ===== verification/Dma_System.thy ===== *)
theory Dma_System
  imports Dma_Process Nic_Driver
begin

text \<open>
  Driver and device together. \<open>bus_read\<close> and \<open>bus_write\<close> are the register accesses of the driver
  (\<^verbatim>\<open>ioread32\<close>, \<^verbatim>\<open>iowrite32\<close> on the mapped BAR 0) dispatched to the device's
  \<^verbatim>\<open>dma_engine_mmio_ops\<close>; guest memory is shared. The system is a step relation: the driver's
  operations, the expiry of the device's timer and the interrupt handler interleave freely.
\<close>

section \<open>Definitions\<close>

type_synonym sysw = "DmaEngineState world"

definition bus_read :: "u64 \<Rightarrow> DmaEngineState io_read" where
  "bus_read bar d a = ucast (dma_engine_mmio_read d (a - bar))"

definition bus_write :: "u64 \<Rightarrow> bool \<Rightarrow> int \<Rightarrow> DmaEngineState io_write" where
  "bus_write bar msi now d a v = dma_engine_mmio_write msi now d (a - bar) (ucast v)"

text \<open>The device's timer expires.\<close>

definition timer_step :: "bool \<Rightarrow> dma_rd \<Rightarrow> dma_wr \<Rightarrow> sysw \<Rightarrow> sysw" where
  "timer_step msi rd wr w =
     (let (d, m) = timer_expires msi rd wr (w_dev w) (w_mem w) in w\<lparr>w_dev := d, w_mem := m\<rparr>)"

text \<open>The timer expires and the interrupt it raises is handled.\<close>

definition device_turn :: "bool \<Rightarrow> int \<Rightarrow> dma_rd \<Rightarrow> dma_wr \<Rightarrow> engine_t \<Rightarrow> sysw \<Rightarrow> sysw" where
  "device_turn msi now rd wr eng w =
     snd (dma_engine_irq (bus_read (eng_mmio eng)) (bus_write (eng_mmio eng) msi now) eng (timer_step msi rd wr w))"

text \<open>The engine object and the device agree on the rings.\<close>

definition linked :: "engine_t \<Rightarrow> DmaEngineState \<Rightarrow> bool" where
  "linked eng d \<longleftrightarrow>
     eng_sq eng = Some (dv_sq_base d) \<and> eng_cq eng = Some (dv_cq_base d) \<and>
     eng_sq_depth eng = dv_sq_depth d \<and> eng_cq_depth eng = dv_cq_depth d"

text \<open>The entries the driver has written and the device has not consumed.\<close>

definition submitted :: "engine_t \<Rightarrow> sysw \<Rightarrow> DevSqe list" where
  "submitted eng w =
     map (\<lambda>i. DevSqe_of_bytes (load (w_mem w) (sqe_addr (w_dev w) (dv_sq_head (w_dev w) + of_nat i)) sizeof_sqe))
       [0..<unat (eng_sq_tail eng - dv_sq_head (w_dev w))]"

text \<open>The completions the device has posted and the driver has not drained.\<close>

definition completed :: "engine_t \<Rightarrow> sysw \<Rightarrow> cqe_t list" where
  "completed eng w =
     cqes_at (w_dev w) (w_mem w) (eng_cq_head eng) (unat (dv_cq_tail (w_dev w) - eng_cq_head eng))"

definition sys_inv :: "engine_t \<Rightarrow> sysw \<Rightarrow> bool" where
  "sys_inv eng w \<longleftrightarrow>
     linked eng (w_dev w) \<and> dev_inv (w_dev w) \<and>
     is_pow2 (dv_sq_depth (w_dev w)) \<and> is_pow2 (dv_cq_depth (w_dev w)) \<and>
     unat (dv_sq_tail (w_dev w) - dv_sq_head (w_dev w)) \<le> unat (eng_sq_tail eng - dv_sq_head (w_dev w)) \<and>
     unat (eng_sq_tail eng - dv_sq_head (w_dev w)) \<le> unat (dv_sq_depth (w_dev w))"

text \<open>One action of the system.\<close>

inductive sys_step :: "dma_rd \<Rightarrow> dma_wr \<Rightarrow> engine_t \<times> sysw \<Rightarrow> engine_t \<times> sysw \<Rightarrow> bool" for rd wr where
  submit: "engine_submit (bus_read (eng_mmio eng)) eng sqe w = Some (rc, eng', w') \<Longrightarrow>
    sys_step rd wr (eng, w) (eng', w')"
| doorbell: "sys_step rd wr (eng, w) (eng, engine_doorbell (bus_write (eng_mmio eng) msi now) eng w)"
| drain: "engine_drain (bus_read (eng_mmio eng)) eng mx w = Some (n, out, eng') \<Longrightarrow>
    sys_step rd wr (eng, w) (eng', w)"
| timer: "sys_step rd wr (eng, w) (eng, timer_step msi rd wr w)"
| irq: "dma_engine_irq (bus_read (eng_mmio eng)) (bus_write (eng_mmio eng) msi now) eng w = (handled, w') \<Longrightarrow>
    sys_step rd wr (eng, w) (eng, w')"

inductive sys_reachable :: "dma_rd \<Rightarrow> dma_wr \<Rightarrow> engine_t \<times> sysw \<Rightarrow> engine_t \<times> sysw \<Rightarrow> bool" for rd wr c where
  here: "sys_reachable rd wr c c"
| further: "sys_reachable rd wr c c' \<Longrightarrow> sys_step rd wr c' c'' \<Longrightarrow> sys_reachable rd wr c c''"

text \<open>Submitting a list of entries, stopping at the first \<^verbatim>\<open>-EAGAIN\<close>.\<close>

fun submit_all :: "engine_t \<Rightarrow> sqe_t list \<Rightarrow> sysw \<Rightarrow> (int \<times> engine_t \<times> sysw) option" where
  "submit_all eng [] w = Some (0, eng, w)"
| "submit_all eng (e # es) w =
     (case engine_submit (bus_read (eng_mmio eng)) eng e w of
        None \<Rightarrow> None
      | Some (rc, eng', w') \<Rightarrow> if rc \<noteq> 0 then Some (rc, eng', w') else submit_all eng' es w')"

section \<open>Register accesses\<close>

lemma ucast_u64_u32 [simp]: "ucast (ucast (x::u32) :: u64) = x"
  by (rule bit_word_eqI) (simp add: bit_simps)

lemma bus_reads [simp]:
  "bus_read bar d (bar + REG_SQ_HEAD) = dv_sq_head d"
  "bus_read bar d (bar + REG_CQ_TAIL) = dv_cq_tail d"
  "bus_read bar d (bar + REG_IRQ_STATUS) = dv_irq_status d"
  by (simp_all add: bus_read_def dma_engine_mmio_read_def reg_defs)

lemma bus_writes [simp]:
  "bus_write bar msi now d (bar + REG_SQ_DOORBELL) v = d\<lparr>dv_sq_tail := v, dv_dma_timer := T_Armed (now + 1000000)\<rparr>"
  "bus_write bar msi now d (bar + REG_IRQ_ACK) v = dma_engine_lower_irq msi d"
  "bus_write bar msi now d (bar + REG_SQ_DEPTH) v = d\<lparr>dv_sq_depth := v\<rparr>"
  "bus_write bar msi now d (bar + REG_CQ_DEPTH) v = d\<lparr>dv_cq_depth := v\<rparr>"
  by (simp_all add: bus_write_def dma_engine_mmio_write_def reg_defs)

lemma reg_masks: "(0xFFFFFFFF :: u64) = mask 32" "(0xFFFFFFFF00000000 :: u64) = push_bit 32 (mask 32)"
  by (simp_all add: mask_eq_exp_minus_1 push_bit_eq_mult)

text \<open>The two halves written by the driver are the whole address, whatever the register held.\<close>

lemma write_halves:
  "write_hi (write_lo b (ucast (ucast v :: u32))) (ucast (ucast (drop_bit 32 v) :: u32)) = v"
  by (rule bit_word_eqI) (auto simp: write_hi_def write_lo_def reg_masks bit_simps)

lemma mmio_write64_bases:
  "mmio_write64 (bus_write bar msi now) d bar REG_SQ_BASE_LO v = d\<lparr>dv_sq_base := v\<rparr>"
  "mmio_write64 (bus_write bar msi now) d bar REG_CQ_BASE_LO v = d\<lparr>dv_cq_base := v\<rparr>"
  using write_halves
  by (simp_all add: mmio_write64_def bus_write_def dma_engine_mmio_write_def reg_defs add.assoc)

lemma create_programs:
  assumes "a_kzalloc a" "a_sq a = Some (sq, sq)" "a_cq a = Some (cq, cq)" "a_iomap a = Some bar"
  shows "engine_create (bus_write bar msi now) a sqd cqd w =
    Some (\<lparr> eng_sq = Some sq, eng_sq_dma = sq, eng_sq_depth = sqd, eng_sq_tail = 0, eng_cq = Some cq,
            eng_cq_dma = cq, eng_cq_depth = cqd, eng_cq_head = 0, eng_mmio = bar \<rparr>,
          w\<lparr>w_dev := (w_dev w)\<lparr>dv_sq_base := sq, dv_cq_base := cq, dv_sq_depth := sqd, dv_cq_depth := cqd\<rparr>,
            w_log := w_log w @ [Acquire R_Engine, Acquire R_Sq, Acquire R_Cq, Acquire R_Iomap] @
              acquire (a_vectors a) R_Vectors @ acquire (a_irq a) R_Irq\<rparr>)"
  using assms by (simp add: engine_create_def mmio_write64_bases Let_def log_def acquire_def)

section \<open>Submitting\<close>

lemma irq_frame [simp]:
  "dv_sq_base (dma_engine_raise_irq msi d) = dv_sq_base d" "dv_cq_base (dma_engine_raise_irq msi d) = dv_cq_base d"
  "dv_sq_depth (dma_engine_raise_irq msi d) = dv_sq_depth d" "dv_cq_depth (dma_engine_raise_irq msi d) = dv_cq_depth d"
  "dv_sq_head (dma_engine_raise_irq msi d) = dv_sq_head d" "dv_sq_tail (dma_engine_raise_irq msi d) = dv_sq_tail d"
  "dv_cq_tail (dma_engine_raise_irq msi d) = dv_cq_tail d" "dv_dev_buf (dma_engine_raise_irq msi d) = dv_dev_buf d"
  "dv_dma_timer (dma_engine_raise_irq msi d) = dv_dma_timer d"
  "dv_sq_base (dma_engine_lower_irq msi d) = dv_sq_base d" "dv_cq_base (dma_engine_lower_irq msi d) = dv_cq_base d"
  "dv_sq_depth (dma_engine_lower_irq msi d) = dv_sq_depth d" "dv_cq_depth (dma_engine_lower_irq msi d) = dv_cq_depth d"
  "dv_sq_head (dma_engine_lower_irq msi d) = dv_sq_head d" "dv_sq_tail (dma_engine_lower_irq msi d) = dv_sq_tail d"
  "dv_cq_tail (dma_engine_lower_irq msi d) = dv_cq_tail d" "dv_dev_buf (dma_engine_lower_irq msi d) = dv_dev_buf d"
  "dv_dma_timer (dma_engine_lower_irq msi d) = dv_dma_timer d"
  by (simp_all add: dma_engine_raise_irq_def dma_engine_lower_irq_def dev_event_def Let_def)

lemma raise_irq_nonzero: "dv_irq_status (dma_engine_raise_irq msi d) \<noteq> 0"
proof -
  have "bit (dv_irq_status d OR IRQ_CQ_READY) 0" by (simp add: bit_simps IRQ_CQ_READY_def)
  moreover have "x \<noteq> 0" if "bit x 0" for x :: u32 using that by auto
  ultimately have "dv_irq_status d OR IRQ_CQ_READY \<noteq> 0" by blast
  then show ?thesis by (simp add: dma_engine_raise_irq_def dev_event_def Let_def)
qed

lemma submit_appends:
  assumes inv: "sys_inv eng w" and room: "length (submitted eng w) < unat (eng_sq_depth eng)"
  shows "\<exists>w'. engine_submit (bus_read (eng_mmio eng)) eng sqe w = Some (0, eng\<lparr>eng_sq_tail := eng_sq_tail eng + 1\<rparr>, w') \<and>
    w' = w\<lparr>w_mem := store (w_mem w) (sqe_addr (w_dev w) (eng_sq_tail eng)) (sqe_bytes sqe)\<rparr> \<and>
    sys_inv (eng\<lparr>eng_sq_tail := eng_sq_tail eng + 1\<rparr>) w' \<and>
    submitted (eng\<lparr>eng_sq_tail := eng_sq_tail eng + 1\<rparr>) w' = submitted eng w @ [dev_view sqe]"
proof -
  let ?d = "w_dev w" and ?h = "dv_sq_head (w_dev w)" and ?t = "eng_sq_tail eng"
  let ?w' = "w\<lparr>w_mem := store (w_mem w) (sqe_addr ?d ?t) (sqe_bytes sqe)\<rparr>"
  define n where "n = unat (?t - ?h)"
  have p: "is_pow2 (dv_sq_depth ?d)" and depth: "eng_sq_depth eng = dv_sq_depth ?d"
    and sq: "eng_sq eng = Some (dv_sq_base ?d)" using inv by (simp_all add: sys_inv_def linked_def)
  have n: "n < unat (dv_sq_depth ?d)" using room depth by (simp add: submitted_def n_def)
  have "n + 1 < 2 ^ LENGTH(32)" using n is_pow2_le_half [OF p] by simp
  then have n': "unat (?t + 1 - ?h) = n + 1" using unat_dist_Suc [of ?t ?h] by (simp add: n_def)
  have t: "?h + of_nat n = ?t" by (simp add: n_def)
  have "engine_submit (bus_read (eng_mmio eng)) eng sqe w = Some (0, eng\<lparr>eng_sq_tail := ?t + 1\<rparr>, ?w')"
    using n depth sq by (simp add: engine_submit_def Let_def sqe_addr_def n_def word_le_nat_alt)
  moreover have "sys_inv (eng\<lparr>eng_sq_tail := ?t + 1\<rparr>) ?w'"
    using inv n n' by (simp add: sys_inv_def linked_def n_def)
  moreover have "submitted (eng\<lparr>eng_sq_tail := ?t + 1\<rparr>) ?w' = submitted eng w @ [dev_view sqe]"
  proof -
    have "load (w_mem ?w') (sqe_addr ?d (?h + of_nat i)) sizeof_sqe = load (w_mem w) (sqe_addr ?d (?h + of_nat i)) sizeof_sqe"
      if "i < n" for i
      using sqe_slots_apart [OF p, of i n ?h] that n t by (simp add: load_store_apart)
    moreover have "load (w_mem ?w') (sqe_addr ?d ?t) sizeof_sqe = sqe_bytes sqe"
      by (simp add: load_store_same sizeof_sqe_def)
    ultimately show ?thesis
      using n' t by (simp add: submitted_def n_def)
  qed
  ultimately show ?thesis by blast
qed

lemma submit_full:
  assumes "sys_inv eng w" "unat (eng_sq_depth eng) \<le> length (submitted eng w)"
  shows "engine_submit (bus_read (eng_mmio eng)) eng sqe w = Some (- EAGAIN, eng, w)"
  using assms by (simp add: engine_submit_def Let_def submitted_def word_le_nat_alt)

lemma submit_all_appends:
  "sys_inv eng w \<Longrightarrow> length (submitted eng w) + length es \<le> unat (eng_sq_depth eng) \<Longrightarrow>
   \<exists>w'. submit_all eng es w = Some (0, eng\<lparr>eng_sq_tail := eng_sq_tail eng + of_nat (length es)\<rparr>, w') \<and>
     sys_inv (eng\<lparr>eng_sq_tail := eng_sq_tail eng + of_nat (length es)\<rparr>) w' \<and> w_dev w' = w_dev w \<and>
     submitted (eng\<lparr>eng_sq_tail := eng_sq_tail eng + of_nat (length es)\<rparr>) w' = submitted eng w @ map dev_view es"
proof (induction es arbitrary: eng w)
  case (Cons e es)
  let ?e1 = "eng\<lparr>eng_sq_tail := eng_sq_tail eng + 1\<rparr>"
  obtain w1 where s: "engine_submit (bus_read (eng_mmio eng)) eng e w = Some (0, ?e1, w1)" "sys_inv ?e1 w1"
    "submitted ?e1 w1 = submitted eng w @ [dev_view e]" "w_dev w1 = w_dev w"
    using submit_appends [OF Cons.prems(1), of e] Cons.prems(2) by auto
  with Cons.IH [OF s(2)] Cons.prems(2) show ?case by (simp add: add.assoc)
qed simp

lemma doorbell_pending:
  assumes "linked eng (w_dev w)"
  shows "pending (w_dev (engine_doorbell (bus_write (eng_mmio eng) msi now) eng w)) (w_mem w) = submitted eng w"
  by (simp add: engine_doorbell_def pending_def submitted_def sqe_addr_def)

section \<open>Draining\<close>

lemma drain_loop_map: "drain_loop cq depth m i k = map (\<lambda>j. read_cqe cq depth m (i + of_nat j)) [0..<k]"
  by (induction k arbitrary: i)
    (simp_all add: upt_conv_Cons map_Suc_upt [symmetric] add.assoc del: upt_Suc)

lemma drain_takes:
  fixes mx :: size_t
  assumes "linked eng (w_dev w)"
  defines "n \<equiv> min (length (completed eng w)) (unat (ucast mx :: u32))"
  shows "\<exists>eng'. engine_drain (bus_read (eng_mmio eng)) eng mx w = Some (of_nat n, take n (completed eng w), eng') \<and>
    eng' = eng\<lparr>eng_cq_head := eng_cq_head eng + of_nat n\<rparr> \<and> completed eng' w = drop n (completed eng w)"
proof -
  let ?h = "eng_cq_head eng" and ?t = "dv_cq_tail (w_dev w)"
  let ?n = "min (?t - ?h) (ucast mx)"
  have n: "unat ?n = n" by (simp add: n_def completed_def cqes_at_def min_def word_le_nat_alt)
  then have nn: "?n = of_nat n" "(ucast ?n :: size_t) = of_nat n" by (simp_all flip: n)
  have le: "n \<le> unat (?t - ?h)" by (simp add: n_def completed_def cqes_at_def)
  have cq: "eng_cq eng = Some (dv_cq_base (w_dev w))" "eng_cq_depth eng = dv_cq_depth (w_dev w)"
    using assms(1) by (simp_all add: linked_def)
  have dl: "drain_loop (dv_cq_base (w_dev w)) (dv_cq_depth (w_dev w)) (w_mem w) ?h n = take n (completed eng w)"
    using le by (auto simp: drain_loop_map read_cqe_def completed_def cqes_at_def cqe_addr_def intro!: nth_equalityI)
  have "unat (?t - (?h + of_nat n)) = unat (?t - ?h) - n"
    using unat_dist_sub [of "of_nat n" ?t ?h] le unat_of_nat_le [OF le] by simp
  then have "completed (eng\<lparr>eng_cq_head := ?h + of_nat n\<rparr>) w = drop n (completed eng w)"
    using le by (auto simp: completed_def cqes_at_def add.assoc intro!: nth_equalityI)
  moreover have "engine_drain (bus_read (eng_mmio eng)) eng mx w =
      Some (of_nat n, take n (completed eng w), eng\<lparr>eng_cq_head := ?h + of_nat n\<rparr>)"
  proof (cases "n = 0")
    case True
    then have "?n = 0" using n by (simp add: unat_eq_0)
    with True show ?thesis by (simp add: engine_drain_def Let_def)
  next
    case False
    then have "?n \<noteq> 0" using n by auto
    with n nn dl cq show ?thesis by (simp add: engine_drain_def Let_def)
  qed
  ultimately show ?thesis by blast
qed

section \<open>Every action keeps the invariant\<close>

context guest_ram
begin

lemma process_one_dev_inv:
  assumes "dev_inv s" "process_one rd wr s m = (s', m')"
  shows "dev_inv s'"
proof -
  obtain e st b m1 where d: "data_dma rd wr e (dv_dev_buf s) m = (st, b, m1)"
    and s': "s' = s\<lparr>dv_dev_buf := b, dv_sq_head := dv_sq_head s + 1, dv_cq_tail := dv_cq_tail s + 1\<rparr>"
    using assms(2) by (auto simp: process_one_def Let_def split: prod.splits)
  show ?thesis using data_dma_result(2) [OF d] assms(1) by (simp add: dev_inv_def s')
qed

lemma process_loop_frame:
  assumes "dev_inv s" "dv_cq_depth s \<noteq> 0" "process_loop rd wr s m w = (s', m', w')"
  shows "dev_inv s' \<and> dv_sq_head s' = dv_sq_tail s \<and> dv_sq_tail s' = dv_sq_tail s \<and>
    dv_sq_depth s' = dv_sq_depth s \<and> dv_cq_depth s' = dv_cq_depth s \<and>
    dv_sq_base s' = dv_sq_base s \<and> dv_cq_base s' = dv_cq_base s \<and>
    (w' \<longleftrightarrow> w \<or> dv_sq_head s \<noteq> dv_sq_tail s)"
  using assms
proof (induction "unat (dv_sq_tail s - dv_sq_head s)" arbitrary: s m w)
  case 0
  then have "dv_sq_tail s = dv_sq_head s" by (simp add: unat_eq_0)
  with 0 show ?case by (auto simp: process_loop.simps [of _ _ s])
next
  case (Suc n)
  have ne: "dv_sq_head s \<noteq> dv_sq_tail s" using Suc.hyps(2) by auto
  obtain s1 m1 where p: "process_one rd wr s m = (s1, m1)" by (cases "process_one rd wr s m")
  note ix = process_one_indices [OF p]
  have n1: "n = unat (dv_sq_tail s1 - dv_sq_head s1)"
    using Suc.hyps(2) unat_dist_sub [of 1 "dv_sq_tail s" "dv_sq_head s"] by (simp add: ix)
  have "\<not> dv_cq_tail s - dv_sq_head s \<ge> dv_cq_depth s" using Suc.prems(1,2) by (simp add: dev_inv_def)
  then have l: "process_loop rd wr s1 m1 True = (s', m', w')"
    using Suc.prems(3) ne p by (simp add: process_loop.simps [of _ _ s])
  show ?case
    using Suc.hyps(1) [OF n1 process_one_dev_inv [OF Suc.prems(1) p] _ l] Suc.prems(2) ne by (simp add: ix)
qed

lemma timer_step_inv:
  assumes "sys_inv eng w"
  shows "sys_inv eng (timer_step msi rd wr w)"
proof (cases "dv_dma_timer (w_dev w)")
  case (T_Armed x)
  let ?d = "(w_dev w)\<lparr>dv_dma_timer := T_Idle\<rparr>"
  obtain d m did where l: "process_loop rd wr ?d (w_mem w) False = (d, m, did)"
    by (cases "process_loop rd wr ?d (w_mem w) False") auto
  have "dev_inv ?d" "dv_cq_depth ?d \<noteq> 0" using assms by (auto simp: sys_inv_def dev_inv_def is_pow2_def)
  note f = process_loop_frame [OF this l]
  define d' where "d' = (if did then dma_engine_raise_irq msi d else d)"
  have w': "timer_step msi rd wr w = w\<lparr>w_dev := d', w_mem := m\<rparr>"
    by (simp add: timer_step_def timer_expires_def dma_engine_process_def T_Armed l d'_def)
  have "dev_inv d'" "linked eng d'" "dv_sq_depth d' = dv_sq_depth (w_dev w)" "dv_cq_depth d' = dv_cq_depth (w_dev w)"
    "dv_sq_head d' = dv_sq_tail (w_dev w)" "dv_sq_tail d' = dv_sq_tail (w_dev w)"
    using f assms by (simp_all add: d'_def dev_inv_def linked_def sys_inv_def)
  moreover have "unat (eng_sq_tail eng - dv_sq_tail (w_dev w)) \<le> unat (dv_sq_depth (w_dev w))"
    using assms unat_dist_sub [of "dv_sq_tail (w_dev w) - dv_sq_head (w_dev w)" "eng_sq_tail eng" "dv_sq_head (w_dev w)"]
    by (auto simp: sys_inv_def intro: le_trans [OF diff_le_self])
  ultimately show ?thesis using assms unfolding w' by (simp add: sys_inv_def)
qed (use assms in \<open>simp_all add: timer_step_def timer_expires_def\<close>)

lemma sys_step_inv:
  assumes "sys_step rd wr (eng, w) (eng', w')" "sys_inv eng w"
  shows "sys_inv eng' w'"
  using assms(1)
proof cases
  case (submit sqe rc)
  then show ?thesis
    using submit_appends [OF assms(2), of sqe] submit_full [OF assms(2), of sqe] assms(2)
    by (cases "length (submitted eng w) < unat (eng_sq_depth eng)") auto
next
  case (doorbell msi now)
  with assms(2) show ?thesis by (simp add: engine_doorbell_def sys_inv_def linked_def dev_inv_def)
next
  case (drain mx n out)
  with assms(2) show ?thesis
    by (auto simp: engine_drain_def Let_def sys_inv_def linked_def split: if_splits option.splits)
next
  case (timer msi)
  with timer_step_inv [OF assms(2)] show ?thesis by simp
next
  case (irq msi now handled)
  with assms(2) show ?thesis
    by (auto simp: dma_engine_irq_def log_def Let_def sys_inv_def linked_def dev_inv_def split: if_splits)
qed

lemma sys_reachable_inv:
  assumes "sys_reachable rd wr (eng, w) c"
  shows "sys_inv eng w \<Longrightarrow> sys_inv (fst c) (snd c)"
  using assms
proof (induction rule: sys_reachable.induct)
  case (further c1 c2)
  then show ?case using sys_step_inv [of "fst c1" "snd c1" "fst c2" "snd c2"] by simp
qed simp

lemma timer_step_runs:
  assumes inv: "sys_inv eng w" and r: "rings_ok backed (w_dev w)" and t: "dv_dma_timer (w_dev w) = T_Armed x"
    and safe: "\<forall>e \<in> set (pending (w_dev w) (w_mem w)). rx_safe (w_dev w) e"
    and c: "complete_all rd wr (cqe_addr (w_dev w)) (dv_cq_tail (w_dev w)) (pending (w_dev w) (w_mem w))
      (dv_dev_buf (w_dev w)) (w_mem w) = (cs, buf, m)"
  defines "d \<equiv> (w_dev w)\<lparr>dv_dma_timer := T_Idle, dv_dev_buf := buf, dv_sq_head := dv_sq_tail (w_dev w),
    dv_cq_tail := dv_sq_tail (w_dev w)\<rparr>"
  shows "timer_step msi rd wr w =
    w\<lparr>w_dev := if pending (w_dev w) (w_mem w) \<noteq> [] then dma_engine_raise_irq msi d else d, w_mem := m\<rparr>"
proof -
  let ?d = "(w_dev w)\<lparr>dv_dma_timer := T_Idle\<rparr>"
  have addr: "cqe_addr ?d = cqe_addr (w_dev w)" "sqe_addr ?d = sqe_addr (w_dev w)"
    by (rule ext, simp add: cqe_addr_def sqe_addr_def)+
  have P: "pending ?d (w_mem w) = pending (w_dev w) (w_mem w)" by (simp add: pending_def addr)
  have "rings_ok backed ?d" using r by (simp add: rings_ok_def addr)
  then have "process_loop rd wr ?d (w_mem w) False = (d, m, dv_sq_head (w_dev w) \<noteq> dv_sq_tail (w_dev w))"
    using process_loop_spec [of ?d "w_mem w" cs buf m False] inv safe c
    by (simp add: P addr sys_inv_def dev_inv_def rx_safe_def d_def)
  moreover have "pending (w_dev w) (w_mem w) \<noteq> [] \<longleftrightarrow> dv_sq_head (w_dev w) \<noteq> dv_sq_tail (w_dev w)"
    by (auto simp: pending_def unat_eq_0)
  ultimately show ?thesis by (simp add: timer_step_def timer_expires_def dma_engine_process_def t)
qed

text \<open>
  An armed timer: the pending entries are executed in order, and their completions are appended to
  those not yet drained, as long as the completion ring has room for all of them.
\<close>

lemma timer_step_completes:
  assumes inv: "sys_inv eng w" and r: "rings_ok backed (w_dev w)" and t: "dv_dma_timer (w_dev w) = T_Armed x"
    and safe: "\<forall>e \<in> set (pending (w_dev w) (w_mem w)). rx_safe (w_dev w) e"
    and room: "length (completed eng w) + length (pending (w_dev w) (w_mem w)) \<le> unat (dv_cq_depth (w_dev w))"
  shows "completed eng (timer_step msi rd wr w) =
      completed eng w @ map (\<lambda>e. drv_view (completion backed e)) (pending (w_dev w) (w_mem w))"
    and "dv_sq_head (w_dev (timer_step msi rd wr w)) = dv_sq_tail (w_dev w)"
    and "dv_cq_tail (w_dev (timer_step msi rd wr w)) = dv_sq_tail (w_dev w)"
    and "pending (w_dev w) (w_mem w) \<noteq> [] \<Longrightarrow> dv_irq_status (w_dev (timer_step msi rd wr w)) \<noteq> 0"
proof -
  let ?P = "pending (w_dev w) (w_mem w)" and ?h = "eng_cq_head eng" and ?t = "dv_cq_tail (w_dev w)"
  obtain cs buf m where c: "complete_all rd wr (cqe_addr (w_dev w)) ?t ?P (dv_dev_buf (w_dev w)) (w_mem w) = (cs, buf, m)"
    using prod_cases3 by blast
  note w' = timer_step_runs [OF inv r t safe c, of msi]
  show "dv_sq_head (w_dev (timer_step msi rd wr w)) = dv_sq_tail (w_dev w)"
    and tl: "dv_cq_tail (w_dev (timer_step msi rd wr w)) = dv_sq_tail (w_dev w)" by (simp_all add: w')
  show "dv_irq_status (w_dev (timer_step msi rd wr w)) \<noteq> 0" if "?P \<noteq> []"
    using that raise_irq_nonzero by (simp add: w')
  have buf: "length (dv_dev_buf (w_dev w)) = unat DEV_BUF_SIZE" and ct: "?t = dv_sq_head (w_dev w)"
    and p: "is_pow2 (dv_cq_depth (w_dev w))" using inv by (simp_all add: sys_inv_def dev_inv_def)
  define k where "k = unat (?t - ?h)"
  have hk: "?t = ?h + of_nat k" by (simp add: k_def)
  have kn: "k + length ?P \<le> unat (dv_cq_depth (w_dev w))" using room by (simp add: completed_def cqes_at_def k_def)
  have "k + length ?P < 2 ^ LENGTH(32)" using kn is_pow2_le_half [OF p] is_pow2_pos [OF p] by simp
  then have n: "unat (dv_sq_tail (w_dev w) - ?h) = k + length ?P"
    using unat_dist_add [of ?t ?h "dv_sq_tail (w_dev w) - ?t"] by (simp add: k_def pending_def ct)
  have ca: "cqe_addr (w_dev (timer_step msi rd wr w)) = cqe_addr (w_dev w)" by (rule ext) (simp add: w' cqe_addr_def)
  have "completed eng (timer_step msi rd wr w) = cqes_at (w_dev w) m ?h (k + length ?P)"
    using n tl ca by (simp add: completed_def cqes_at_def) (simp add: w')
  also have "\<dots> = cqes_at (w_dev w) (w_mem w) ?h k @ map (\<lambda>e. drv_view (completion backed e)) ?P"
    using complete_all_window [OF r c [unfolded hk] buf safe kn] .
  finally show "completed eng (timer_step msi rd wr w) = completed eng w @ map (\<lambda>e. drv_view (completion backed e)) ?P"
    by (simp add: completed_def k_def)
qed

end

end
