(* ===== verification/Dma_Properties.thy ===== *)
theory Dma_Properties
  imports Dma_System
begin

text \<open>
  Properties of the DMA engine: the end-to-end path from submission to completion, each operation of
  the driver, the processing of the device, the register file, the interrupt, and what goes wrong
  when the host does not drain its completions.
\<close>

section \<open>Definitions\<close>

text \<open>A device with two rings of four slots in RAM, its engine object, and an idle system.\<close>

definition demo_dev :: DmaEngineState where
  "demo_dev = (dma_engine_realize 0 dev_zero)
     \<lparr>dv_sq_base := 0x1000, dv_cq_base := 0x2000, dv_sq_depth := 4, dv_cq_depth := 4\<rparr>"

definition demo_eng :: engine_t where
  "demo_eng = \<lparr> eng_sq = Some 0x1000, eng_sq_dma = 0x1000, eng_sq_depth = 4, eng_sq_tail = 0,
     eng_cq = Some 0x2000, eng_cq_dma = 0x2000, eng_cq_depth = 4, eng_cq_head = 0, eng_mmio = 0xF000 \<rparr>"

definition demo_world :: sysw where
  "demo_world = \<lparr> w_dev = demo_dev, w_mem = (\<lambda>_. 0), w_log = [], w_drvdata = Some demo_eng \<rparr>"

definition all_ram :: "u64 \<Rightarrow> nat \<Rightarrow> bool" where
  "all_ram a n = True"

text \<open>A transmit and a receive of 18 bytes, and an entry with an unknown operation.\<close>

definition demo_tx :: sqe_t where
  "demo_tx = \<lparr> cookie = 0xCAFE, buf_addr = 0x3000, len_t = 18, op = DMA_OP_TX \<rparr>"

definition demo_rx :: sqe_t where
  "demo_rx = \<lparr> cookie = 0xBEEF, buf_addr = 0x4000, len_t = 18, op = DMA_OP_RX \<rparr>"

definition demo_bad :: sqe_t where
  "demo_bad = \<lparr> cookie = 0xBAD, buf_addr = 0x3000, len_t = 18, op = 7 \<rparr>"

text \<open>A device with a transmit and a receive announced, and the memory that holds them.\<close>

definition pair_dev :: DmaEngineState where
  "pair_dev = demo_dev\<lparr>dv_sq_tail := 2\<rparr>"

definition pair_mem :: mem where
  "pair_mem = store (store (\<lambda>_. 0x41) 0x1000 (sqe_bytes demo_tx)) 0x1018 (sqe_bytes demo_rx)"

text \<open>
  Rings of a single slot: one entry has been completed and not drained, a second one is announced.
\<close>

definition tiny_eng :: engine_t where
  "tiny_eng = demo_eng\<lparr>eng_sq_depth := 1, eng_cq_depth := 1, eng_sq_tail := 2\<rparr>"

definition tiny_world :: sysw where
  "tiny_world = demo_world\<lparr>
     w_dev := demo_dev\<lparr>dv_sq_depth := 1, dv_cq_depth := 1, dv_sq_head := 1, dv_cq_tail := 1, dv_sq_tail := 2,
       dv_dma_timer := T_Armed 1000000\<rparr>,
     w_mem := store (\<lambda>_. 0) 0x1000 (sqe_bytes demo_bad)\<rparr>"

section \<open>Lemmas\<close>

lemmas demo_defs = demo_dev_def demo_eng_def demo_world_def dma_engine_realize_def dev_event_def dev_zero_def

lemma demo_inv: "sys_inv demo_eng demo_world"
  by (simp add: sys_inv_def linked_def dev_inv_def is_pow2_def demo_defs)

lemma demo_rings: "rings_ok all_ram (w_dev demo_world)"
  by (simp add: rings_ok_def all_ram_def is_pow2_def apart_def sizeof_sqe_def sizeof_cqe_def demo_defs)

lemma demo_empty: "submitted demo_eng demo_world = []" "completed demo_eng demo_world = []"
  by (simp_all add: submitted_def completed_def cqes_at_def demo_defs)

lemma demo_depths: "unat (eng_sq_depth demo_eng) = 4" "unat (dv_cq_depth (w_dev demo_world)) = 4"
  "eng_sq_depth demo_eng = 4" "eng_mmio demo_eng = 0xF000"
  by (simp_all add: demo_defs)

lemma demo_safe: "rx_safe s (dev_view demo_tx)" "rx_safe s (dev_view demo_bad)"
  by (simp_all add: rx_safe_def dev_view_def demo_tx_def demo_bad_def DMA_OP_TX_def OP_RX_def Let_def)

lemma rings_ok_mono:
  assumes "rings_ok b s" "dv_sq_base s' = dv_sq_base s" "dv_cq_base s' = dv_cq_base s"
    "dv_sq_depth s' = dv_sq_depth s" "dv_cq_depth s' = dv_cq_depth s"
  shows "rings_ok b s'"
  using assms by (simp add: rings_ok_def sqe_addr_def cqe_addr_def)

lemma rx_safe_cong:
  assumes "dv_sq_base s' = dv_sq_base s" "dv_cq_base s' = dv_cq_base s"
    "dv_sq_depth s' = dv_sq_depth s" "dv_cq_depth s' = dv_cq_depth s"
  shows "rx_safe s' e = rx_safe s e"
  using assms by (simp add: rx_safe_def)

lemma tiny_inv: "sys_inv tiny_eng tiny_world" "rings_ok all_ram (w_dev tiny_world)"
  "dv_dma_timer (w_dev tiny_world) = T_Armed 1000000"
  "length (completed tiny_eng tiny_world) = unat (dv_cq_depth (w_dev tiny_world))"
  by (simp_all add: sys_inv_def linked_def dev_inv_def is_pow2_def rings_ok_def all_ram_def apart_def sizeof_sqe_def
      sizeof_cqe_def completed_def cqes_at_def tiny_eng_def tiny_world_def demo_defs)

lemma tiny_pending: "pending (w_dev tiny_world) (w_mem tiny_world) = [dev_view demo_bad]"
proof -
  have "sqe_addr (w_dev tiny_world) 1 = 0x1000" by (simp add: sqe_addr_def tiny_world_def demo_defs)
  moreover have "load (w_mem tiny_world) 0x1000 sizeof_sqe = sqe_bytes demo_bad"
    by (simp add: tiny_world_def load_store_same sizeof_sqe_def)
  moreover have "dv_sq_head (w_dev tiny_world) = 1" "dv_sq_tail (w_dev tiny_world) = 2" by (simp_all add: tiny_world_def)
  ultimately show ?thesis by (simp add: pending_def)
qed

lemma doorbell_frame [simp]:
  fixes w :: sysw and eng :: engine_t and msi :: bool and now :: int
  defines "w' \<equiv> engine_doorbell (bus_write (eng_mmio eng) msi now) eng w"
  shows "w_mem w' = w_mem w" "w_log w' = w_log w"
    "w_dev w' = (w_dev w)\<lparr>dv_sq_tail := eng_sq_tail eng, dv_dma_timer := T_Armed (now + 1000000)\<rparr>"
  by (simp_all add: w'_def engine_doorbell_def)

text \<open>The interrupt handler leaves the rings alone and clears the status.\<close>

lemma irq_frame_world:
  fixes w :: sysw and eng :: engine_t and msi :: bool and now :: int
  defines "w' \<equiv> snd (dma_engine_irq (bus_read (eng_mmio eng)) (bus_write (eng_mmio eng) msi now) eng w)"
  shows "completed e w' = completed e w" "submitted e w' = submitted e w" "w_mem w' = w_mem w"
    "dv_irq_status (w_dev w') = 0" "sys_inv e w' = sys_inv e w" "dv_cq_tail (w_dev w') = dv_cq_tail (w_dev w)"
    "dv_sq_head (w_dev w') = dv_sq_head (w_dev w)" "dv_dev_buf (w_dev w') = dv_dev_buf (w_dev w)"
    "rings_ok b (w_dev w') = rings_ok b (w_dev w)" "rx_safe (w_dev w') x = rx_safe (w_dev w) x"
  by (auto simp: w'_def dma_engine_irq_def Let_def log_def completed_def submitted_def cqes_at_def
      cqe_addr_def sqe_addr_def sys_inv_def linked_def dev_inv_def rings_ok_def rx_safe_def
      dma_engine_lower_irq_def dev_event_def)

text \<open>A doorbell, and then the device's turn, on a queue that fits the completion ring.\<close>

lemma doorbell_turn:
  fixes msi :: bool and now :: int
  assumes g: "guest_ram rd wr backed" and inv: "sys_inv eng w" and r: "rings_ok backed (w_dev w)"
    and safe: "\<forall>e \<in> set (submitted eng w). rx_safe (w_dev w) e"
    and room: "length (completed eng w) + length (submitted eng w) \<le> unat (dv_cq_depth (w_dev w))"
  defines "w' \<equiv> device_turn msi now rd wr eng (engine_doorbell (bus_write (eng_mmio eng) msi now) eng w)"
  shows "completed eng w' = completed eng w @ map (\<lambda>e. drv_view (completion backed e)) (submitted eng w)"
    and "submitted eng w' = []" and "sys_inv eng w'" and "dv_irq_status (w_dev w') = 0"
    and "dv_cq_tail (w_dev w') = eng_sq_tail eng"
proof -
  let ?b = "engine_doorbell (bus_write (eng_mmio eng) msi now) eng w"
  let ?t = "timer_step msi rd wr ?b"
  have lk: "linked eng (w_dev w)" using inv by (simp add: sys_inv_def)
  have ib: "sys_inv eng ?b" using guest_ram.sys_step_inv [OF g sys_step.doorbell inv] .
  have rb: "rings_ok backed (w_dev ?b)" by (rule rings_ok_mono [OF r]) simp_all
  have tb: "dv_dma_timer (w_dev ?b) = T_Armed (now + 1000000)" by simp
  have pb: "pending (w_dev ?b) (w_mem ?b) = submitted eng w" using doorbell_pending [OF lk, of msi now] by simp
  have sb: "\<forall>e \<in> set (pending (w_dev ?b) (w_mem ?b)). rx_safe (w_dev ?b) e"
    unfolding pb using safe rx_safe_cong [of "w_dev ?b" "w_dev w"] by simp
  have cb: "completed eng ?b = completed eng w" by (simp add: completed_def cqes_at_def cqe_addr_def)
  have "length (completed eng ?b) + length (pending (w_dev ?b) (w_mem ?b)) \<le> unat (dv_cq_depth (w_dev ?b))"
    unfolding pb cb using room by simp
  note posted = guest_ram.timer_step_completes [OF g ib rb tb sb this, of msi, unfolded pb cb]
  have it: "sys_inv eng ?t" by (rule guest_ram.timer_step_inv [OF g ib])
  note fr = irq_frame_world [where w = ?t and eng = eng and msi = msi and now = now, folded device_turn_def]
  show "completed eng w' = completed eng w @ map (\<lambda>e. drv_view (completion backed e)) (submitted eng w)"
    unfolding w'_def fr using posted(1) by simp
  show "submitted eng w' = []" unfolding w'_def fr using posted(2) by (simp add: submitted_def)
  show "sys_inv eng w'" unfolding w'_def fr by (rule it)
  show "dv_irq_status (w_dev w') = 0" unfolding w'_def fr ..
  show "dv_cq_tail (w_dev w') = eng_sq_tail eng" unfolding w'_def fr using posted(3) by simp
qed

text \<open>The device with two entries announced.\<close>

lemma pair_pending: "pending pair_dev pair_mem = [dev_view demo_tx, dev_view demo_rx]"
proof -
  have a: "sqe_addr pair_dev 0 = 0x1000" "sqe_addr pair_dev 1 = 0x1018"
    by (simp_all add: sqe_addr_def pair_dev_def demo_defs sizeof_sqe_def)
  have l: "load pair_mem 0x1000 sizeof_sqe = sqe_bytes demo_tx" "load pair_mem 0x1018 sizeof_sqe = sqe_bytes demo_rx"
    by (simp_all add: pair_mem_def load_store_apart load_store_same apart_def sizeof_sqe_def)
  have n: "unat (dv_sq_tail pair_dev) = Suc (Suc 0)" "dv_sq_head pair_dev = 0"
    by (simp_all add: pair_dev_def demo_defs)
  show ?thesis by (simp add: pending_def n a l)
qed

lemma pair_ok: "dev_inv pair_dev" "rings_ok all_ram pair_dev"
  using demo_inv rings_ok_mono [OF demo_rings, of pair_dev]
  by (simp_all add: sys_inv_def dev_inv_def demo_world_def pair_dev_def)

lemma pair_safe: "rx_safe pair_dev (dev_view demo_tx)" "rx_safe pair_dev (dev_view demo_rx)"
  by (simp_all add: rx_safe_def apart_def dev_view_def demo_rx_def demo_tx_def pair_dev_def demo_defs sizeof_sqe_def
      sizeof_cqe_def clamp_len_def DEV_BUF_SIZE_def OP_RX_def DMA_OP_TX_def)

section \<open>Properties\<close>

text \<open>
  C15: End to end. On an idle engine, a batch of entries that fits both rings is submitted, announced
  with a single doorbell, executed when the device's timer expires, and drained after the interrupt:
  the driver gets exactly one completion per entry, in submission order, with the cookie echoed, the
  length clamped to the device buffer, and the status of the transfer. The engine is idle again and
  the interrupt acknowledged.
\<close>

theorem dma_end_to_end:
  assumes g: "guest_ram rd wr backed" and inv: "sys_inv eng w" and r: "rings_ok backed (w_dev w)"
    and idle: "submitted eng w = []" "completed eng w = []"
    and fits: "length es \<le> unat (eng_sq_depth eng)" "length es \<le> unat (dv_cq_depth (w_dev w))"
    and safe: "\<forall>e \<in> set es. rx_safe (w_dev w) (dev_view e)"
    and mx: "length es \<le> unat (ucast mx :: u32)"
  shows "\<exists>eng1 w1. submit_all eng es w = Some (0, eng1, w1) \<and>
    (let w2 = device_turn msi now rd wr eng1 (engine_doorbell (bus_write (eng_mmio eng1) msi now) eng1 w1) in
     \<exists>eng2. engine_drain (bus_read (eng_mmio eng1)) eng1 mx w2 =
         Some (of_nat (length es), map (\<lambda>e. drv_view (completion backed (dev_view e))) es, eng2) \<and>
       sys_inv eng2 w2 \<and> submitted eng2 w2 = [] \<and> completed eng2 w2 = [] \<and> dv_irq_status (w_dev w2) = 0)"
proof -
  define eng1 where "eng1 = eng\<lparr>eng_sq_tail := eng_sq_tail eng + of_nat (length es)\<rparr>"
  obtain w1 where s: "submit_all eng es w = Some (0, eng1, w1)" and i1: "sys_inv eng1 w1"
    and d1: "w_dev w1 = w_dev w" and q1: "submitted eng1 w1 = map dev_view es"
    using submit_all_appends [OF inv, of es] idle(1) fits(1) by (auto simp: eng1_def)
  have "completed eng1 w1 = []" using idle(2) by (simp add: completed_def cqes_at_def d1 eng1_def)
  note t = doorbell_turn [OF g i1, of msi now, unfolded d1 q1 this]
  let ?w2 = "device_turn msi now rd wr eng1 (engine_doorbell (bus_write (eng_mmio eng1) msi now) eng1 w1)"
  have c2: "completed eng1 ?w2 = map (\<lambda>e. drv_view (completion backed (dev_view e))) es"
    and o: "submitted eng1 ?w2 = []" "sys_inv eng1 ?w2" "dv_irq_status (w_dev ?w2) = 0"
    using t r safe fits(2) by auto
  have lk: "linked eng1 (w_dev ?w2)" using o(2) by (simp add: sys_inv_def)
  from drain_takes [OF lk, of mx] c2 mx obtain eng2 where
    e2: "engine_drain (bus_read (eng_mmio eng1)) eng1 mx ?w2 = Some (of_nat (length es), completed eng1 ?w2, eng2)"
    "eng2 = eng1\<lparr>eng_cq_head := eng_cq_head eng1 + of_nat (length es)\<rparr>" "completed eng2 ?w2 = []"
    by (simp add: min_absorb1)
  have "sys_inv eng2 ?w2" "submitted eng2 ?w2 = []"
    using o e2(2) by (simp_all add: sys_inv_def linked_def submitted_def)
  with s e2(1,3) c2 o(3) show ?thesis by (auto simp: Let_def)
qed

theorem dma_end_to_end_witness:
  "\<exists>eng1 w1. submit_all demo_eng [demo_tx, demo_bad] demo_world = Some (0, eng1, w1) \<and>
    (let w2 = device_turn True 0 (flat_read all_ram) (flat_write all_ram) eng1
           (engine_doorbell (bus_write (eng_mmio eng1) True 0) eng1 w1) in
     \<exists>eng2. engine_drain (bus_read (eng_mmio eng1)) eng1 8 w2 =
       Some (2, [\<lparr>cq_cookie = 0xCAFE, status = 0, bytes_xferred = 18\<rparr>,
                 \<lparr>cq_cookie = 0xBAD, status = - 22, bytes_xferred = 0\<rparr>], eng2))"
  using dma_end_to_end [OF flat_ram.guest_ram_axioms demo_inv demo_rings demo_empty, of "[demo_tx, demo_bad]" 8 True 0]
    demo_safe demo_depths
  by (auto simp: Let_def drv_view_def completion_def status_of_def xfer_len_def dev_view_def demo_tx_def
      demo_bad_def DMA_OP_TX_def all_ram_def)

text \<open>
  \<^verbatim>\<open>engine_submit\<close> appends the entry to the submission queue when fewer than \<^verbatim>\<open>sq_depth\<close> entries are
  outstanding, without disturbing any entry the device has not consumed, and otherwise returns
  \<^verbatim>\<open>-EAGAIN\<close> with nothing changed; the indices may wrap.
\<close>

lemma engine_submit_correct:
  assumes "sys_inv eng w"
  shows "if length (submitted eng w) < unat (eng_sq_depth eng)
    then \<exists>eng' w'. engine_submit (bus_read (eng_mmio eng)) eng sqe w = Some (0, eng', w') \<and> sys_inv eng' w' \<and>
      submitted eng' w' = submitted eng w @ [dev_view sqe] \<and> w_dev w' = w_dev w
    else engine_submit (bus_read (eng_mmio eng)) eng sqe w = Some (- EAGAIN, eng, w)"
  using submit_appends [OF assms, of sqe] submit_full [OF assms, of sqe] by auto

text \<open>
  \<^verbatim>\<open>engine_drain\<close> returns the oldest \<open>min\<close> of the posted completions and \<^verbatim>\<open>(u32)max\<close>, in order, and
  leaves the rest for the next call.
\<close>

lemma engine_drain_correct:
  assumes "linked eng (w_dev w)"
  shows "\<exists>n eng'. engine_drain (bus_read (eng_mmio eng)) eng mx w = Some (of_nat n, take n (completed eng w), eng') \<and>
    n = min (length (completed eng w)) (unat (ucast mx :: u32)) \<and> completed eng' w = drop n (completed eng w) \<and>
    linked eng' (w_dev w)"
  using drain_takes [OF assms, of mx] assms by (fastforce simp: linked_def)

text \<open>
  C16: The two ends of the driver's rings. \<^verbatim>\<open>engine_submit\<close> appends the entry to the submission queue when
  fewer than \<^verbatim>\<open>sq_depth\<close> entries are outstanding, without disturbing any entry the device has not consumed,
  and otherwise returns \<^verbatim>\<open>-EAGAIN\<close> with nothing changed. \<^verbatim>\<open>engine_drain\<close> returns the oldest \<open>min\<close> of the posted
  completions and \<^verbatim>\<open>(u32)max\<close>, in order, and leaves the rest for the next call. The indices may wrap.
\<close>

theorem engine_submit_drain_correct:
  assumes "linked eng (w_dev w)"
  shows "(sys_inv eng w \<longrightarrow>
     (if length (submitted eng w) < unat (eng_sq_depth eng)
      then \<exists>eng' w'. engine_submit (bus_read (eng_mmio eng)) eng sqe w = Some (0, eng', w') \<and> sys_inv eng' w' \<and>
        submitted eng' w' = submitted eng w @ [dev_view sqe] \<and> w_dev w' = w_dev w
      else engine_submit (bus_read (eng_mmio eng)) eng sqe w = Some (- EAGAIN, eng, w))) \<and>
   (\<exists>n eng'. engine_drain (bus_read (eng_mmio eng)) eng mx w = Some (of_nat n, take n (completed eng w), eng') \<and>
      n = min (length (completed eng w)) (unat (ucast mx :: u32)) \<and> completed eng' w = drop n (completed eng w) \<and>
      linked eng' (w_dev w))"
  using engine_submit_correct engine_drain_correct [OF assms] by blast

theorem engine_submit_drain_correct_witness:
  "(\<exists>eng' w'. engine_submit (bus_read 0xF000) demo_eng demo_tx demo_world = Some (0, eng', w') \<and>
     submitted eng' w' = [dev_view demo_tx]) \<and>
   (\<exists>c eng'. engine_drain (bus_read 0xF000) tiny_eng 4 tiny_world = Some (1, [c], eng') \<and> completed eng' tiny_world = [])"
proof -
  have l: "linked tiny_eng (w_dev tiny_world)" "eng_mmio tiny_eng = 0xF000"
    by (simp_all add: linked_def tiny_eng_def tiny_world_def demo_defs)
  have "unat (dv_cq_tail (w_dev tiny_world) - eng_cq_head tiny_eng) = 1"
    by (simp add: tiny_eng_def tiny_world_def demo_defs)
  then obtain c where c: "completed tiny_eng tiny_world = [c]" by (simp add: completed_def cqes_at_def)
  show ?thesis
    using engine_submit_drain_correct [of demo_eng demo_world demo_tx 4] demo_inv
      engine_submit_drain_correct [OF l(1), of demo_tx 4] c l(2)
    by (auto simp: demo_empty demo_depths sys_inv_def)
qed

text \<open>
  C18: The submission ring is never overrun. From an idle system, after any interleaving of submits,
  doorbells, drains, timer expiries and interrupts, the driver is at most \<^verbatim>\<open>sq_depth\<close> entries ahead of
  the device, the device never runs ahead of the last doorbell nor that ahead of the driver, engine and
  device agree on the rings, and the device buffer has its size.
\<close>

theorem dma_system_safe:
  assumes "guest_ram rd wr backed" and "sys_inv eng w" and "sys_reachable rd wr (eng, w) (eng', w')"
  shows "length (submitted eng' w') \<le> unat (eng_sq_depth eng') \<and>
    unat (dv_sq_tail (w_dev w') - dv_sq_head (w_dev w')) \<le> length (submitted eng' w') \<and>
    linked eng' (w_dev w') \<and> length (dv_dev_buf (w_dev w')) = 4096"
  using guest_ram.sys_reachable_inv [OF assms(1,3,2)]
  by (auto simp: sys_inv_def submitted_def linked_def dev_inv_def DEV_BUF_SIZE_def)

theorem dma_system_safe_witness:
  "\<exists>eng1 w1. engine_submit (bus_read 0xF000) demo_eng demo_tx demo_world = Some (0, eng1, w1) \<and>
     submitted eng1 w1 = [dev_view demo_tx] \<and>
     length (submitted eng1 (timer_step True (flat_read all_ram) (flat_write all_ram)
       (engine_doorbell (bus_write 0xF000 True 5) eng1 w1))) \<le> 4"
proof -
  obtain eng1 w1 where s: "engine_submit (bus_read 0xF000) demo_eng demo_tx demo_world = Some (0, eng1, w1)" "sys_inv eng1 w1"
    "submitted eng1 w1 = [dev_view demo_tx]" "w_dev w1 = w_dev demo_world"
    using engine_submit_correct [OF demo_inv, of demo_tx] by (auto simp: demo_empty demo_depths)
  have d: "eng_sq_depth eng1 = 4" using s(2,4) by (simp add: sys_inv_def linked_def demo_defs)
  have m: "eng_mmio eng1 = 0xF000" using s(1) by (auto simp: engine_submit_def demo_defs Let_def split: if_splits option.splits)
  have "sys_reachable (flat_read all_ram) (flat_write all_ram) (demo_eng, demo_world)
      (eng1, timer_step True (flat_read all_ram) (flat_write all_ram) (engine_doorbell (bus_write 0xF000 True 5) eng1 w1))"
    using sys_reachable.further [OF sys_reachable.further [OF sys_reachable.further [OF sys_reachable.here
      sys_step.submit [of demo_eng demo_tx demo_world 0 eng1 w1]] sys_step.doorbell [of _ _ eng1 w1 True 5]] sys_step.timer] s(1) m
    by (simp add: demo_depths)
  from dma_system_safe [OF flat_ram.guest_ram_axioms demo_inv this] s d show ?thesis by auto
qed

text \<open>
  C19: The processing loop of the device, for any number of pending entries that fits the completion
  ring, receive buffers that do not overlap the rings, and a device whose counters agree: it executes all of them in order and
  posts their completions in order, whatever the entries say. When the buffers of the transmits and receives are RAM, the device
  buffer and all of memory afterwards are what executing the entries one after the other gives: a transmit has loaded
  its bytes, at most 4096, into the device buffer, and a receive has stored the bytes the device buffer held then. In any case
  memory other than the new completions' slots and the receive buffers is unchanged. Head and tail catch up with the doorbell; and one
  interrupt is raised (an MSI, or the INTx line without MSI) exactly when there was work.
\<close>

theorem dma_process_correct:
  assumes g: "guest_ram rd wr backed" and r: "rings_ok backed s" and inv: "dev_inv s"
    and safe: "\<forall>e \<in> set (pending s m). rx_safe s e"
    and room: "length (pending s m) \<le> unat (dv_cq_depth s)"
    and p: "dma_engine_process msi rd wr s m = (s', m')"
  shows "cqes_at s m' (dv_cq_tail s) (length (pending s m)) = map (\<lambda>e. drv_view (completion backed e)) (pending s m) \<and>
    ((\<forall>e \<in> set (pending s m). ds_op e = OP_TX \<or> ds_op e = OP_RX \<longrightarrow> backed (ds_buf_addr e) (xfer_len e)) \<longrightarrow>
      (dv_dev_buf s', m') = execute (cqe_addr s) (dv_cq_tail s) (pending s m) (dv_dev_buf s, m)) \<and>
    (\<forall>a n. (\<forall>e \<in> set (pending s m). ds_op e = OP_RX \<and> 0 < xfer_len e \<longrightarrow> apart a n (ds_buf_addr e) (xfer_len e)) \<and>
      (\<forall>j < length (pending s m). apart a n (cqe_addr s (dv_cq_tail s + of_nat j)) sizeof_cqe) \<longrightarrow> load m' a n = load m a n) \<and>
    dv_sq_head s' = dv_sq_tail s \<and> dv_cq_tail s' = dv_sq_tail s \<and> dev_inv s' \<and>
    dv_events s' = dv_events s @ (if pending s m = [] then [] else if msi then [Msi_Notify 0] else [Pci_Set_Irq True]) \<and>
    (pending s m \<noteq> [] \<longrightarrow> dv_irq_status s' \<noteq> 0)"
proof -
  obtain cs buf m1 where c: "complete_all rd wr (cqe_addr s) (dv_cq_tail s) (pending s m) (dv_dev_buf s) m = (cs, buf, m1)"
    using prod_cases3 by blast
  have b: "length (dv_dev_buf s) = unat DEV_BUF_SIZE" using inv by (simp add: dev_inv_def)
  let ?s = "s\<lparr>dv_dev_buf := buf, dv_sq_head := dv_sq_tail s, dv_cq_tail := dv_sq_tail s\<rparr>"
  have ne: "pending s m = [] \<longleftrightarrow> dv_sq_head s = dv_sq_tail s" by (auto simp: pending_def unat_eq_0)
  have s': "s' = (if pending s m = [] then ?s else dma_engine_raise_irq msi ?s)" "m' = m1"
    using p guest_ram.process_loop_spec [OF g r inv safe c, of False] ne
    by (auto simp: dma_engine_process_def split: if_splits)
  have e: "dv_events (dma_engine_raise_irq msi ?s) = dv_events s @ (if msi then [Msi_Notify 0] else [Pci_Set_Irq True])"
    "dv_dev_buf (dma_engine_raise_irq msi ?s) = buf"
    by (simp_all add: dma_engine_raise_irq_def dev_event_def Let_def)
  have c0: "complete_all rd wr (cqe_addr s) (dv_cq_tail s + of_nat 0) (pending s m) (dv_dev_buf s) m = (cs, buf, m1)"
    using c by simp
  have posted: "cqes_at s m1 (dv_cq_tail s) (0 + length (pending s m)) =
      cqes_at s m (dv_cq_tail s) 0 @ map (\<lambda>e. drv_view (completion backed e)) (pending s m)"
    using guest_ram.complete_all_window [OF g r c0 b safe] room by simp
  have data: "(dv_dev_buf s', m') = execute (cqe_addr s) (dv_cq_tail s) (pending s m) (dv_dev_buf s, m)"
    if "\<forall>e \<in> set (pending s m). ds_op e = OP_TX \<or> ds_op e = OP_RX \<longrightarrow> backed (ds_buf_addr e) (xfer_len e)"
    using guest_ram.complete_all_execute [OF g _ c b that] r by (simp add: s' e rings_ok_def)
  have rest: "load m' a n = load m a n"
    if "\<forall>e \<in> set (pending s m). ds_op e = OP_RX \<and> 0 < xfer_len e \<longrightarrow> apart a n (ds_buf_addr e) (xfer_len e)"
      "\<forall>j < length (pending s m). apart a n (cqe_addr s (dv_cq_tail s + of_nat j)) sizeof_cqe" for a n
    using guest_ram.complete_all_elsewhere [OF g c b that(1)] that(2) s'(2) by simp
  have "length buf = unat DEV_BUF_SIZE" using guest_ram.complete_all_completions [OF g c b] by simp
  then show ?thesis
    using posted raise_irq_nonzero [of msi ?s] e data rest by (simp add: s' dev_inv_def cqes_at_def)
qed

theorem dma_process_correct_witness:
  "\<exists>s' m'. pending pair_dev pair_mem = [dev_view demo_tx, dev_view demo_rx] \<and>
     dma_engine_process True (flat_read all_ram) (flat_write all_ram) pair_dev pair_mem = (s', m') \<and>
     (dv_dev_buf s', m') = execute (cqe_addr pair_dev) 0 [dev_view demo_tx, dev_view demo_rx] (dv_dev_buf pair_dev, pair_mem) \<and>
     dv_sq_head s' = 2 \<and> load m' 0x1000 24 = load pair_mem 0x1000 24 \<and> dv_events s' = dv_events pair_dev @ [Msi_Notify 0]"
proof -
  note P = pair_pending pair_ok pair_safe
  obtain s' m' where r: "dma_engine_process True (flat_read all_ram) (flat_write all_ram) pair_dev pair_mem = (s', m')"
    by (cases "dma_engine_process True (flat_read all_ram) (flat_write all_ram) pair_dev pair_mem")
  have room: "length (pending pair_dev pair_mem) \<le> unat (dv_cq_depth pair_dev)" unfolding P(1) by (simp add: pair_dev_def demo_defs)
  have safe: "\<forall>e \<in> set (pending pair_dev pair_mem). rx_safe pair_dev e" using P by simp
  have q: "dv_cq_tail pair_dev = 0" "dv_sq_tail pair_dev = 2" by (simp_all add: pair_dev_def demo_defs)
  have a: "apart 0x1000 24 (cqe_addr pair_dev (of_nat j)) sizeof_cqe" if "j < 2" for j
  proof -
    have "j = 0 \<or> j = 1" using that by linarith
    then show ?thesis by (auto simp: cqe_addr_def pair_dev_def demo_defs apart_def sizeof_cqe_def)
  qed
  have x: "apart 0x1000 24 (ds_buf_addr (dev_view demo_rx)) (xfer_len (dev_view demo_rx))" "ds_op (dev_view demo_tx) \<noteq> OP_RX"
    by (simp_all add: apart_def dev_view_def demo_rx_def demo_tx_def xfer_len_def OP_RX_def DMA_OP_TX_def)
  note c = dma_process_correct [OF flat_ram.guest_ram_axioms pair_ok(2,1) safe room r, unfolded P(1) q]
  from c have "(dv_dev_buf s', m') = execute (cqe_addr pair_dev) 0 [dev_view demo_tx, dev_view demo_rx] (dv_dev_buf pair_dev, pair_mem)"
    by (simp add: all_ram_def)
  moreover from c a x have "load m' 0x1000 24 = load pair_mem 0x1000 24" by auto
  moreover from c have "dv_sq_head s' = 2" "dv_events s' = dv_events pair_dev @ [Msi_Notify 0]" by simp_all
  ultimately show ?thesis using P(1) r by blast
qed

text \<open>
  C20: A transmit followed by a receive of the same length moves the bytes of the transmit buffer
  through the device into the receive buffer, up to the size of the device buffer.
\<close>

theorem dma_tx_rx_round_trip:
  assumes g: "guest_ram rd wr backed" and r: "rings_ok backed s" and inv: "dev_inv s"
    and pend: "pending s m = [tx, rx]" and ops: "ds_op tx = OP_TX" "ds_op rx = OP_RX" "ds_len rx = ds_len tx"
    and ok: "backed (ds_buf_addr tx) (xfer_len tx)" "backed (ds_buf_addr rx) (xfer_len tx)"
    and safe: "rx_safe s rx"
    and p: "dma_engine_process msi rd wr s m = (s', m')"
  shows "load m' (ds_buf_addr rx) (xfer_len tx) = load m (ds_buf_addr tx) (xfer_len tx)"
proof -
  obtain cs buf m1 where c: "complete_all rd wr (cqe_addr s) (dv_cq_tail s) (pending s m) (dv_dev_buf s) m = (cs, buf, m1)"
    using prod_cases3 by blast
  have b: "length (dv_dev_buf s) = unat DEV_BUF_SIZE" using inv by (simp add: dev_inv_def)
  have "rx_safe s tx" using ops by (simp add: rx_safe_def OP_TX_def OP_RX_def Let_def)
  then have "m' = m1"
    using p guest_ram.process_loop_spec [OF g r inv _ c, of False] safe pend
    by (auto simp: dma_engine_process_def split: if_splits)
  then show ?thesis
    using guest_ram.tx_rx_copies [OF g r c [unfolded pend] b ops clamp_len_xfer(1) [symmetric] ok safe] by simp
qed

theorem dma_tx_rx_round_trip_witness:
  "\<exists>s' m'. pending pair_dev pair_mem = [dev_view demo_tx, dev_view demo_rx] \<and> pair_mem 0x3000 = 0x41 \<and>
     dma_engine_process True (flat_read all_ram) (flat_write all_ram) pair_dev pair_mem = (s', m') \<and>
     load m' 0x4000 18 = load pair_mem 0x3000 18"
proof -
  obtain s' m' where r: "dma_engine_process True (flat_read all_ram) (flat_write all_ram) pair_dev pair_mem = (s', m')"
    by (cases "dma_engine_process True (flat_read all_ram) (flat_write all_ram) pair_dev pair_mem")
  have "load m' 0x4000 18 = load pair_mem 0x3000 18"
    using dma_tx_rx_round_trip [OF flat_ram.guest_ram_axioms pair_ok(2,1) pair_pending _ _ _ _ _ pair_safe(2) r]
    by (simp add: dev_view_def demo_tx_def demo_rx_def DMA_OP_TX_def DMA_OP_RX_def OP_TX_def OP_RX_def all_ram_def
        xfer_len_def)
  moreover have "pair_mem 0x3000 = 0x41" by (simp add: pair_mem_def store_def sizeof_sqe_def)
  ultimately show ?thesis using pair_pending r by blast
qed

text \<open>
  C21: The completion ring can be overrun. The test in the processing loop compares \<^verbatim>\<open>cq_tail\<close> with
  \<^verbatim>\<open>sq_head\<close>, which always agree, not with what the driver has drained. When the ring is full of
  completions the driver has not read and one more entry is processed, the new completion overwrites
  the oldest; the driver then reads one completion too many, the new one twice and the oldest never.
\<close>

theorem cq_overrun_loses_completion:
  assumes g: "guest_ram rd wr backed" and inv: "sys_inv eng w" and r: "rings_ok backed (w_dev w)"
    and t: "dv_dma_timer (w_dev w) = T_Armed x" and pend: "pending (w_dev w) (w_mem w) = [e]"
    and safe: "rx_safe (w_dev w) e" and full: "length (completed eng w) = unat (dv_cq_depth (w_dev w))"
  shows "length (completed eng (timer_step msi rd wr w)) = unat (dv_cq_depth (w_dev w)) + 1 \<and>
    hd (completed eng (timer_step msi rd wr w)) = drv_view (completion backed e) \<and>
    last (completed eng (timer_step msi rd wr w)) = drv_view (completion backed e)"
proof -
  let ?d = "w_dev w" and ?h = "eng_cq_head eng" and ?w' = "timer_step msi rd wr w"
  define k where "k = unat (dv_cq_depth ?d)"
  have p: "is_pow2 (dv_cq_depth ?d)" and b: "length (dv_dev_buf ?d) = unat DEV_BUF_SIZE"
    and ct: "dv_cq_tail ?d = dv_sq_head ?d" using inv by (simp_all add: sys_inv_def dev_inv_def)
  obtain cs buf m where c: "complete_all rd wr (cqe_addr ?d) (dv_cq_tail ?d) (pending ?d (w_mem w)) (dv_dev_buf ?d) (w_mem w) = (cs, buf, m)"
    using prod_cases3 by blast
  have w': "?w' = w\<lparr>w_dev := dma_engine_raise_irq msi (?d\<lparr>dv_dma_timer := T_Idle, dv_dev_buf := buf,
      dv_sq_head := dv_sq_tail ?d, dv_cq_tail := dv_sq_tail ?d\<rparr>), w_mem := m\<rparr>"
    using guest_ram.timer_step_runs [OF g inv r t _ c, of msi] safe pend by simp
  have dist: "unat (dv_cq_tail ?d - ?h) = k" using full by (simp add: completed_def cqes_at_def k_def)
  then have hk: "dv_cq_tail ?d = ?h + dv_cq_depth ?d" by (metis k_def word_dist_of_nat of_nat_unat ucast_id)
  have one: "dv_sq_tail ?d = dv_cq_tail ?d + 1"
    using arg_cong [OF pend, of length] word_dist_of_nat [of "dv_cq_tail ?d" "dv_sq_tail ?d"] by (simp add: pending_def ct)
  have n: "unat (dv_sq_tail ?d - ?h) = Suc k"
    using unat_dist_Suc [of "dv_cq_tail ?d" ?h] dist is_pow2_le_half [OF p] is_pow2_pos [OF p] by (simp add: one k_def)
  have ca: "cqe_addr (w_dev ?w') = cqe_addr ?d" by (rule ext) (simp add: w' cqe_addr_def)
  have "load m (cqe_addr ?d (dv_cq_tail ?d)) sizeof_cqe = DevCqe_bytes (completion backed e)"
    using guest_ram.complete_all_posted [OF g r c [unfolded pend] b, of 0] safe is_pow2_pos [OF p] by (simp add: Suc_leI)
  then have slot: "load m (cqe_addr ?d ?h) sizeof_cqe = DevCqe_bytes (completion backed e)"
    "load m (cqe_addr ?d (?h + dv_cq_depth ?d)) sizeof_cqe = DevCqe_bytes (completion backed e)"
    using cqe_addr_wraps [OF p] hk by simp_all
  define f where "f i = cqe_of_bytes (load m (cqe_addr ?d (?h + of_nat i)) sizeof_cqe)" for i
  have f: "f 0 = drv_view (completion backed e)" "f k = drv_view (completion backed e)"
    using slot by (simp_all add: f_def k_def)
  have cw: "completed eng ?w' = map f [0..<Suc k]"
    using n ca by (simp add: completed_def cqes_at_def f_def [abs_def]) (simp add: w')
  have "hd (map f [0..<Suc k]) = f 0" by (simp add: hd_map upt_conv_Cons del: upt_Suc)
  moreover have "last (map f [0..<Suc k]) = f k" by simp
  ultimately show ?thesis unfolding cw f by (simp add: k_def)
qed

theorem cq_overrun_loses_completion_witness:
  "map cq_cookie (completed tiny_eng (timer_step True (flat_read all_ram) (flat_write all_ram) tiny_world)) = [0xBAD, 0xBAD]"
proof -
  have "unat (dv_cq_depth (w_dev tiny_world)) = 1" by (simp add: tiny_world_def)
  with cq_overrun_loses_completion [OF flat_ram.guest_ram_axioms tiny_inv(1-3) tiny_pending demo_safe(2) tiny_inv(4), of True]
  show ?thesis
    by (auto simp: length_Suc_conv numeral_2_eq_2 drv_view_def completion_def dev_view_def demo_bad_def)
qed

text \<open>The interrupt handler, with and without a status bit set.\<close>

lemma dma_engine_irq_correct:
  "dma_engine_irq (bus_read (eng_mmio eng)) (bus_write (eng_mmio eng) msi now) eng w =
    (if dv_irq_status (w_dev w) = 0 then (False, w)
     else (True, w\<lparr>w_dev := (w_dev w)\<lparr>dv_irq_status := 0,
                               dv_events := dv_events (w_dev w) @ (if msi then [] else [Pci_Set_Irq False])\<rparr>,
                   w_log := w_log w @ [Wake_Up]\<rparr>))"
  by (simp add: dma_engine_irq_def Let_def log_def dma_engine_lower_irq_def dev_event_def)

text \<open>
  C23: \<^verbatim>\<open>engine_create\<close> on a realized device programs both 64-bit ring addresses through their two
  32-bit registers and both depths, so that the device reports itself ready, identifies itself, and
  engine and device start out agreeing on empty rings.
\<close>

theorem engine_create_correct:
  assumes "a_kzalloc a" and "a_sq a = Some (sq, sq)" and "a_cq a = Some (cq, cq)" and "a_iomap a = Some bar"
    and "sq \<noteq> 0" and "cq \<noteq> 0" and "is_pow2 sqd" and "is_pow2 cqd"
    and "w_dev w = dma_engine_realize 0 dev_zero"
  shows "\<exists>eng w'. engine_create (bus_write bar msi now) a sqd cqd w = Some (eng, w') \<and> sys_inv eng w' \<and>
    submitted eng w' = [] \<and> completed eng w' = [] \<and> eng_mmio eng = bar \<and>
    bus_read bar (w_dev w') (bar + REG_DEVICE_STATUS) = 1 \<and> bus_read bar (w_dev w') (bar + REG_DEVICE_ID) = 0xDEA10001 \<and>
    dv_sq_base (w_dev w') = sq \<and> dv_cq_base (w_dev w') = cq"
  using assms(5-)
  by (simp add: create_programs [OF assms(1-4)] sys_inv_def linked_def dev_inv_def submitted_def
      completed_def cqes_at_def bus_read_def dma_engine_mmio_read_def reg_defs DEVICE_ID_MAGIC_def is_pow2_def
      dma_engine_realize_def dev_event_def dev_zero_def)

theorem engine_create_correct_witness:
  "\<exists>eng w'. engine_create (bus_write 0xF000 True 0)
      \<lparr> a_enable = True, a_kzalloc = True, a_sq = Some (0x1000, 0x1000), a_cq = Some (0x2000, 0x2000), a_iomap = Some 0xF000,
        a_vectors = True, a_irq = True, a_region = True, a_src = None, a_dst = None, a_map_src = None, a_map_dst = None \<rparr> 16 16
      \<lparr> w_dev = dma_engine_realize 0 dev_zero, w_mem = (\<lambda>_. 0), w_log = [], w_drvdata = None \<rparr> = Some (eng, w') \<and>
     bus_read 0xF000 (w_dev w') (0xF000 + REG_DEVICE_STATUS) = 1"
  using engine_create_correct [where a = "\<lparr> a_enable = True, a_kzalloc = True, a_sq = Some (0x1000, 0x1000), a_cq = Some (0x2000, 0x2000),
      a_iomap = Some 0xF000, a_vectors = True, a_irq = True, a_region = True, a_src = None, a_dst = None, a_map_src = None, a_map_dst = None \<rparr>" and sq = "0x1000" and cq = "0x2000"
      and bar = "0xF000" and sqd = 16 and cqd = 16 and msi = True and now = 0 and
      w = "\<lparr> w_dev = dma_engine_realize 0 dev_zero, w_mem = (\<lambda>_. 0), w_log = [], w_drvdata = None \<rparr>"]
  by (auto simp: is_pow2_def)

text \<open>
  C24: Driver and device agree on their interface. The 24 bytes the driver stores for an entry read back
  in the device as the same cookie, address, length and operation, and the 16 bytes the device writes
  for a completion read back in the driver unchanged; the operation codes, the register offsets, the
  identification value and the buffer size of \<^verbatim>\<open>nic.h\<close> are those of the device; and the driver's table names
  the PCI identifiers the device's class sets, QEMU's vendor identifier being \<^verbatim>\<open>0x1234\<close>. (The README describes another
  entry, of 32 bytes with a source and a destination address, and operations numbered from 0; neither side has it.)
\<close>

theorem descriptor_layouts_agree:
  "length (sqe_bytes e) = 24 \<and> length (DevCqe_bytes c) = 16 \<and>
   DevSqe_of_bytes (sqe_bytes e) = \<lparr> ds_cookie = cookie e, ds_buf_addr = buf_addr e, ds_len = len_t e, ds_op = op e \<rparr> \<and>
   cqe_of_bytes (DevCqe_bytes c) =
     \<lparr> cq_cookie = dc_cookie c, status = dc_status c, bytes_xferred = dc_bytes_xferred c \<rparr> \<and>
   DMA_OP_TX = OP_TX \<and> DMA_OP_RX = OP_RX \<and>
   NIC_DEVICE_ID_MAGIC = DEVICE_ID_MAGIC \<and> NIC_DEV_BUF_SIZE = DEV_BUF_SIZE \<and>
   dma_engine_mmio_read s NIC_REG_DEVICE_ID = NIC_DEVICE_ID_MAGIC \<and>
   [NIC_REG_DEVICE_ID, NIC_REG_DEVICE_STATUS, NIC_REG_SQ_BASE_LO, NIC_REG_SQ_BASE_HI, NIC_REG_CQ_BASE_LO,
    NIC_REG_CQ_BASE_HI, NIC_REG_SQ_DEPTH, NIC_REG_CQ_DEPTH, NIC_REG_SQ_DOORBELL, NIC_REG_IRQ_STATUS,
    NIC_REG_IRQ_ACK, NIC_REG_SQ_HEAD, NIC_REG_CQ_TAIL] =
   [REG_DEVICE_ID, REG_DEVICE_STATUS, REG_SQ_BASE_LO, REG_SQ_BASE_HI, REG_CQ_BASE_LO,
    REG_CQ_BASE_HI, REG_SQ_DEPTH, REG_CQ_DEPTH, REG_SQ_DOORBELL, REG_IRQ_STATUS,
    REG_IRQ_ACK, REG_SQ_HEAD, REG_CQ_TAIL] \<and>
   hd (drv_id_table (dma_engine_pci_driver ior iow we hz)) =
     (pc_vendor_id (dma_engine_class_init 0x1234 others k), pc_device_id (dma_engine_class_init 0x1234 others k))"
  by (simp add: dev_view_def drv_view_def sizeof_sqe_def sizeof_cqe_def DMA_OP_TX_def DMA_OP_RX_def OP_TX_def OP_RX_def
      NIC_DEVICE_ID_MAGIC_def DEVICE_ID_MAGIC_def NIC_DEV_BUF_SIZE_def DEV_BUF_SIZE_def dma_engine_mmio_read_def
      dma_engine_pci_driver_def dma_engine_pci_ids_def DMA_ENGINE_VENDOR_ID_def DMA_ENGINE_DEVICE_ID_def
      dma_engine_class_init_def)

end
