(* ===== verification/Nic_Probe.thy ===== *)
theory Nic_Probe
  imports Dma_Properties
begin

text \<open>
  The probe function of the driver against the device: the smoke test passes on a working system, and
  on every outcome the kernel resources balance. What is assumed of
  \<^verbatim>\<open>wait_event_interruptible_timeout\<close> is stated by the three predicates below.
\<close>

section \<open>Definitions\<close>

text \<open>
  A wait whose condition is false, and becomes true when the device's timer expires and its interrupt
  is handled, returns a positive value at that moment (the timer is armed for a millisecond, the
  waits of the probe are for two seconds).
\<close>

definition prompt_wait ::
  "DmaEngineState wait_event \<Rightarrow> bool \<Rightarrow> int \<Rightarrow> dma_rd \<Rightarrow> dma_wr \<Rightarrow> u64 \<Rightarrow> bool" where
  "prompt_wait we msi now rd wr bar \<longleftrightarrow>
     (\<forall>eng c t w. eng_mmio eng = bar \<and> 0 < t \<and> \<not> c w \<and> c (device_turn msi now rd wr eng w) \<longrightarrow>
        0 < fst (we c t w) \<and> snd (we c t w) = device_turn msi now rd wr eng w)"

text \<open>A positive return value means that the condition holds.\<close>

definition sound_wait :: "'d wait_event \<Rightarrow> bool" where
  "sound_wait we \<longleftrightarrow> (\<forall>c t w. 0 < fst (we c t w) \<longrightarrow> c (snd (we c t w)))"

text \<open>During a wait the driver's own resources stay as they are; handlers may wake the queue.\<close>

definition quiet_wait :: "'d wait_event \<Rightarrow> bool" where
  "quiet_wait we \<longleftrightarrow>
     (\<forall>c t w. (\<exists>k. w_log (snd (we c t w)) = w_log w @ replicate k Wake_Up) \<and>
        w_drvdata (snd (we c t w)) = w_drvdata w)"

text \<open>Every allocation of the probe succeeds, and CPU and bus addresses name the same memory.\<close>

definition answers_ok :: "answers \<Rightarrow> u64 \<Rightarrow> u64 \<Rightarrow> u64 \<Rightarrow> u64 \<Rightarrow> u64 \<Rightarrow> bool" where
  "answers_ok a sq cq bar src dst \<longleftrightarrow>
     a_enable a \<and> a_vectors a \<and> a_irq a \<and> a_region a \<and> a_kzalloc a \<and> a_sq a = Some (sq, sq) \<and> a_cq a = Some (cq, cq) \<and> a_iomap a = Some bar \<and>
     a_src a = Some src \<and> a_dst a = Some dst \<and> a_map_src a = Some src \<and> a_map_dst a = Some dst"

text \<open>Five pieces of RAM that do not overlap: two rings of 16 entries, the two buffers.\<close>

definition memory_ok :: "(u64 \<Rightarrow> nat \<Rightarrow> bool) \<Rightarrow> u64 \<Rightarrow> u64 \<Rightarrow> u64 \<Rightarrow> u64 \<Rightarrow> bool" where
  "memory_ok backed sq cq src dst \<longleftrightarrow>
     (\<forall>i. backed (sq + ucast ((i::u32) AND 15) * of_nat sizeof_sqe) sizeof_sqe) \<and>
     (\<forall>i. backed (cq + ucast ((i::u32) AND 15) * of_nat sizeof_cqe) sizeof_cqe) \<and>
     backed src 18 \<and> backed dst 18 \<and>
     apart sq 384 cq 256 \<and> apart sq 384 src 64 \<and> apart sq 384 dst 64 \<and>
     apart cq 256 src 64 \<and> apart cq 256 dst 64 \<and> apart src 64 dst 64"

text \<open>The memory and buffers of a prepared smoke test.\<close>

definition smoke_ready :: "(u64 \<Rightarrow> nat \<Rightarrow> bool) \<Rightarrow> engine_t \<Rightarrow> u64 \<Rightarrow> u64 \<Rightarrow> sysw \<Rightarrow> bool" where
  "smoke_ready backed eng src dst w \<longleftrightarrow>
     sys_inv eng w \<and> rings_ok backed (w_dev w) \<and> submitted eng w = [] \<and> completed eng w = [] \<and>
     backed src 18 \<and> backed dst 18 \<and> apart src 18 dst 18 \<and> load (w_mem w) src 18 = hello \<and>
     (\<forall>a \<in> {src, dst}. apart (dv_sq_base (w_dev w)) (unat (dv_sq_depth (w_dev w)) * sizeof_sqe) a 18 \<and>
        apart (dv_cq_base (w_dev w)) (unat (dv_cq_depth (w_dev w)) * sizeof_cqe) a 18)"

text \<open>An implementation of the wait, and a system for it.\<close>

definition turn_wait :: "bool \<Rightarrow> int \<Rightarrow> dma_rd \<Rightarrow> dma_wr \<Rightarrow> u64 \<Rightarrow> DmaEngineState wait_event" where
  "turn_wait msi now rd wr bar c t w =
     (let w' = device_turn msi now rd wr (demo_eng\<lparr>eng_mmio := bar\<rparr>) w in
      if c w then (t, w) else if c w' then (1, w') else (0, w))"

definition probe_answers :: answers where
  "probe_answers = \<lparr> a_enable = True, a_kzalloc = True, a_sq = Some (0x1000, 0x1000), a_cq = Some (0x2000, 0x2000), a_iomap = Some 0xF000,
     a_vectors = True, a_irq = True, a_region = True, a_src = Some 0x3000, a_dst = Some 0x4000, a_map_src = Some 0x3000, a_map_dst = Some 0x4000 \<rparr>"

definition fresh_world :: sysw where
  "fresh_world = \<lparr> w_dev = dma_engine_realize 0 dev_zero, w_mem = (\<lambda>_. 0), w_log = [], w_drvdata = None \<rparr>"

text \<open>A device that never answers: every wait times out.\<close>

definition dead_wait :: "'d wait_event" where
  "dead_wait c t w = (0, w)"

text \<open>A wait that does not wait: it returns the timeout when the condition holds already.\<close>

definition ready_wait :: "'d wait_event" where
  "ready_wait c t w = (if c w then (t, w) else (0, w))"

section \<open>One round of the smoke test\<close>

lemma device_turn_mmio: "eng_mmio e = eng_mmio e' \<Longrightarrow> device_turn msi now rd wr e w = device_turn msi now rd wr e' w"
  by (simp add: device_turn_def dma_engine_irq_def Let_def)

lemma prompt_waitD:
  assumes "prompt_wait we msi now rd wr bar" "eng_mmio eng = bar" "0 < t" "\<not> c w" "c (device_turn msi now rd wr eng w)"
  shows "0 < fst (we c t w) \<and> snd (we c t w) = device_turn msi now rd wr eng w"
  using assms unfolding prompt_wait_def by blast

lemma completed_empty: "completed eng w = [] \<longleftrightarrow> dv_cq_tail (w_dev w) = eng_cq_head eng"
  by (auto simp: completed_def cqes_at_def unat_eq_0)

text \<open>What the device's turn does to memory, device buffer and log, for one announced entry.\<close>

lemma turn_one_entry:
  fixes msi :: bool and now :: int
  assumes g: "guest_ram rd wr backed" and inv: "sys_inv eng w" and r: "rings_ok backed (w_dev w)"
    and q: "submitted eng w = [e]" and safe: "rx_safe (w_dev w) e"
    and c: "complete_all rd wr (cqe_addr (w_dev w)) (dv_cq_tail (w_dev w)) [e] (dv_dev_buf (w_dev w)) (w_mem w) = (cs, buf, m)"
  defines "w' \<equiv> device_turn msi now rd wr eng (engine_doorbell (bus_write (eng_mmio eng) msi now) eng w)"
  shows "w_mem w' = m" "dv_dev_buf (w_dev w') = buf" "w_log w' = w_log w @ [Wake_Up]" "w_drvdata w' = w_drvdata w"
    "rings_ok backed (w_dev w')"
proof -
  let ?b = "engine_doorbell (bus_write (eng_mmio eng) msi now) eng w"
  have lk: "linked eng (w_dev w)" using inv by (simp add: sys_inv_def)
  have ib: "sys_inv eng ?b" using guest_ram.sys_step_inv [OF g sys_step.doorbell inv] .
  have rb: "rings_ok backed (w_dev ?b)" by (rule rings_ok_mono [OF r]) simp_all
  have tb: "dv_dma_timer (w_dev ?b) = T_Armed (now + 1000000)" by simp
  have pb: "pending (w_dev ?b) (w_mem ?b) = [e]" using doorbell_pending [OF lk, of msi now] q by simp
  have addr: "cqe_addr (w_dev ?b) = cqe_addr (w_dev w)" by (rule ext) (simp add: cqe_addr_def)
  have sb: "\<forall>e \<in> set (pending (w_dev ?b) (w_mem ?b)). rx_safe (w_dev ?b) e"
    unfolding pb using safe rx_safe_cong [of "w_dev ?b" "w_dev w"] by simp
  have cb: "complete_all rd wr (cqe_addr (w_dev ?b)) (dv_cq_tail (w_dev ?b)) (pending (w_dev ?b) (w_mem ?b))
      (dv_dev_buf (w_dev ?b)) (w_mem ?b) = (cs, buf, m)"
    unfolding pb addr using c by simp
  have st: "dv_irq_status (dma_engine_raise_irq msi d) \<noteq> 0" for d by (rule raise_irq_nonzero)
  have t: "timer_step msi rd wr ?b = ?b\<lparr>w_dev := dma_engine_raise_irq msi ((w_dev ?b)\<lparr>dv_dma_timer := T_Idle,
      dv_dev_buf := buf, dv_sq_head := dv_sq_tail (w_dev ?b), dv_cq_tail := dv_sq_tail (w_dev ?b)\<rparr>), w_mem := m\<rparr>"
    using guest_ram.timer_step_runs [OF g ib rb tb sb cb, of msi] pb by simp
  note fr = irq_frame_world [where w = "timer_step msi rd wr ?b" and eng = eng and msi = msi and now = now, folded device_turn_def]
  show "w_mem w' = m" "dv_dev_buf (w_dev w') = buf" unfolding w'_def fr by (simp_all add: t)
  show "w_log w' = w_log w @ [Wake_Up]" "w_drvdata w' = w_drvdata w"
    unfolding w'_def device_turn_def t using st
    by (simp_all add: dma_engine_irq_def Let_def log_def) (simp add: engine_doorbell_def)
  show "rings_ok backed (w_dev w')" unfolding w'_def fr by (rule rings_ok_mono [OF r]) (simp_all add: t)
qed

lemma smoke_round_ok:
  assumes g: "guest_ram rd wr backed" and inv: "sys_inv eng w" and r: "rings_ok backed (w_dev w)"
    and idle: "submitted eng w = []" "completed eng w = []" and safe: "rx_safe (w_dev w) (dev_view sqe)"
    and we: "prompt_wait we msi now rd wr (eng_mmio eng)" and t: "0 < t"
    and c: "complete_all rd wr (cqe_addr (w_dev w)) (dv_cq_tail (w_dev w)) [dev_view sqe] (dv_dev_buf (w_dev w))
      (store (w_mem w) (sqe_addr (w_dev w) (eng_sq_tail eng)) (sqe_bytes sqe)) = (cs, buf, m)"
  shows "\<exists>eng' w'. smoke_round (bus_read (eng_mmio eng)) (bus_write (eng_mmio eng) msi now) we t eng sqe w =
      Some (status_of backed (dev_view sqe) = 0, eng', w') \<and> sys_inv eng' w' \<and> rings_ok backed (w_dev w') \<and>
    submitted eng' w' = [] \<and> completed eng' w' = [] \<and> w_mem w' = m \<and> dv_dev_buf (w_dev w') = buf \<and>
    w_log w' = w_log w @ [Wake_Up] \<and> w_drvdata w' = w_drvdata w \<and> eng_mmio eng' = eng_mmio eng \<and>
    dv_sq_base (w_dev w') = dv_sq_base (w_dev w) \<and> dv_cq_base (w_dev w') = dv_cq_base (w_dev w) \<and>
    dv_sq_depth (w_dev w') = dv_sq_depth (w_dev w) \<and> dv_cq_depth (w_dev w') = dv_cq_depth (w_dev w)"
proof -
  define eng1 where "eng1 = eng\<lparr>eng_sq_tail := eng_sq_tail eng + 1\<rparr>"
  have m1: "eng_mmio eng1 = eng_mmio eng" "eng_cq_head eng1 = eng_cq_head eng" by (simp_all add: eng1_def)
  have "0 < unat (eng_sq_depth eng)" and cqd: "0 < unat (dv_cq_depth (w_dev w))"
    using inv is_pow2_pos by (auto simp: sys_inv_def linked_def)
  then obtain w1 where s: "engine_submit (bus_read (eng_mmio eng)) eng sqe w = Some (0, eng1, w1)"
    and w1: "w1 = w\<lparr>w_mem := store (w_mem w) (sqe_addr (w_dev w) (eng_sq_tail eng)) (sqe_bytes sqe)\<rparr>"
    and i1: "sys_inv eng1 w1" and q1: "submitted eng1 w1 = [dev_view sqe]"
    using submit_appends [OF inv, of sqe] idle(1) by (auto simp: eng1_def)
  have d1: "w_dev w1 = w_dev w" by (simp add: w1)
  have c1: "completed eng1 w1 = []" using idle(2) by (simp add: completed_empty d1 m1)
  let ?b = "engine_doorbell (bus_write (eng_mmio eng1) msi now) eng1 w1"
  let ?w2 = "device_turn msi now rd wr eng1 ?b"
  have "rings_ok backed (w_dev w1)" "rx_safe (w_dev w1) (dev_view sqe)" using r safe by (simp_all add: d1)
  note turn = doorbell_turn [OF g i1 this(1), of msi now, unfolded q1 c1]
    and one = turn_one_entry [OF g i1 this(1) q1 this(2), of cs buf m msi now]
  have c2: "completed eng1 ?w2 = [drv_view (completion backed (dev_view sqe))]" and o: "submitted eng1 ?w2 = []" "sys_inv eng1 ?w2"
    using turn safe cqd by (simp_all add: d1)
  let ?c = "\<lambda>w::sysw. bus_read (eng_mmio eng) (w_dev w) (eng_mmio eng1 + REG_CQ_TAIL) \<noteq> eng_cq_head eng1"
  have "\<not> ?c ?b" using idle(2) by (simp add: m1 completed_empty d1 engine_doorbell_def)
  moreover have "completed eng1 ?w2 \<noteq> []" using c2 by simp
  then have "?c ?w2" unfolding completed_empty by (simp add: m1)
  ultimately have "0 < fst (we ?c t ?b) \<and> snd (we ?c t ?b) = ?w2"
    by (intro prompt_waitD [OF we m1(1) t])
  then have wt: "engine_wait (bus_read (eng_mmio eng)) we eng1 t ?b = (0, ?w2)"
    by (simp add: engine_wait_def case_prod_beta)
  have lk: "linked eng1 (w_dev ?w2)" using o(2) by (simp add: sys_inv_def)
  from drain_takes [OF lk, of 1] c2 obtain eng2 where
    e2: "engine_drain (bus_read (eng_mmio eng)) eng1 1 ?w2 = Some (1, [drv_view (completion backed (dev_view sqe))], eng2)"
    "eng2 = eng1\<lparr>eng_cq_head := eng_cq_head eng1 + 1\<rparr>" "completed eng2 ?w2 = []"
    by (auto simp: m1)
  have "smoke_round (bus_read (eng_mmio eng)) (bus_write (eng_mmio eng) msi now) we t eng sqe w =
      Some (status_of backed (dev_view sqe) = 0, eng2, ?w2)"
    using s wt e2(1) by (simp add: smoke_round_def m1 Let_def drv_view_def completion_def)
  moreover have "sys_inv eng2 ?w2" "submitted eng2 ?w2 = []" "eng_mmio eng2 = eng_mmio eng"
    using o e2(2) by (simp_all add: sys_inv_def linked_def submitted_def m1)
  moreover have "dv_sq_base (w_dev ?w2) = dv_sq_base (w_dev w)" "dv_cq_base (w_dev ?w2) = dv_cq_base (w_dev w)"
    "dv_sq_depth (w_dev ?w2) = dv_sq_depth (w_dev w)" "dv_cq_depth (w_dev ?w2) = dv_cq_depth (w_dev w)"
    using lk i1 by (simp_all add: sys_inv_def linked_def d1)
  moreover have "complete_all rd wr (cqe_addr (w_dev w1)) (dv_cq_tail (w_dev w1)) [dev_view sqe] (dv_dev_buf (w_dev w1)) (w_mem w1) = (cs, buf, m)"
    using c by (simp add: w1)
  note one = one [OF this]
  ultimately show ?thesis using e2(3) by (intro exI [of _ eng2] exI [of _ ?w2]) (simp add: one d1 w1)
qed

section \<open>The two rounds\<close>

lemma apart_mono: "apart a n b k \<Longrightarrow> n' \<le> n \<Longrightarrow> k' \<le> k \<Longrightarrow> apart a n' b k'"
  by (auto simp: apart_def)

lemma clamp_18: "unat (clamp_len 18) = 18"
  by (simp add: clamp_len_def DEV_BUF_SIZE_def)

lemma tx_completes:
  assumes "guest_ram rd wr backed" "rings_ok backed d" "backed src 18"
  shows "\<exists>cs bs. complete_all rd wr (cqe_addr d) t [dev_view (tx_sqe src)] buf m =
      (cs, load m src 18 @ drop 18 buf, store m (cqe_addr d t) bs) \<and> length bs = sizeof_cqe"
proof -
  have "data_dma rd wr (dev_view (tx_sqe src)) buf m = (0, load m src 18 @ drop 18 buf, m)"
    using guest_ram.rd_ok [OF assms(1,3)]
    by (simp add: data_dma_def dev_view_def tx_sqe_def DMA_OP_TX_def OP_TX_def clamp_18 Let_def)
  moreover have "wr m (cqe_addr d t) (DevCqe_bytes c) = (0, store m (cqe_addr d t) (DevCqe_bytes c))" for c
    using assms(2) by (intro guest_ram.wr_ok [OF assms(1)]) (simp add: rings_ok_def)
  ultimately show ?thesis by (auto simp: Let_def)
qed

lemma rx_completes:
  assumes "guest_ram rd wr backed" "rings_ok backed d" "backed dst 18" "18 \<le> length buf"
  shows "\<exists>cs bs. complete_all rd wr (cqe_addr d) t [dev_view (rx_sqe dst)] buf m =
      (cs, buf, store (store m dst (take 18 buf)) (cqe_addr d t) bs) \<and> length bs = sizeof_cqe"
proof -
  have "data_dma rd wr (dev_view (rx_sqe dst)) buf m = (0, buf, store m dst (take 18 buf))"
    using guest_ram.wr_ok [OF assms(1), of dst "take 18 buf" m] assms(3,4)
    by (simp add: data_dma_def dev_view_def rx_sqe_def DMA_OP_RX_def OP_RX_def OP_TX_def clamp_18 Let_def min_absorb2)
  moreover have "wr m (cqe_addr d t) (DevCqe_bytes c) = (0, store m (cqe_addr d t) (DevCqe_bytes c))" for c m
    using assms(2) by (intro guest_ram.wr_ok [OF assms(1)]) (simp add: rings_ok_def)
  ultimately show ?thesis by (auto simp: Let_def)
qed

text \<open>Stores into ring slots do not reach a buffer outside the rings.\<close>

lemma slot_stores:
  assumes "rings_ok backed d"
  shows "apart (dv_sq_base d) (unat (dv_sq_depth d) * sizeof_sqe) a n \<Longrightarrow>
      load (store m (sqe_addr d i) (sqe_bytes e)) a n = load m a n"
    and "apart (dv_cq_base d) (unat (dv_cq_depth d) * sizeof_cqe) a n \<Longrightarrow> length bs = sizeof_cqe \<Longrightarrow>
      load (store m (cqe_addr d i) bs) a n = load m a n"
  using assms sqe_addr_apart [of d a n i] cqe_addr_apart [of d a n i]
  by (simp_all add: load_store_apart rings_ok_def apart_sym [of a])

lemma status_tx_rx:
  "backed src 18 \<Longrightarrow> status_of backed (dev_view (tx_sqe src)) = 0"
  "backed dst 18 \<Longrightarrow> status_of backed (dev_view (rx_sqe dst)) = 0"
  by (simp_all add: status_of_def xfer_len_def dev_view_def tx_sqe_def rx_sqe_def DMA_OP_TX_def DMA_OP_RX_def)

lemma smoke_tx:
  assumes g: "guest_ram rd wr backed" and s: "smoke_ready backed eng src dst w"
    and we: "prompt_wait we msi now rd wr (eng_mmio eng)" and t: "0 < t"
  shows "\<exists>eng' w'. smoke_round (bus_read (eng_mmio eng)) (bus_write (eng_mmio eng) msi now) we t eng (tx_sqe src) w =
      Some (True, eng', w') \<and> smoke_ready backed eng' src dst w' \<and> take 18 (dv_dev_buf (w_dev w')) = hello \<and>
    w_log w' = w_log w @ [Wake_Up] \<and> w_drvdata w' = w_drvdata w \<and> eng_mmio eng' = eng_mmio eng"
proof -
  note [simp] = s [unfolded smoke_ready_def]
  let ?m = "store (w_mem w) (sqe_addr (w_dev w) (eng_sq_tail eng)) (sqe_bytes (tx_sqe src))"
  have r: "rings_ok backed (w_dev w)" by simp
  obtain cs bs where c: "complete_all rd wr (cqe_addr (w_dev w)) (dv_cq_tail (w_dev w)) [dev_view (tx_sqe src)] (dv_dev_buf (w_dev w)) ?m =
      (cs, load ?m src 18 @ drop 18 (dv_dev_buf (w_dev w)), store ?m (cqe_addr (w_dev w) (dv_cq_tail (w_dev w))) bs)"
    and bs: "length bs = sizeof_cqe"
    using tx_completes [OF g r, of src] by auto blast
  have l: "load ?m src 18 = hello" using slot_stores(1) [OF r] by simp
  then have l': "load (store ?m (cqe_addr (w_dev w) (dv_cq_tail (w_dev w))) bs) src 18 = hello"
    using slot_stores(2) [OF r _ bs] by simp
  have safe: "rx_safe (w_dev w) (dev_view (tx_sqe src))"
    by (simp add: rx_safe_def dev_view_def tx_sqe_def DMA_OP_TX_def OP_RX_def Let_def)
  have st: "status_of backed (dev_view (tx_sqe src)) = 0" by (rule status_tx_rx) simp
  from smoke_round_ok [OF g _ r _ _ safe we t c [unfolded l]] st l' show ?thesis
    by (auto simp: smoke_ready_def hello_def)
qed

lemma smoke_rx:
  assumes g: "guest_ram rd wr backed" and s: "smoke_ready backed eng src dst w"
    and b: "take 18 (dv_dev_buf (w_dev w)) = hello"
    and we: "prompt_wait we msi now rd wr (eng_mmio eng)" and t: "0 < t"
  shows "\<exists>eng' w'. smoke_round (bus_read (eng_mmio eng)) (bus_write (eng_mmio eng) msi now) we t eng (rx_sqe dst) w =
      Some (True, eng', w') \<and> load (w_mem w') src 18 = hello \<and> load (w_mem w') dst 18 = hello \<and>
    w_log w' = w_log w @ [Wake_Up] \<and> w_drvdata w' = w_drvdata w"
proof -
  note [simp] = s [unfolded smoke_ready_def]
  let ?m = "store (w_mem w) (sqe_addr (w_dev w) (eng_sq_tail eng)) (sqe_bytes (rx_sqe dst))"
  have r: "rings_ok backed (w_dev w)" by simp
  have lb: "18 \<le> length (dv_dev_buf (w_dev w))" and lh: "length hello = 18"
    using b by (auto simp: hello_def dest!: arg_cong [of _ _ length])
  obtain cs bs where c: "complete_all rd wr (cqe_addr (w_dev w)) (dv_cq_tail (w_dev w)) [dev_view (rx_sqe dst)] (dv_dev_buf (w_dev w)) ?m =
      (cs, dv_dev_buf (w_dev w), store (store ?m dst hello) (cqe_addr (w_dev w) (dv_cq_tail (w_dev w))) bs)"
    and bs: "length bs = sizeof_cqe"
    using rx_completes [OF g r _ lb, of dst "dv_cq_tail (w_dev w)" ?m] b by auto
  have "load (store ?m dst hello) src 18 = hello" "load (store ?m dst hello) dst 18 = hello"
    using slot_stores(1) [OF r] lh by (simp_all add: load_store_apart load_store_same)
  then have l: "load (store (store ?m dst hello) (cqe_addr (w_dev w) (dv_cq_tail (w_dev w))) bs) src 18 = hello"
    "load (store (store ?m dst hello) (cqe_addr (w_dev w) (dv_cq_tail (w_dev w))) bs) dst 18 = hello"
    using slot_stores(2) [OF r _ bs] by simp_all
  have safe: "rx_safe (w_dev w) (dev_view (rx_sqe dst))"
    by (simp add: rx_safe_def dev_view_def rx_sqe_def clamp_18 Let_def)
  have st: "status_of backed (dev_view (rx_sqe dst)) = 0" by (rule status_tx_rx) simp
  from smoke_round_ok [OF g _ r _ _ safe we t c] st l show ?thesis by auto
qed

section \<open>Setup and logs\<close>

lemma probe_setup_ready:
  assumes a: "answers_ok a sq cq bar src dst" and m: "memory_ok backed sq cq src dst"
    and d: "w_dev w = dma_engine_realize 0 dev_zero"
  shows "\<exists>eng w'. probe_setup (bus_write bar msi now) a w = Some (eng, src, dst, w') \<and>
    smoke_ready backed eng src dst w' \<and> eng_mmio eng = bar \<and> w_drvdata w' = Some eng \<and>
    w_log w' = w_log w @ [Acquire R_Enable, Acquire R_Master, Acquire R_Engine, Acquire R_Sq, Acquire R_Cq, Acquire R_Iomap,
      Acquire R_Vectors, Acquire R_Irq, Set_Drvdata True, Acquire R_Region, Acquire R_Src, Acquire R_Dst,
      Acquire R_Map_Src, Acquire R_Map_Dst]"
proof -
  have k: "a_kzalloc a" "a_sq a = Some (sq, sq)" "a_cq a = Some (cq, cq)" "a_iomap a = Some bar" "a_src a = Some src" "a_dst a = Some dst"
    "a_enable a" "a_vectors a" "a_irq a" "a_region a" "a_map_src a = Some src" "a_map_dst a = Some dst"
    using a by (simp_all add: answers_ok_def)
  have lh: "length hello = 18" by (simp add: hello_def)
  have "apart src 18 dst 64" "apart src 18 dst 18" using m by (auto simp: memory_ok_def intro: apart_mono)
  then have "load (store (store (w_mem w) src hello) dst (replicate 64 0)) src 18 = hello"
    using lh by (simp add: load_store_apart load_store_same)
  moreover have "apart sq 384 src 18" "apart sq 384 dst 18" "apart cq 256 src 18" "apart cq 256 dst 18"
    using m by (auto simp: memory_ok_def intro: apart_mono)
  ultimately show ?thesis
    using m \<open>apart src 18 dst 18\<close>
    by (simp add: probe_setup_def create_programs [OF k(1-4)] k log_def acquire_def Let_def smoke_ready_def sys_inv_def linked_def
        dev_inv_def rings_ok_def submitted_def completed_empty d dma_engine_realize_def dev_event_def dev_zero_def
        is_pow2_def sqe_addr_def cqe_addr_def memory_ok_def)
      (simp add: sizeof_sqe_def sizeof_cqe_def)
qed

lemma held_append: "held rs (xs @ ys) = held (held rs xs) ys"
  by (induction rs xs rule: held.induct) auto

lemma held_wakes [simp]: "held rs (replicate k Wake_Up @ ys) = held rs ys" "held rs (replicate k Wake_Up) = rs"
  by (induction k) auto

lemma releases_ok_append: "releases_ok rs (xs @ ys) \<longleftrightarrow> releases_ok rs xs \<and> releases_ok (held rs xs) ys"
  by (induction rs xs rule: held.induct) auto

lemma releases_ok_wakes [simp]: "releases_ok rs (replicate k Wake_Up @ ys) = releases_ok rs ys" "releases_ok rs (replicate k Wake_Up)"
  by (induction k) auto

text \<open>Whatever device and kernel do, a round only adds wake-ups to the log.\<close>

lemma smoke_round_log:
  assumes "quiet_wait we" "smoke_round ior iow we t eng sqe w = Some (ok, eng', w')"
  shows "(\<exists>k. w_log w' = w_log w @ replicate k Wake_Up) \<and> w_drvdata w' = w_drvdata w"
proof -
  obtain rc eng1 w1 where s: "engine_submit ior eng sqe w = Some (rc, eng1, w1)"
    using assms(2) by (auto simp: smoke_round_def split: bind_splits)
  then have l: "w_log w1 = w_log w" "w_drvdata w1 = w_drvdata w"
    by (auto simp: engine_submit_def Let_def split: if_splits option.splits)
  let ?b = "engine_doorbell iow eng1 w1"
  have w': "w' = snd (we (\<lambda>w. ior (w_dev w) (eng_mmio eng1 + REG_CQ_TAIL) \<noteq> eng_cq_head eng1) t ?b)"
    using assms(2) s by (auto simp: smoke_round_def engine_wait_def case_prod_beta Let_def split: if_splits bind_splits)
  have "w_log ?b = w_log w1" "w_drvdata ?b = w_drvdata w1" by (simp_all add: engine_doorbell_def)
  then show ?thesis unfolding w' using assms(1) l unfolding quiet_wait_def by metis
qed

text \<open>What is acquired before the first round, depending on which calls succeed.\<close>

definition setup_log :: "answers \<Rightarrow> log_event list" where
  "setup_log a = acquire (a_enable a) R_Enable @ [Acquire R_Master, Acquire R_Engine] @ acquire (a_sq a \<noteq> None) R_Sq @
     acquire (a_cq a \<noteq> None) R_Cq @ [Acquire R_Iomap] @ acquire (a_vectors a) R_Vectors @ acquire (a_irq a) R_Irq @
     [Set_Drvdata True] @ acquire (a_region a) R_Region @ [Acquire R_Src, Acquire R_Dst] @
     acquire (a_map_src a \<noteq> None) R_Map_Src @ acquire (a_map_dst a \<noteq> None) R_Map_Dst"

lemma probe_setup_log:
  assumes "probe_setup iow a w = Some (eng, src, dst, w')"
  shows "w_log w' = w_log w @ setup_log a"
  using assms
  by (auto simp: probe_setup_def engine_create_def setup_log_def log_def Let_def split: bind_splits if_splits option.splits)

text \<open>How often a single resource is held after a log.\<close>

fun held_count :: "resource \<Rightarrow> nat \<Rightarrow> log_event list \<Rightarrow> nat" where
  "held_count r n [] = n"
| "held_count r n (Acquire r' # es) = held_count r (if r' = r then n + 1 else n) es"
| "held_count r n (Release r' # es) = held_count r (if r' = r then n - 1 else n) es"
| "held_count r n (_ # es) = held_count r n es"

lemma count_list_held: "count_list (held rs es) r = held_count r (count_list rs r) es"
proof -
  have "count_list (remove1 x xs) r = (if x = r then count_list xs r - 1 else count_list xs r)" for x and xs :: "resource list"
    by (induction xs) auto
  then show ?thesis by (induction rs es rule: held.induct) (auto simp: count_list_append)
qed

lemma held_nothing: "held [] es = [] \<longleftrightarrow> (\<forall>r. held_count r 0 es = 0)"
  using count_list_held [of "[]" es] by (metis count_list.simps(1) count_list_0_iff last_in_set)

lemma held_count_parts [simp]:
  "held_count r n (acquire c r' @ es) = held_count r (if c \<and> r' = r then n + 1 else n) es"
  "held_count r n (acquire c r') = (if c \<and> r' = r then n + 1 else n)"
  "held_count r n (replicate k Wake_Up @ es) = held_count r n es" "held_count r n (replicate k Wake_Up) = n"
  by (auto simp: acquire_def) (induction k; simp)+

text \<open>
  The logs a probe can leave behind, \<^verbatim>\<open>remove\<close> included: the first round fails, the second one does, the comparison
  does, or everything succeeds.
\<close>

abbreviation wakes :: "nat \<Rightarrow> log_event list" where "wakes k \<equiv> replicate k Wake_Up"

definition free_log :: "log_event list" where
  "free_log = [Release R_Irq, Release R_Vectors, Release R_Sq, Release R_Cq, Release R_Master,
     Release R_Iomap, Release R_Region, Release R_Enable, Release R_Engine]"

definition probe_logs :: "answers \<Rightarrow> nat \<Rightarrow> nat \<Rightarrow> log_event list set" where
  "probe_logs a k1 k2 =
    {setup_log a @ wakes k1 @ [Release R_Map_Src, Release R_Map_Dst, Release R_Src, Release R_Dst] @ free_log @ [Set_Drvdata False],
     setup_log a @ wakes k1 @ [Release R_Map_Src] @ wakes k2 @ [Release R_Map_Dst, Release R_Src, Release R_Dst] @ free_log @ [Set_Drvdata False],
     setup_log a @ wakes k1 @ [Release R_Map_Src] @ wakes k2 @ [Release R_Map_Dst, Release R_Src, Release R_Dst] @ free_log}"

lemma dma_map_single_nonzero: "x \<noteq> Some 0 \<Longrightarrow> dma_map_single x \<noteq> 0"
  by (cases x) (simp_all add: dma_map_single_def DMA_MAPPING_ERROR_def)

lemma probe_exits:
  assumes we: "quiet_wait we" and l: "w_log w = []" and p: "dma_engine_probe ior iow we hz a w = Some (rc, w')"
    and a: "a_map_src a \<noteq> Some 0" "a_map_dst a \<noteq> Some 0"
  shows "\<exists>k1 k2. w_log (dma_engine_remove w') \<in> probe_logs a k1 k2 \<and> (rc = 0 \<or> rc = - EIO) \<and> (rc = - EIO \<longrightarrow> w_drvdata w' = None)"
proof -
  note nz = dma_map_single_nonzero [OF a(1)] dma_map_single_nonzero [OF a(2)]
  note defs = err_free_def err_unmap_def engine_destroy_def log_def dma_engine_remove_def probe_logs_def free_log_def EIO_def
  let ?src = "dma_map_single (a_map_src a)" and ?dst = "dma_map_single (a_map_dst a)"
  obtain eng src dst w0 where s0: "probe_setup iow a w = Some (eng, src, dst, w0)"
    using p by (auto simp: dma_engine_probe_def split: bind_splits)
  have l0: "w_log w0 = setup_log a" using probe_setup_log [OF s0] l by simp
  obtain ok1 eng1 w1 where s1: "smoke_round ior iow we (2 * hz) eng (tx_sqe ?src) w0 = Some (ok1, eng1, w1)"
    using p s0 by (auto simp: dma_engine_probe_def Let_def split: bind_splits)
  obtain k1 where l1: "w_log w1 = setup_log a @ wakes k1" using smoke_round_log [OF we s1] l0 by auto
  show ?thesis
  proof (cases ok1)
    case False
    with p s0 s1 have "(rc, w') = err_free eng1 (log (err_unmap ?src ?dst) w1)"
      by (simp add: dma_engine_probe_def Let_def)
    then show ?thesis using nz l1 by (auto simp: defs)
  next
    case True
    let ?w1 = "log [Release R_Map_Src] w1"
    obtain ok2 eng2 w2 where s2: "smoke_round ior iow we (2 * hz) eng1 (rx_sqe ?dst) ?w1 = Some (ok2, eng2, w2)"
      using p s0 s1 True by (auto simp: dma_engine_probe_def Let_def split: bind_splits)
    obtain k2 where "w_log w2 = w_log ?w1 @ wakes k2" using smoke_round_log [OF we s2] by blast
    then have l2: "w_log w2 = setup_log a @ wakes k1 @ [Release R_Map_Src] @ wakes k2" using l1 by (simp add: log_def)
    have "(rc, w') =
      (if \<not> ok2 then err_free eng2 (log (err_unmap 0 ?dst) w2)
       else if load (w_mem w2) src 18 \<noteq> load (w_mem w2) dst 18 then err_free eng2 (log [Release R_Map_Dst] w2)
       else (0, log [Release R_Src, Release R_Dst] ((log [Release R_Map_Dst] w2)\<lparr>w_drvdata := Some eng2\<rparr>)))"
      using p s0 s1 s2 True by (auto simp: dma_engine_probe_def Let_def log_def split: if_splits)
    then show ?thesis using nz l2 by (intro exI [of _ k1] exI [of _ k2]) (auto simp: defs split: if_splits)
  qed
qed

section \<open>Properties\<close>

text \<open>
  C25: The smoke test of the probe passes: on a realized device, with the rings and buffers in disjoint
  RAM and every kernel call succeeding, \<^verbatim>\<open>dma_engine_probe\<close> returns 0, the string has travelled through
  the device into the destination buffer, both mappings and both buffers are released, and exactly the
  engine's resources stay held for \<^verbatim>\<open>remove\<close>.
\<close>

theorem probe_smoke_test_passes:
  assumes g: "guest_ram rd wr backed" and a: "answers_ok a sq cq bar src dst" and m: "memory_ok backed sq cq src dst"
    and d: "w_dev w = dma_engine_realize 0 dev_zero" and l: "w_log w = []"
    and we: "prompt_wait we msi now rd wr bar" and hz: "0 < hz"
  shows "\<exists>w'. dma_engine_probe (bus_read bar) (bus_write bar msi now) we hz a w = Some (0, w') \<and>
    load (w_mem w') dst 18 = hello \<and> w_drvdata w' \<noteq> None \<and>
    held [] (w_log w') = [R_Enable, R_Master, R_Engine, R_Sq, R_Cq, R_Iomap, R_Vectors, R_Irq, R_Region]"
proof -
  have t: "0 < 2 * hz" using hz by simp
  have ma: "dma_map_single (a_map_src a) = src" "dma_map_single (a_map_dst a) = dst"
    using a by (simp_all add: answers_ok_def dma_map_single_def)
  obtain eng w0 where s0: "probe_setup (bus_write bar msi now) a w = Some (eng, src, dst, w0)"
    and r0: "smoke_ready backed eng src dst w0" and b0: "eng_mmio eng = bar"
    and l0: "w_log w0 = [Acquire R_Enable, Acquire R_Master, Acquire R_Engine, Acquire R_Sq, Acquire R_Cq, Acquire R_Iomap,
      Acquire R_Vectors, Acquire R_Irq, Set_Drvdata True, Acquire R_Region, Acquire R_Src, Acquire R_Dst,
      Acquire R_Map_Src, Acquire R_Map_Dst]"
    using probe_setup_ready [OF a m d, of msi now] l by auto
  from smoke_tx [OF g r0 we [folded b0] t] obtain eng1 w1 where
    s1: "smoke_round (bus_read bar) (bus_write bar msi now) we (2 * hz) eng (tx_sqe src) w0 = Some (True, eng1, w1)"
    and r1: "smoke_ready backed eng1 src dst w1" and h1: "take 18 (dv_dev_buf (w_dev w1)) = hello"
    and l1: "w_log w1 = w_log w0 @ [Wake_Up]" and b1: "eng_mmio eng1 = bar"
    by (auto simp: b0)
  let ?w1 = "log [Release R_Map_Src] w1"
  have r1': "smoke_ready backed eng1 src dst ?w1" using r1 by (simp add: smoke_ready_def sys_inv_def submitted_def completed_def log_def)
  have h1': "take 18 (dv_dev_buf (w_dev ?w1)) = hello" using h1 by (simp add: log_def)
  from smoke_rx [OF g r1' h1' we [folded b1] t] obtain eng2 w2 where
    s2: "smoke_round (bus_read bar) (bus_write bar msi now) we (2 * hz) eng1 (rx_sqe dst) ?w1 = Some (True, eng2, w2)"
    and m2: "load (w_mem w2) src 18 = hello" "load (w_mem w2) dst 18 = hello"
    and l2: "w_log w2 = w_log ?w1 @ [Wake_Up]"
    by (auto simp: b1)
  show ?thesis
    using s0 s1 s2 m2 by (simp add: dma_engine_probe_def ma Let_def) (simp add: log_def l2 l1 l0)
qed

lemma turn_wait_prompt: "prompt_wait (turn_wait msi now rd wr bar) msi now rd wr bar"
proof (unfold prompt_wait_def, intro allI impI)
  fix eng :: engine_t and c and t :: int and w
  assume h: "eng_mmio eng = bar \<and> 0 < t \<and> \<not> c w \<and> c (device_turn msi now rd wr eng w)"
  then have "device_turn msi now rd wr eng w = device_turn msi now rd wr (demo_eng\<lparr>eng_mmio := bar\<rparr>) w"
    by (intro device_turn_mmio) simp
  with h show "0 < fst (turn_wait msi now rd wr bar c t w) \<and> snd (turn_wait msi now rd wr bar c t w) = device_turn msi now rd wr eng w"
    by (simp add: turn_wait_def)
qed

theorem probe_smoke_test_passes_witness:
  "\<exists>w'. dma_engine_probe (bus_read 0xF000) (bus_write 0xF000 True 0)
      (turn_wait True 0 (flat_read all_ram) (flat_write all_ram) 0xF000) 100 probe_answers fresh_world = Some (0, w') \<and>
     load (w_mem w') 0x4000 18 = hello"
proof -
  have a: "answers_ok probe_answers 0x1000 0x2000 0xF000 0x3000 0x4000"
    by (simp add: answers_ok_def probe_answers_def)
  have m: "memory_ok all_ram 0x1000 0x2000 0x3000 0x4000" by (simp add: memory_ok_def all_ram_def apart_def)
  from probe_smoke_test_passes [OF flat_ram.guest_ram_axioms a m _ _ turn_wait_prompt, of fresh_world 100] show ?thesis
    by (auto simp: fresh_world_def)
qed

text \<open>
  C26: Nothing leaks, and what is released was held. Whatever the device does, whatever the waits return, whichever of the
  kernel's calls fail and whichever test of the probe does: if the probe returns, it returns 0 or \<^verbatim>\<open>-EIO\<close>, and after it and,
  had it succeeded, \<^verbatim>\<open>remove\<close>, no resource is held, provided neither buffer was mapped at bus address 0. If moreover every
  call that acquires something succeeded, then on each of these paths nothing is released that was not held.
\<close>

theorem probe_resources_balance:
  assumes we: "quiet_wait we" and l: "w_log w = []" and p: "dma_engine_probe ior iow we hz a w = Some (rc, w')"
    and a: "a_map_src a \<noteq> Some 0" "a_map_dst a \<noteq> Some 0"
  shows "(rc = 0 \<or> rc = - EIO) \<and> (rc = - EIO \<longrightarrow> w_drvdata w' = None) \<and> held [] (w_log (dma_engine_remove w')) = [] \<and>
    (a_enable a \<and> a_sq a \<noteq> None \<and> a_cq a \<noteq> None \<and> a_vectors a \<and> a_irq a \<and> a_region a \<and> a_map_src a \<noteq> None \<and> a_map_dst a \<noteq> None
      \<longrightarrow> releases_ok [] (w_log (dma_engine_remove w')))"
proof -
  obtain k1 k2 where log: "w_log (dma_engine_remove w') \<in> probe_logs a k1 k2" and rc: "rc = 0 \<or> rc = - EIO"
    "rc = - EIO \<longrightarrow> w_drvdata w' = None"
    using probe_exits [OF we l p a] by blast
  have "held_count r 0 (w_log (dma_engine_remove w')) = 0" for r
    using log by (cases r) (auto simp: probe_logs_def setup_log_def free_log_def)
  moreover have "releases_ok [] (w_log (dma_engine_remove w'))"
    if "a_enable a" "a_sq a \<noteq> None" "a_cq a \<noteq> None" "a_vectors a" "a_irq a" "a_region a" "a_map_src a \<noteq> None" "a_map_dst a \<noteq> None"
    using log that by (auto simp: probe_logs_def setup_log_def free_log_def acquire_def)
  ultimately show ?thesis using rc by (auto simp: held_nothing)
qed

theorem probe_resources_balance_witness:
  "\<exists>rc w'. dma_engine_probe (bus_read 0xF000) (bus_write 0xF000 True 0) dead_wait 100 probe_answers fresh_world = Some (rc, w') \<and>
     rc = - EIO \<and> held [] (w_log (dma_engine_remove w')) = [] \<and> releases_ok [] (w_log (dma_engine_remove w'))"
proof -
  have q: "quiet_wait (dead_wait :: DmaEngineState wait_event)"
    by (auto simp: quiet_wait_def dead_wait_def intro: exI [of _ 0])
  have a: "a_sq probe_answers \<noteq> None" "a_cq probe_answers \<noteq> None" "a_map_src probe_answers \<noteq> None" "a_map_dst probe_answers \<noteq> None"
    "a_enable probe_answers" "a_vectors probe_answers" "a_irq probe_answers" "a_region probe_answers"
    and z: "a_map_src probe_answers \<noteq> Some 0" "a_map_dst probe_answers \<noteq> Some 0"
    by (simp_all add: probe_answers_def)
  have l: "w_log fresh_world = []" by (simp add: fresh_world_def)
  obtain w' where p: "dma_engine_probe (bus_read 0xF000) (bus_write 0xF000 True 0) dead_wait 100 probe_answers fresh_world = Some (- EIO, w')"
    using create_programs [of probe_answers "0x1000" "0x2000" "0xF000" True 0 16 16]
    by (simp add: dma_engine_probe_def probe_setup_def smoke_round_def engine_submit_def engine_wait_def dead_wait_def
        err_free_def probe_answers_def fresh_world_def log_def Let_def ETIMEDOUT_def dma_engine_realize_def dev_event_def dev_zero_def)
  from probe_resources_balance [OF q l p z] p a show ?thesis by auto
qed

text \<open>
  C27: What goes wrong on the error paths. A mapping at bus address 0 leaks: the error exit takes a zero address for
  one already unmapped, so when the first round fails with the source buffer mapped at 0, that mapping stays held. No
  return value is checked: when \<^verbatim>\<open>kzalloc\<close>, the mapping of the registers or the allocation of a buffer fails, the
  probe goes through a null pointer, and when there is no submission ring the first submission does; when
  enabling the device, requesting the region, allocating the vectors, requesting the interrupt or mapping a buffer fails, the
  probe goes on (with \<^verbatim>\<open>DMA_MAPPING_ERROR\<close> as the address of a buffer that is not mapped), and its error exit releases what
  it does not hold.
\<close>

theorem probe_error_flaws:
  "(\<exists>w'. dma_engine_probe (bus_read 0xF000) (bus_write 0xF000 True 0) dead_wait 100
      (probe_answers\<lparr>a_map_src := Some 0\<rparr>) fresh_world = Some (- EIO, w') \<and> held [] (w_log w') = [R_Map_Src]) \<and>
   dma_engine_probe ior iow we hz (a\<lparr>a_kzalloc := False\<rparr>) w = None \<and>
   dma_engine_probe ior iow we hz (a\<lparr>a_iomap := None\<rparr>) w = None \<and>
   dma_engine_probe ior iow we hz (a\<lparr>a_src := None\<rparr>) w = None \<and>
   dma_engine_probe ior iow we hz (a\<lparr>a_dst := None\<rparr>) w = None \<and>
   dma_engine_probe (bus_read 0xF000) (bus_write 0xF000 True 0) we hz (probe_answers\<lparr>a_sq := None\<rparr>) fresh_world = None \<and>
   list_all (\<lambda>fails. \<exists>w'. dma_engine_probe (bus_read 0xF000) (bus_write 0xF000 True 0) dead_wait 100
      (fails probe_answers) fresh_world = Some (- EIO, w') \<and> \<not> releases_ok [] (w_log w'))
     [a_enable_update (\<lambda>_. False), a_region_update (\<lambda>_. False), a_vectors_update (\<lambda>_. False), a_irq_update (\<lambda>_. False),
      a_map_src_update (\<lambda>_. None), a_map_dst_update (\<lambda>_. None)]"
proof -
  note ev = dma_engine_probe_def probe_setup_def smoke_round_def engine_submit_def engine_wait_def dead_wait_def
    err_free_def err_unmap_def engine_destroy_def probe_answers_def fresh_world_def log_def acquire_def Let_def ETIMEDOUT_def
    dma_engine_realize_def dev_event_def dev_zero_def engine_doorbell_def dma_map_single_def DMA_MAPPING_ERROR_def
  have crash: "dma_engine_probe ior iow we hz (a\<lparr>a_kzalloc := False\<rparr>) w = None"
    "dma_engine_probe ior iow we hz (a\<lparr>a_iomap := None\<rparr>) w = None"
    "dma_engine_probe ior iow we hz (a\<lparr>a_src := None\<rparr>) w = None"
    "dma_engine_probe ior iow we hz (a\<lparr>a_dst := None\<rparr>) w = None"
    by (simp_all add: dma_engine_probe_def probe_setup_def engine_create_def Let_def split: option.split bind_split)
  moreover have "dma_engine_probe (bus_read 0xF000) (bus_write 0xF000 True 0) we hz (probe_answers\<lparr>a_sq := None\<rparr>) fresh_world = None"
    by (simp add: ev engine_create_def mmio_write64_bases)
  moreover have "\<exists>w'. dma_engine_probe (bus_read 0xF000) (bus_write 0xF000 True 0) dead_wait 100
      (probe_answers\<lparr>a_map_src := Some 0\<rparr>) fresh_world = Some (- EIO, w') \<and> held [] (w_log w') = [R_Map_Src]"
    using create_programs [of "probe_answers\<lparr>a_map_src := Some 0\<rparr>" "0x1000" "0x2000" "0xF000" True 0 16 16] by (simp add: ev)
  moreover have "\<exists>w'. dma_engine_probe (bus_read 0xF000) (bus_write 0xF000 True 0) dead_wait 100
      (fails probe_answers) fresh_world = Some (- EIO, w') \<and> \<not> releases_ok [] (w_log w')"
    if "fails \<in> {a_enable_update (\<lambda>_. False), a_region_update (\<lambda>_. False), a_vectors_update (\<lambda>_. False), a_irq_update (\<lambda>_. False),
      a_map_src_update (\<lambda>_. None), a_map_dst_update (\<lambda>_. None)}"
    for fails
    using that create_programs [of "fails probe_answers" "0x1000" "0x2000" "0xF000" True 0 16 16] by (auto simp: ev)
  ultimately show ?thesis by simp
qed

lemma engine_wait_correct:
  assumes "sound_wait we" and "engine_wait (bus_read (eng_mmio eng)) we eng t w = (rc, w')"
  shows "(rc = 0 \<and> completed eng w' \<noteq> []) \<or> rc = - ETIMEDOUT"
    "rc = 0 \<longleftrightarrow> 0 < fst (we (\<lambda>w. dv_cq_tail (w_dev w) \<noteq> eng_cq_head eng) t w)"
proof -
  let ?c = "\<lambda>w::sysw. dv_cq_tail (w_dev w) \<noteq> eng_cq_head eng"
  have "0 < fst (we ?c t w) \<longrightarrow> ?c (snd (we ?c t w))" using assms(1) unfolding sound_wait_def by blast
  then show "(rc = 0 \<and> completed eng w' \<noteq> []) \<or> rc = - ETIMEDOUT"
    using assms(2) by (auto simp: engine_wait_def case_prod_beta completed_empty split: if_splits)
  show "rc = 0 \<longleftrightarrow> 0 < fst (we ?c t w)"
    using assms(2) by (auto simp: engine_wait_def case_prod_beta ETIMEDOUT_def split: if_splits)
qed

text \<open>
  C28: Waiting and waking. \<^verbatim>\<open>engine_wait\<close> returns 0 exactly when the wait for a change of \<^verbatim>\<open>cq_tail\<close> returns a positive
  value, and then a completion can be drained; every other outcome of the
  wait, a timeout and an interruption alike, is reported as \<^verbatim>\<open>-ETIMEDOUT\<close>. The interrupt handler handles exactly
  the interrupts of this device: with a status bit set it acknowledges it (the status reads 0 afterwards, and a
  level-triggered line is lowered), wakes the waiters once and returns \<^verbatim>\<open>IRQ_HANDLED\<close>; with none it returns
  \<^verbatim>\<open>IRQ_NONE\<close> and does nothing.
\<close>

theorem engine_wait_wake_correct:
  assumes "sound_wait we" and "engine_wait (bus_read (eng_mmio eng)) we eng t w = (rc, w')"
  shows "((rc = 0 \<and> completed eng w' \<noteq> []) \<or> rc = - ETIMEDOUT) \<and>
    (rc = 0 \<longleftrightarrow> 0 < fst (we (\<lambda>w. dv_cq_tail (w_dev w) \<noteq> eng_cq_head eng) t w)) \<and>
    dma_engine_irq (bus_read (eng_mmio eng)) (bus_write (eng_mmio eng) msi now) eng v =
      (if dv_irq_status (w_dev v) = 0 then (False, v)
       else (True, v\<lparr>w_dev := (w_dev v)\<lparr>dv_irq_status := 0,
                                 dv_events := dv_events (w_dev v) @ (if msi then [] else [Pci_Set_Irq False])\<rparr>,
                     w_log := w_log v @ [Wake_Up]\<rparr>))"
  using engine_wait_correct [OF assms] dma_engine_irq_correct by blast

theorem engine_wait_wake_correct_witness:
  "engine_wait (bus_read 0xF000) dead_wait demo_eng 200 demo_world = (- ETIMEDOUT, demo_world) \<and> - ETIMEDOUT \<noteq> 0 \<and>
   engine_wait (bus_read 0xF000) ready_wait tiny_eng 200 tiny_world = (0, tiny_world) \<and> completed tiny_eng tiny_world \<noteq> [] \<and>
   fst (dma_engine_irq (bus_read 0xF000) (bus_write 0xF000 True 0) demo_eng
     (demo_world\<lparr>w_dev := (w_dev demo_world)\<lparr>dv_irq_status := 1\<rparr>\<rparr>))"
proof -
  have s: "sound_wait (dead_wait :: DmaEngineState wait_event)" "sound_wait (ready_wait :: DmaEngineState wait_event)"
    by (simp_all add: sound_wait_def dead_wait_def ready_wait_def)
  have q: "dv_cq_tail (w_dev tiny_world) \<noteq> eng_cq_head tiny_eng" "eng_mmio tiny_eng = 0xF000"
    by (simp_all add: tiny_world_def tiny_eng_def demo_defs)
  then have e2: "engine_wait (bus_read (eng_mmio tiny_eng)) ready_wait tiny_eng 200 tiny_world = (0, tiny_world)"
    by (simp add: engine_wait_def ready_wait_def)
  have e1: "engine_wait (bus_read (eng_mmio demo_eng)) dead_wait demo_eng 200 demo_world = (- ETIMEDOUT, demo_world)"
    by (simp add: engine_wait_def dead_wait_def)
  from engine_wait_wake_correct [OF s(1) e1, of True 0 "demo_world\<lparr>w_dev := (w_dev demo_world)\<lparr>dv_irq_status := 1\<rparr>\<rparr>"]
    engine_wait_wake_correct [OF s(2) e2] e1 e2 q show ?thesis by (simp add: demo_depths ETIMEDOUT_def)
qed

end
