(* ===== verification/Dma_Stream.thy ===== *)
theory Dma_Stream
  imports Dma_Properties
begin

text \<open>
  Long runs of the DMA engine. The actions of \<open>sys_step\<close> as a datatype, runs as lists of actions, and a
  record of what the driver's callers have submitted with success and have got back. A caller that
  keeps no more entries outstanding than the completion ring has slots gets one completion per entry,
  in order, whatever the interleaving; the run is a bounded stream, with two queues in between.
\<close>

section \<open>Definitions\<close>

datatype dma_action = Submit sqe_t | Doorbell bool int | Drain size_t | Timer bool | Interrupt bool int

record stream =
  st_eng :: engine_t
  st_w :: sysw
  st_accepted :: "sqe_t list"
  st_received :: "cqe_t list"

definition stream_start :: "engine_t \<Rightarrow> sysw \<Rightarrow> stream" where
  "stream_start eng w = \<lparr>st_eng = eng, st_w = w, st_accepted = [], st_received = []\<rparr>"

text \<open>One action; \<open>None\<close> is an access through a null pointer.\<close>

fun dma_act :: "dma_rd \<Rightarrow> dma_wr \<Rightarrow> dma_action \<Rightarrow> stream \<Rightarrow> stream option" where
  "dma_act rd wr (Submit e) s =
     (case engine_submit (bus_read (eng_mmio (st_eng s))) (st_eng s) e (st_w s) of
        None \<Rightarrow> None
      | Some (rc, eng, w) \<Rightarrow> Some (s\<lparr>st_eng := eng, st_w := w,
          st_accepted := if rc = 0 then st_accepted s @ [e] else st_accepted s\<rparr>))"
| "dma_act rd wr (Doorbell msi now) s =
     Some (s\<lparr>st_w := engine_doorbell (bus_write (eng_mmio (st_eng s)) msi now) (st_eng s) (st_w s)\<rparr>)"
| "dma_act rd wr (Drain mx) s =
     (case engine_drain (bus_read (eng_mmio (st_eng s))) (st_eng s) mx (st_w s) of
        None \<Rightarrow> None
      | Some (n, out, eng) \<Rightarrow> Some (s\<lparr>st_eng := eng, st_received := st_received s @ out\<rparr>))"
| "dma_act rd wr (Timer msi) s = Some (s\<lparr>st_w := timer_step msi rd wr (st_w s)\<rparr>)"
| "dma_act rd wr (Interrupt msi now) s =
     Some (s\<lparr>st_w := snd (dma_engine_irq (bus_read (eng_mmio (st_eng s)))
       (bus_write (eng_mmio (st_eng s)) msi now) (st_eng s) (st_w s))\<rparr>)"

fun dma_run :: "dma_rd \<Rightarrow> dma_wr \<Rightarrow> dma_action list \<Rightarrow> stream \<Rightarrow> stream option" where
  "dma_run rd wr [] s = Some s"
| "dma_run rd wr (a # as) s = (case dma_act rd wr a s of None \<Rightarrow> None | Some s' \<Rightarrow> dma_run rd wr as s')"

text \<open>
  The discipline of the caller: it submits only while fewer entries are outstanding (accepted and not
  yet drained) than the completion ring has slots, and no receive buffer overlaps the rings.
\<close>

definition may_submit :: "sqe_t \<Rightarrow> stream \<Rightarrow> bool" where
  "may_submit e s \<longleftrightarrow>
     length (st_accepted s) < length (st_received s) + unat (eng_cq_depth (st_eng s)) \<and>
     rx_safe (w_dev (st_w s)) (dev_view e)"

fun disciplined :: "dma_rd \<Rightarrow> dma_wr \<Rightarrow> dma_action list \<Rightarrow> stream \<Rightarrow> bool" where
  "disciplined rd wr [] s \<longleftrightarrow> True"
| "disciplined rd wr (a # as) s \<longleftrightarrow>
     (case a of Submit e \<Rightarrow> may_submit e s | _ \<Rightarrow> True) \<and>
     (case dma_act rd wr a s of None \<Rightarrow> True | Some s' \<Rightarrow> disciplined rd wr as s')"

text \<open>The completion the caller is owed for an entry.\<close>

definition owed :: "(u64 \<Rightarrow> nat \<Rightarrow> bool) \<Rightarrow> sqe_t \<Rightarrow> cqe_t" where
  "owed backed e = drv_view (completion backed (dev_view e))"

definition stream_inv :: "(u64 \<Rightarrow> nat \<Rightarrow> bool) \<Rightarrow> stream \<Rightarrow> bool" where
  "stream_inv backed s \<longleftrightarrow>
     sys_inv (st_eng s) (st_w s) \<and> rings_ok backed (w_dev (st_w s)) \<and>
     (\<forall>e \<in> set (submitted (st_eng s) (st_w s)). rx_safe (w_dev (st_w s)) e) \<and>
     length (completed (st_eng s) (st_w s)) + length (submitted (st_eng s) (st_w s)) \<le> unat (eng_cq_depth (st_eng s)) \<and>
     map (owed backed) (st_accepted s) =
       st_received s @ completed (st_eng s) (st_w s) @
       map (\<lambda>e. drv_view (completion backed e)) (submitted (st_eng s) (st_w s))"

section \<open>The submission ring while the device works\<close>

lemma pending_take:
  assumes "sys_inv eng w"
  shows "pending (w_dev w) (w_mem w) = take (unat (dv_sq_tail (w_dev w) - dv_sq_head (w_dev w))) (submitted eng w)"
  using assms by (auto simp: pending_def submitted_def sys_inv_def take_map min_absorb1)

context guest_ram
begin

lemma complete_all_keeps_sqes:
  assumes r: "rings_ok backed s"
  shows "complete_all rd wr (cqe_addr s) t es buf m = (cs, buf', m') \<Longrightarrow> length buf = unat DEV_BUF_SIZE \<Longrightarrow>
    \<forall>e \<in> set es. rx_safe s e \<Longrightarrow> load m' (sqe_addr s x) sizeof_sqe = load m (sqe_addr s x) sizeof_sqe"
proof (induction es arbitrary: t buf m cs)
  case (Cons e es)
  obtain st b m1 where d: "data_dma rd wr e buf m = (st, b, m1)" by (cases "data_dma rd wr e buf m")
  let ?m2 = "snd (wr m1 (cqe_addr s t) (DevCqe_bytes (build_cqe e st)))"
  obtain cs1 where c: "complete_all rd wr (cqe_addr s) (t + 1) es b ?m2 = (cs1, buf', m')"
    using Cons.prems(1) d by (auto simp: Let_def split: prod.splits)
  have "load m' (sqe_addr s x) sizeof_sqe = load ?m2 (sqe_addr s x) sizeof_sqe"
    using Cons.IH [OF c] data_dma_result(2) [OF d Cons.prems(2)] Cons.prems(3) by simp
  also have "\<dots> = load m (sqe_addr s x) sizeof_sqe"
    using cqe_write_keeps_sqe [OF r] data_dma_slots(1) [OF d Cons.prems(2) r] Cons.prems(3) by simp
  finally show ?case .
qed simp

text \<open>The timer consumes what has been announced, and leaves the rest of the queue alone.\<close>

lemma timer_step_submitted:
  assumes inv: "sys_inv eng w" and r: "rings_ok backed (w_dev w)" and t: "dv_dma_timer (w_dev w) = T_Armed x"
    and safe: "\<forall>e \<in> set (pending (w_dev w) (w_mem w)). rx_safe (w_dev w) e"
  shows "submitted eng (timer_step msi rd wr w) = drop (length (pending (w_dev w) (w_mem w))) (submitted eng w)"
proof -
  let ?d = "w_dev w" and ?h = "dv_sq_head (w_dev w)" and ?t = "dv_sq_tail (w_dev w)"
  obtain cs buf m where c: "complete_all rd wr (cqe_addr ?d) (dv_cq_tail ?d) (pending ?d (w_mem w)) (dv_dev_buf ?d) (w_mem w) = (cs, buf, m)"
    using prod_cases3 by blast
  note w' = timer_step_runs [OF inv r t safe c, of msi]
  have buf: "length (dv_dev_buf ?d) = unat DEV_BUF_SIZE" using inv by (simp add: sys_inv_def dev_inv_def)
  note keep = complete_all_keeps_sqes [OF r c buf safe]
  define k where "k = unat (?t - ?h)"
  have hk: "?t = ?h + of_nat k" by (simp add: k_def)
  have le: "k \<le> unat (eng_sq_tail eng - ?h)" using inv by (simp add: sys_inv_def k_def)
  then have n: "unat (eng_sq_tail eng - ?t) = unat (eng_sq_tail eng - ?h) - k"
    using unat_dist_sub [of "?t - ?h" "eng_sq_tail eng" ?h] by (simp add: k_def)
  have sa: "sqe_addr (w_dev (timer_step msi rd wr w)) = sqe_addr ?d" by (rule ext) (simp add: w' sqe_addr_def)
  have f: "dv_sq_head (w_dev (timer_step msi rd wr w)) = ?t" "w_mem (timer_step msi rd wr w) = m" by (simp_all add: w')
  have "submitted eng (timer_step msi rd wr w) =
      map (\<lambda>i. DevSqe_of_bytes (load (w_mem w) (sqe_addr ?d (?h + of_nat (k + i))) sizeof_sqe)) [0..<unat (eng_sq_tail eng - ?h) - k]"
    unfolding submitted_def sa f keep hk by (simp add: add.assoc n [unfolded hk])
  also have "\<dots> = drop k (submitted eng w)" using le by (auto simp: submitted_def intro!: nth_equalityI)
  finally show ?thesis by (simp add: k_def pending_def)
qed

section \<open>Every action keeps the stream\<close>

lemma timer_step_stream:
  assumes "stream_inv backed s"
  shows "stream_inv backed (s\<lparr>st_w := timer_step msi rd wr (st_w s)\<rparr>)"
proof (cases "dv_dma_timer (w_dev (st_w s))")
  case (T_Armed x)
  let ?eng = "st_eng s" and ?w = "st_w s" and ?w' = "timer_step msi rd wr (st_w s)"
  let ?P = "pending (w_dev ?w) (w_mem ?w)"
  have inv: "sys_inv ?eng ?w" and r: "rings_ok backed (w_dev ?w)"
    and safe: "\<forall>e \<in> set (submitted ?eng ?w). rx_safe (w_dev ?w) e"
    and room: "length (completed ?eng ?w) + length (submitted ?eng ?w) \<le> unat (eng_cq_depth ?eng)"
    using assms by (simp_all add: stream_inv_def)
  have lp: "length ?P = unat (dv_sq_tail (w_dev ?w) - dv_sq_head (w_dev ?w))" by (simp add: pending_def)
  note P = pending_take [OF inv, folded lp]
  have Pd: "?P @ drop (length ?P) (submitted ?eng ?w) = submitted ?eng ?w" by (metis P append_take_drop_id)
  have sP: "\<forall>e \<in> set ?P. rx_safe (w_dev ?w) e" using safe by (metis Pd Un_iff set_append)
  have "length ?P \<le> length (submitted ?eng ?w)" by (metis Pd length_append le_add1)
  then have "length (completed ?eng ?w) + length ?P \<le> unat (dv_cq_depth (w_dev ?w))"
    using room inv by (simp add: sys_inv_def linked_def)
  note c = timer_step_completes(1) [OF inv r T_Armed sP this, of msi]
  note q = timer_step_submitted [OF inv r T_Armed sP, of msi]
  obtain cs buf m where ca: "complete_all rd wr (cqe_addr (w_dev ?w)) (dv_cq_tail (w_dev ?w)) ?P (dv_dev_buf (w_dev ?w)) (w_mem ?w) = (cs, buf, m)"
    using prod_cases3 by blast
  note f = timer_step_runs [OF inv r T_Armed sP ca, of msi]
  have base: "dv_sq_base (w_dev ?w') = dv_sq_base (w_dev ?w)" "dv_cq_base (w_dev ?w') = dv_cq_base (w_dev ?w)"
    "dv_sq_depth (w_dev ?w') = dv_sq_depth (w_dev ?w)" "dv_cq_depth (w_dev ?w') = dv_cq_depth (w_dev ?w)"
    by (simp_all add: f)
  note fr = rings_ok_mono [OF r base] rx_safe_cong [OF base]
  have "\<forall>e \<in> set (submitted ?eng ?w'). rx_safe (w_dev ?w') e"
    using safe by (auto simp: q fr(2) dest: in_set_dropD)
  moreover have "length (completed ?eng ?w') + length (submitted ?eng ?w') \<le> unat (eng_cq_depth ?eng)"
    using room arg_cong [OF Pd, of length] by (simp add: c q)
  moreover have "map (owed backed) (st_accepted s) = st_received s @ completed ?eng ?w' @
      map (\<lambda>e. drv_view (completion backed e)) (submitted ?eng ?w')"
  proof -
    have "map (owed backed) (st_accepted s) = st_received s @ completed ?eng ?w @
        map (\<lambda>e. drv_view (completion backed e)) (?P @ drop (length ?P) (submitted ?eng ?w))"
      unfolding Pd using assms by (simp add: stream_inv_def)
    then show ?thesis by (simp add: c q)
  qed
  ultimately show ?thesis using timer_step_inv [OF inv, of msi] fr(1) by (simp add: stream_inv_def)
qed (use assms in \<open>simp_all add: timer_step_def timer_expires_def stream_inv_def\<close>)

lemma submit_stream:
  assumes inv: "stream_inv backed s" and may: "may_submit e s"
  shows "\<exists>s'. dma_act rd wr (Submit e) s = Some s' \<and> stream_inv backed s'"
proof -
  let ?eng = "st_eng s" and ?w = "st_w s"
  have i: "sys_inv ?eng ?w" and r: "rings_ok backed (w_dev ?w)" using inv by (simp_all add: stream_inv_def)
  show ?thesis
  proof (cases "length (submitted ?eng ?w) < unat (eng_sq_depth ?eng)")
    case True
    define eng where "eng = ?eng\<lparr>eng_sq_tail := eng_sq_tail ?eng + 1\<rparr>"
    obtain w where w: "engine_submit (bus_read (eng_mmio ?eng)) ?eng e ?w = Some (0, eng, w)" "sys_inv eng w"
      "submitted eng w = submitted ?eng ?w @ [dev_view e]"
      "w = ?w\<lparr>w_mem := store (w_mem ?w) (sqe_addr (w_dev ?w) (eng_sq_tail ?eng)) (sqe_bytes e)\<rparr>"
      using submit_appends [OF i True, of e] by (auto simp: eng_def)
    have "load (w_mem w) (cqe_addr (w_dev ?w) j) sizeof_cqe = load (w_mem ?w) (cqe_addr (w_dev ?w) j) sizeof_cqe" for j
      using sqe_cqe_apart [OF r] by (simp add: w(4) load_store_apart)
    then have c: "completed eng w = completed ?eng ?w" by (simp add: completed_def cqes_at_def eng_def w(4))
    have "length (map (owed backed) (st_accepted s)) =
        length (st_received s @ completed ?eng ?w @ map (\<lambda>e. drv_view (completion backed e)) (submitted ?eng ?w))"
      using inv by (simp only: stream_inv_def)
    then have "length (completed ?eng ?w) + length (submitted ?eng ?w) < unat (eng_cq_depth ?eng)"
      using may by (simp add: may_submit_def)
    then show ?thesis
      using inv may w c by (simp add: stream_inv_def may_submit_def owed_def eng_def)
  next
    case False
    then show ?thesis using submit_full [OF i, of e] inv by (simp add: EAGAIN_def stream_inv_def)
  qed
qed

lemma drain_stream:
  assumes "stream_inv backed s"
  shows "\<exists>s'. dma_act rd wr (Drain mx) s = Some s' \<and> stream_inv backed s' \<and>
    (length (completed (st_eng s) (st_w s)) \<le> unat (ucast mx :: u32) \<longrightarrow>
      st_received s' = st_received s @ completed (st_eng s) (st_w s)) \<and> st_accepted s' = st_accepted s"
proof -
  let ?C = "completed (st_eng s) (st_w s)"
  let ?n = "min (length ?C) (unat (ucast mx :: u32))"
  have "linked (st_eng s) (w_dev (st_w s))" using assms by (simp add: stream_inv_def sys_inv_def)
  from drain_takes [OF this, of mx] obtain eng where e:
    "engine_drain (bus_read (eng_mmio (st_eng s))) (st_eng s) mx (st_w s) = Some (of_nat ?n, take ?n ?C, eng)"
    "eng = (st_eng s)\<lparr>eng_cq_head := eng_cq_head (st_eng s) + of_nat ?n\<rparr>" "completed eng (st_w s) = drop ?n ?C"
    by blast
  have q: "submitted eng (st_w s) = submitted (st_eng s) (st_w s)" "sys_inv eng (st_w s) = sys_inv (st_eng s) (st_w s)"
    "eng_cq_depth eng = eng_cq_depth (st_eng s)"
    by (simp_all add: e(2) submitted_def sys_inv_def linked_def)
  have "stream_inv backed (s\<lparr>st_eng := eng, st_received := st_received s @ take ?n ?C\<rparr>)"
    using assms by (simp add: stream_inv_def q e(3) del: take_append) linarith
  then show ?thesis using e(1) by auto
qed

lemma doorbell_stream:
  assumes "stream_inv backed s"
  shows "\<exists>s'. dma_act rd wr (Doorbell msi now) s = Some s' \<and> stream_inv backed s' \<and>
    st_accepted s' = st_accepted s \<and> st_received s' = st_received s"
proof -
  let ?w' = "engine_doorbell (bus_write (eng_mmio (st_eng s)) msi now) (st_eng s) (st_w s)"
  have "sys_inv (st_eng s) ?w'"
    using sys_step_inv [OF sys_step.doorbell, of "st_eng s" "st_w s"] assms by (simp add: stream_inv_def)
  moreover have "submitted (st_eng s) ?w' = submitted (st_eng s) (st_w s)" "completed (st_eng s) ?w' = completed (st_eng s) (st_w s)"
    by (simp_all add: submitted_def completed_def cqes_at_def cqe_addr_def sqe_addr_def)
  moreover have "rings_ok backed (w_dev ?w')" "rx_safe (w_dev ?w') e = rx_safe (w_dev (st_w s)) e" for e
    using assms rings_ok_mono [of backed "w_dev (st_w s)" "w_dev ?w'"] rx_safe_cong [of "w_dev ?w'" "w_dev (st_w s)" e]
    by (simp_all add: stream_inv_def)
  ultimately show ?thesis using assms by (simp add: stream_inv_def)
qed

lemma irq_stream:
  assumes "stream_inv backed s"
  shows "\<exists>s'. dma_act rd wr (Interrupt msi now) s = Some s' \<and> stream_inv backed s' \<and>
    st_accepted s' = st_accepted s \<and> st_received s' = st_received s \<and>
    completed (st_eng s') (st_w s') = completed (st_eng s) (st_w s) \<and> submitted (st_eng s') (st_w s') = submitted (st_eng s) (st_w s)"
proof -
  note fr = irq_frame_world [where w = "st_w s" and eng = "st_eng s" and msi = msi and now = now]
  show ?thesis using assms by (simp add: stream_inv_def fr)
qed

lemma dma_act_stream:
  assumes "stream_inv backed s" and "case a of Submit e \<Rightarrow> may_submit e s | _ \<Rightarrow> True"
  shows "\<exists>s'. dma_act rd wr a s = Some s' \<and> stream_inv backed s'"
proof (cases a)
  case (Timer msi)
  then show ?thesis using timer_step_stream [OF assms(1)] by simp
qed (use assms submit_stream drain_stream doorbell_stream irq_stream in \<open>fastforce simp del: dma_act.simps\<close>)+

lemma dma_run_stream:
  "stream_inv backed s \<Longrightarrow> disciplined rd wr as s \<Longrightarrow> \<exists>s'. dma_run rd wr as s = Some s' \<and> stream_inv backed s'"
proof (induction as arbitrary: s)
  case (Cons a as)
  then obtain s1 where "dma_act rd wr a s = Some s1" "stream_inv backed s1"
    using dma_act_stream [of s a] by auto
  with Cons.IH [of s1] Cons.prems(2) show ?case by simp
qed simp

text \<open>Announcing, processing and draining once empties both queues.\<close>

lemma flush_stream:
  assumes inv: "stream_inv backed s" and mx: "length (st_accepted s) - length (st_received s) \<le> unat (ucast mx :: u32)"
  shows "\<exists>s'. dma_run rd wr [Doorbell msi now, Timer msi, Interrupt msi now, Drain mx] s = Some s' \<and>
    st_accepted s' = st_accepted s \<and> st_received s' = map (owed backed) (st_accepted s)"
proof -
  obtain s1 where s1: "dma_act rd wr (Doorbell msi now) s = Some s1" "stream_inv backed s1"
    "st_accepted s1 = st_accepted s" "st_received s1 = st_received s"
    using doorbell_stream [OF inv] by blast
  define s2 where "s2 = s1\<lparr>st_w := timer_step msi rd wr (st_w s1)\<rparr>"
  have i2: "stream_inv backed s2" unfolding s2_def by (rule timer_step_stream [OF s1(2)])
  have w1: "st_eng s1 = st_eng s" "st_w s1 = engine_doorbell (bus_write (eng_mmio (st_eng s)) msi now) (st_eng s) (st_w s)"
    using s1(1) by auto
  have armed: "dv_dma_timer (w_dev (st_w s1)) = T_Armed (now + 1000000)" by (simp add: w1)
  have i1: "sys_inv (st_eng s1) (st_w s1)" and r1: "rings_ok backed (w_dev (st_w s1))"
    and safe1: "\<forall>e \<in> set (submitted (st_eng s1) (st_w s1)). rx_safe (w_dev (st_w s1)) e"
    using s1(2) by (simp_all add: stream_inv_def)
  have P: "pending (w_dev (st_w s1)) (w_mem (st_w s1)) = submitted (st_eng s1) (st_w s1)"
    by (simp add: w1 pending_def submitted_def sqe_addr_def)
  have q2: "submitted (st_eng s2) (st_w s2) = []"
    using timer_step_submitted [OF i1 r1 armed, of msi] safe1 by (simp add: P s2_def)
  obtain s3 where s3: "dma_act rd wr (Interrupt msi now) s2 = Some s3" "stream_inv backed s3"
    "st_accepted s3 = st_accepted s2" "st_received s3 = st_received s2" "submitted (st_eng s3) (st_w s3) = []"
    using irq_stream [OF i2] q2 by metis
  have all: "map (owed backed) (st_accepted s) = st_received s @ completed (st_eng s3) (st_w s3)"
    using s3(2-5) s1(3,4) by (simp add: stream_inv_def s2_def)
  have "length (completed (st_eng s3) (st_w s3)) \<le> unat (ucast mx :: u32)"
    using mx arg_cong [OF all, of length] by simp
  then obtain s4 where s4: "dma_act rd wr (Drain mx) s3 = Some s4" "st_accepted s4 = st_accepted s3"
    "st_received s4 = st_received s3 @ completed (st_eng s3) (st_w s3)"
    using drain_stream [OF s3(2), of mx] by blast
  have "dma_run rd wr [Doorbell msi now, Timer msi, Interrupt msi now, Drain mx] s = Some s4"
    using s1(1) s3(1) s4(1) by (simp add: s2_def del: dma_act.simps(1,2,3,5))
  then show ?thesis using s3(3,4) s4 s1(3,4) all by (auto simp: s2_def)
qed

end

text \<open>The runs are runs of the system.\<close>

lemma dma_act_step:
  "dma_act rd wr a s = Some s' \<Longrightarrow> sys_step rd wr (st_eng s, st_w s) (st_eng s', st_w s')"
proof (cases a)
  case (Interrupt msi now)
  assume "dma_act rd wr a s = Some s'"
  with Interrupt show ?thesis by (auto intro!: sys_step.irq prod.collapse [symmetric])
qed (auto intro: sys_step.intros split: option.splits prod.splits)

lemma dma_run_reachable:
  "sys_reachable rd wr c (st_eng s, st_w s) \<Longrightarrow> dma_run rd wr as s = Some s' \<Longrightarrow> sys_reachable rd wr c (st_eng s', st_w s')"
  by (induction as arbitrary: s) (auto split: option.splits intro: sys_reachable.further dma_act_step)

section \<open>Property\<close>

text \<open>
  C17: Exactly once, in order, for any run. From an idle engine, in any interleaving of submissions,
  doorbells, drains, timer expiries and interrupts in which the caller keeps at most \<^verbatim>\<open>cq_depth\<close> entries
  outstanding: no operation fails, what the caller has received, what is in the completion ring and
  what is still to be executed are together the completions of the accepted entries, one for each, in
  order; and a doorbell, an expiry of the timer, the interrupt and a drain deliver all of them.
\<close>

theorem dma_stream_exactly_once:
  assumes g: "guest_ram rd wr backed" and inv: "sys_inv eng w" and r: "rings_ok backed (w_dev w)"
    and idle: "submitted eng w = []" "completed eng w = []"
    and d: "disciplined rd wr acts (stream_start eng w)"
  shows "\<exists>s. dma_run rd wr acts (stream_start eng w) = Some s \<and>
    sys_reachable rd wr (eng, w) (st_eng s, st_w s) \<and>
    map (owed backed) (st_accepted s) = st_received s @ completed (st_eng s) (st_w s) @
      map (\<lambda>e. drv_view (completion backed e)) (submitted (st_eng s) (st_w s)) \<and>
    (length (st_accepted s) - length (st_received s) \<le> unat (ucast mx :: u32) \<longrightarrow>
      (\<exists>s'. dma_run rd wr [Doorbell msi now, Timer msi, Interrupt msi now, Drain mx] s = Some s' \<and>
        st_accepted s' = st_accepted s \<and> st_received s' = map (owed backed) (st_accepted s)))"
proof -
  have "stream_inv backed (stream_start eng w)"
    using inv r idle by (simp add: stream_inv_def stream_start_def)
  from guest_ram.dma_run_stream [OF g this d] obtain s where s: "dma_run rd wr acts (stream_start eng w) = Some s"
    "stream_inv backed s" by blast
  have "sys_reachable rd wr (eng, w) (st_eng s, st_w s)"
    using dma_run_reachable [OF _ s(1)] sys_reachable.here by (simp add: stream_start_def)
  moreover have "map (owed backed) (st_accepted s) = st_received s @ completed (st_eng s) (st_w s) @
      map (\<lambda>e. drv_view (completion backed e)) (submitted (st_eng s) (st_w s))"
    using s(2) by (simp add: stream_inv_def)
  ultimately show ?thesis using s(1) guest_ram.flush_stream [OF g s(2)] by blast
qed

theorem dma_stream_exactly_once_witness:
  "\<exists>s s'. dma_run (flat_read all_ram) (flat_write all_ram)
      [Submit demo_tx, Doorbell True 0, Submit demo_bad] (stream_start demo_eng demo_world) = Some s \<and>
    st_accepted s = [demo_tx, demo_bad] \<and>
    dma_run (flat_read all_ram) (flat_write all_ram) [Doorbell True 6, Timer True, Interrupt True 6, Drain 8] s = Some s' \<and>
    st_received s' = [\<lparr>cq_cookie = 0xCAFE, status = 0, bytes_xferred = 18\<rparr>,
                      \<lparr>cq_cookie = 0xBAD, status = - 22, bytes_xferred = 0\<rparr>]"
proof -
  let ?acts = "[Submit demo_tx, Doorbell True 0, Submit demo_bad]"
  have d: "disciplined rd wr ?acts (stream_start demo_eng demo_world)"
    and a: "\<And>s. dma_run rd wr ?acts (stream_start demo_eng demo_world) = Some s \<Longrightarrow>
      st_accepted s = [demo_tx, demo_bad] \<and> st_received s = []" for rd wr
    by (simp_all add: stream_start_def may_submit_def demo_safe engine_submit_def engine_doorbell_def Let_def
        bus_read_def dma_engine_mmio_read_def reg_defs demo_eng_def demo_world_def demo_dev_def bus_write_def
        dma_engine_mmio_write_def dma_engine_realize_def dev_event_def dev_zero_def word_le_nat_alt)
  have o: "map (owed all_ram) [demo_tx, demo_bad] = [\<lparr>cq_cookie = 0xCAFE, status = 0, bytes_xferred = 18\<rparr>,
                      \<lparr>cq_cookie = 0xBAD, status = - 22, bytes_xferred = 0\<rparr>]"
    by (simp add: owed_def drv_view_def completion_def status_of_def xfer_len_def dev_view_def demo_tx_def
      demo_bad_def DMA_OP_TX_def all_ram_def)
  from dma_stream_exactly_once [OF flat_ram.guest_ram_axioms demo_inv demo_rings demo_empty d, of 8 True 6]
  show ?thesis using a unfolding o [symmetric] by (fastforce simp del: dma_run.simps)
qed

end
