(* ===== verification/Inproc_Transport.thy ===== *)
theory Inproc_Transport
  imports Prelude
begin

text \<open>
  The in-process transport of \<^verbatim>\<open>04-collectives-cpp\<close> (\<^verbatim>\<open>transport_inproc.hpp\<close>, \<^verbatim>\<open>transport_inproc.cpp\<close>): a grid of
  byte-message queues, one for each ordered pair of ranks, call by call. The mutexes and condition
  variables, and calls that overlap, are in \<open>Inproc_Threads\<close>.

  C++ \<^verbatim>\<open>int\<close> is 32 bits wide and its overflow is undefined behaviour, as is an index outside a vector or
  a copy that leaves its buffer; \<open>Undefined\<close> stands for all of these. An exception is the value \<open>Throws\<close>,
  with the grid as it is when the exception leaves the call. \<open>Waits\<close> is a call that blocks.
\<close>

section \<open>Definitions\<close>

datatype transport_error = Send_Dst_Out_Of_Range | Recv_Src_Out_Of_Range | Recv_Size_Mismatch | No_Memory

datatype ('a, 's) call = Returns 'a 's | Throws transport_error 's | Waits | Undefined

record inproc_grid =
  gr_n :: int
  gr_q :: "block list list"

record inproc_transport =
  xt_world_size :: int
  xt_my_rank :: int

definition int32_ok :: "int \<Rightarrow> bool" where
  "int32_ok x \<longleftrightarrow> - (2 ^ 31) \<le> x \<and> x < 2 ^ 31"

text \<open>The constructor of the grid: \<^verbatim>\<open>n_*n_\<close> queues (and mutexes and condition variables).\<close>

definition inproc_grid_create :: "int \<Rightarrow> inproc_grid option" where
  "inproc_grid_create n =
     (if int32_ok (n * n) then Some \<lparr>gr_n = n, gr_q = replicate (nat (n * n)) []\<rparr> else None)"

definition inproc_transport_create :: "int \<Rightarrow> int \<Rightarrow> inproc_transport" where
  "inproc_transport_create world_size my_rank = \<lparr>xt_world_size = world_size, xt_my_rank = my_rank\<rparr>"

text \<open>\<^verbatim>\<open>int idx = src * world_size_ + dst\<close>; \<open>None\<close> when the arithmetic overflows.\<close>

definition channel_index :: "int \<Rightarrow> int \<Rightarrow> int \<Rightarrow> int option" where
  "channel_index world_size src dst =
     (if int32_ok (src * world_size) \<and> int32_ok (src * world_size + dst)
      then Some (src * world_size + dst) else None)"

definition has_channel :: "inproc_grid \<Rightarrow> int \<Rightarrow> bool" where
  "has_channel g idx \<longleftrightarrow> 0 \<le> idx \<and> nat idx < length (gr_q g)"

text \<open>
  \<^verbatim>\<open>memcpy\<close> to or from the \<^verbatim>\<open>data()\<close> of a vector that has as many bytes as are copied. That of an empty vector may
  be (and usually is) a null pointer, which \<^verbatim>\<open>memcpy\<close> does not allow even when no byte is copied.
\<close>

definition vec_memcpy :: "block \<Rightarrow> block \<Rightarrow> nat \<Rightarrow> block option" where
  "vec_memcpy dst src len = (if len = 0 then None else memcpy dst 0 src 0 len)"

text \<open>
  \<open>vec_ok\<close> and \<open>queue_ok\<close>: the allocations of the message and of its place in the queue succeed. An empty vector
  allocates nothing.
\<close>

definition inproc_send ::
  "inproc_transport \<Rightarrow> bool \<Rightarrow> bool \<Rightarrow> int \<Rightarrow> block \<Rightarrow> size_t \<Rightarrow> inproc_grid \<Rightarrow> (unit, inproc_grid) call" where
  "inproc_send x vec_ok queue_ok dst_rank buf len g =
     (if dst_rank < 0 \<or> dst_rank \<ge> xt_world_size x then Throws Send_Dst_Out_Of_Range g
      else case channel_index (xt_world_size x) (xt_my_rank x) dst_rank of
        None \<Rightarrow> Undefined
      | Some idx \<Rightarrow>
          if \<not> vec_ok \<and> len \<noteq> 0 then Throws No_Memory g
          else case vec_memcpy (replicate (unat len) 0) buf (unat len) of
            None \<Rightarrow> Undefined
          | Some bytes \<Rightarrow>
              if \<not> has_channel g idx then Undefined
              else if \<not> queue_ok then Throws No_Memory g
              else Returns () (g\<lparr>gr_q := (gr_q g)[nat idx := gr_q g ! nat idx @ [bytes]]\<rparr>))"

definition inproc_recv ::
  "inproc_transport \<Rightarrow> int \<Rightarrow> block \<Rightarrow> size_t \<Rightarrow> inproc_grid \<Rightarrow> (block, inproc_grid) call" where
  "inproc_recv x src_rank buf len g =
     (if src_rank < 0 \<or> src_rank \<ge> xt_world_size x then Throws Recv_Src_Out_Of_Range g
      else case channel_index (xt_world_size x) src_rank (xt_my_rank x) of
        None \<Rightarrow> Undefined
      | Some idx \<Rightarrow>
          if \<not> has_channel g idx then Undefined
          else case gr_q g ! nat idx of
            [] \<Rightarrow> Waits
          | bytes # rest \<Rightarrow>
              let g = g\<lparr>gr_q := (gr_q g)[nat idx := rest]\<rparr> in
              if of_nat (length bytes) \<noteq> len then Throws Recv_Size_Mismatch g
              else case vec_memcpy buf bytes (unat len) of
                None \<Rightarrow> Undefined
              | Some buf' \<Rightarrow> Returns buf' g)"

subsection \<open>Well-formed grids\<close>

text \<open>No queue holds an empty message: a send of no bytes is undefined before it reaches the queue.\<close>

abbreviation message_ok :: "block \<Rightarrow> bool" where
  "message_ok m \<equiv> m \<noteq> [] \<and> length m < 2 ^ 64"

definition grid_wf :: "inproc_grid \<Rightarrow> bool" where
  "grid_wf g \<longleftrightarrow> 0 \<le> gr_n g \<and> int32_ok (gr_n g * gr_n g) \<and> length (gr_q g) = nat (gr_n g * gr_n g) \<and>
     (\<forall>q \<in> set (gr_q g). \<forall>m \<in> set q. message_ok m)"

text \<open>A transport as the program makes it: for a rank of the grid, with the grid's number of ranks.\<close>

definition transport_ok :: "inproc_transport \<Rightarrow> inproc_grid \<Rightarrow> bool" where
  "transport_ok x g \<longleftrightarrow> xt_world_size x = gr_n g \<and> 0 \<le> xt_my_rank x \<and> xt_my_rank x < gr_n g"

text \<open>The messages on their way from one rank to another.\<close>

definition channel :: "inproc_grid \<Rightarrow> int \<Rightarrow> int \<Rightarrow> block list" where
  "channel g src dst = gr_q g ! nat (src * gr_n g + dst)"

subsection \<open>The specification: one queue per ordered pair of ranks\<close>

datatype transfer = Send int int block | Recv int int size_t

datatype transfer_result = Sent | Received block | Blocked | Failed transport_error

type_synonym channels = "int \<Rightarrow> int \<Rightarrow> block list"

definition rank_ok :: "int \<Rightarrow> int \<Rightarrow> bool" where
  "rank_ok n r \<longleftrightarrow> 0 \<le> r \<and> r < n"

definition set_channel :: "channels \<Rightarrow> int \<Rightarrow> int \<Rightarrow> block list \<Rightarrow> channels" where
  "set_channel f a b ms = (\<lambda>c d. if c = a \<and> d = b then ms else f c d)"

text \<open>\<open>Send a b m\<close>: rank \<open>a\<close> sends \<open>m\<close> to \<open>b\<close>. \<open>Recv a b len\<close>: rank \<open>b\<close> receives \<open>len\<close> bytes from \<open>a\<close>.\<close>

fun spec_transfer :: "int \<Rightarrow> channels \<Rightarrow> transfer \<Rightarrow> transfer_result \<times> channels" where
  "spec_transfer n f (Send a b m) =
     (if rank_ok n b then (Sent, set_channel f a b (f a b @ [m])) else (Failed Send_Dst_Out_Of_Range, f))"
| "spec_transfer n f (Recv a b len) =
     (if \<not> rank_ok n a then (Failed Recv_Src_Out_Of_Range, f)
      else case f a b of
        [] \<Rightarrow> (Blocked, f)
      | m # ms \<Rightarrow> (if length m = unat len then Received m else Failed Recv_Size_Mismatch, set_channel f a b ms))"

fun spec_transfers :: "int \<Rightarrow> channels \<Rightarrow> transfer list \<Rightarrow> transfer_result list \<times> channels" where
  "spec_transfers n f [] = ([], f)"
| "spec_transfers n f (t # ts) =
     (let (r, f') = spec_transfer n f t; (rs, f'') = spec_transfers n f' ts in (r # rs, f''))"

text \<open>The same transfers on the grid. The receiver's buffer is as large as the message it asks for.\<close>

fun impl_transfer :: "inproc_grid \<Rightarrow> transfer \<Rightarrow> (transfer_result \<times> inproc_grid) option" where
  "impl_transfer g (Send a b m) =
     (case inproc_send (inproc_transport_create (gr_n g) a) True True b m (of_nat (length m)) g of
        Returns u g' \<Rightarrow> Some (Sent, g') | Throws e g' \<Rightarrow> Some (Failed e, g') | Waits \<Rightarrow> Some (Blocked, g) | Undefined \<Rightarrow> None)"
| "impl_transfer g (Recv a b len) =
     (case inproc_recv (inproc_transport_create (gr_n g) b) a (replicate (unat len) 0) len g of
        Returns m g' \<Rightarrow> Some (Received m, g') | Throws e g' \<Rightarrow> Some (Failed e, g') | Waits \<Rightarrow> Some (Blocked, g) | Undefined \<Rightarrow> None)"

text \<open>
  The calling rank is one of the grid, and what is sent to a rank of the grid is not empty and has a length that
  fits \<^verbatim>\<open>size_t\<close>.
\<close>

fun transfer_ok :: "int \<Rightarrow> transfer \<Rightarrow> bool" where
  "transfer_ok n (Send a b m) \<longleftrightarrow> rank_ok n a \<and> (rank_ok n b \<longrightarrow> m \<noteq> []) \<and> length m < 2 ^ 64"
| "transfer_ok n (Recv a b len) \<longleftrightarrow> rank_ok n b"

fun run_transfers :: "('s \<Rightarrow> transfer \<Rightarrow> (transfer_result \<times> 's) option) \<Rightarrow> 's \<Rightarrow> transfer list \<Rightarrow> (transfer_result list \<times> 's) option" where
  "run_transfers f s [] = Some ([], s)"
| "run_transfers f s (t # ts) =
     do { (r, s) \<leftarrow> f s t; (rs, s) \<leftarrow> run_transfers f s ts; Some (r # rs, s) }"

text \<open>What was sent on a channel, and what was taken from it, in a sequence of transfers with its results.\<close>

fun sent_on :: "int \<Rightarrow> int \<Rightarrow> transfer list \<Rightarrow> transfer_result list \<Rightarrow> block list" where
  "sent_on a b (Send c d m # ts) (Sent # rs) = (if c = a \<and> d = b then m # sent_on a b ts rs else sent_on a b ts rs)"
| "sent_on a b (t # ts) (r # rs) = sent_on a b ts rs"
| "sent_on a b _ _ = []"

fun received_on :: "int \<Rightarrow> int \<Rightarrow> transfer list \<Rightarrow> transfer_result list \<Rightarrow> block list" where
  "received_on a b (Recv c d len # ts) (Received m # rs) =
     (if c = a \<and> d = b then m # received_on a b ts rs else received_on a b ts rs)"
| "received_on a b (t # ts) (r # rs) = received_on a b ts rs"
| "received_on a b _ _ = []"

definition grid_view :: "inproc_grid \<Rightarrow> channels" where
  "grid_view g = (\<lambda>a b. if rank_ok (gr_n g) a \<and> rank_ok (gr_n g) b then channel g a b else [])"

section \<open>The contract of a transport\<close>

text \<open>
  What the class \<^verbatim>\<open>Transport\<close> of \<^verbatim>\<open>collective.hpp\<close> promises its clients: messages between two ranks arrive
  whole and in order, and do not mix with those of other pairs.
\<close>

locale transport =
  fixes wf :: "'s \<Rightarrow> bool"
    and ranks :: "'s \<Rightarrow> int"
    and view :: "'s \<Rightarrow> channels"
    and act :: "'s \<Rightarrow> transfer \<Rightarrow> (transfer_result \<times> 's) option"
  assumes send_delivers: "wf s \<Longrightarrow> rank_ok (ranks s) a \<Longrightarrow> rank_ok (ranks s) b \<Longrightarrow> m \<noteq> [] \<Longrightarrow> length m < 2 ^ 64 \<Longrightarrow>
      \<exists>s'. act s (Send a b m) = Some (Sent, s') \<and> wf s' \<and> ranks s' = ranks s \<and>
           view s' = set_channel (view s) a b (view s a b @ [m])"
    and send_rejects: "wf s \<Longrightarrow> \<not> rank_ok (ranks s) b \<Longrightarrow> act s (Send a b m) = Some (Failed Send_Dst_Out_Of_Range, s)"
    and recv_rejects: "wf s \<Longrightarrow> \<not> rank_ok (ranks s) a \<Longrightarrow> act s (Recv a b len) = Some (Failed Recv_Src_Out_Of_Range, s)"
    and recv_blocks: "wf s \<Longrightarrow> rank_ok (ranks s) a \<Longrightarrow> rank_ok (ranks s) b \<Longrightarrow> view s a b = [] \<Longrightarrow>
      act s (Recv a b len) = Some (Blocked, s)"
    and recv_takes: "wf s \<Longrightarrow> rank_ok (ranks s) a \<Longrightarrow> rank_ok (ranks s) b \<Longrightarrow> view s a b = m # ms \<Longrightarrow>
      \<exists>s'. act s (Recv a b len) = Some (if length m = unat len then Received m else Failed Recv_Size_Mismatch, s') \<and>
           wf s' \<and> ranks s' = ranks s \<and> view s' = set_channel (view s) a b ms"
begin

lemma act_refines:
  assumes "wf s" "transfer_ok (ranks s) t"
  shows "\<exists>s'. act s t = Some (fst (spec_transfer (ranks s) (view s) t), s') \<and> wf s' \<and> ranks s' = ranks s \<and>
           view s' = snd (spec_transfer (ranks s) (view s) t)"
proof (cases t)
  case (Send a b m)
  with assms show ?thesis
    using send_delivers [of s a b m] send_rejects [of s b a m] by (cases "rank_ok (ranks s) b") auto
next
  case (Recv a b len)
  with assms show ?thesis
    using recv_rejects [of s a b len] recv_blocks [of s a b len] recv_takes [of s a b _ _ len]
    by (cases "rank_ok (ranks s) a"; cases "view s a b") auto
qed

lemma run_refines:
  "wf s \<Longrightarrow> \<forall>t \<in> set ts. transfer_ok (ranks s) t \<Longrightarrow>
     \<exists>s'. run_transfers act s ts = Some (fst (spec_transfers (ranks s) (view s) ts), s') \<and> wf s' \<and>
          ranks s' = ranks s \<and> view s' = snd (spec_transfers (ranks s) (view s) ts)"
proof (induction ts arbitrary: s)
  case Nil
  then show ?case by simp
next
  case (Cons t ts)
  from Cons.prems obtain s1 where s1: "act s t = Some (fst (spec_transfer (ranks s) (view s) t), s1)" "wf s1"
    "ranks s1 = ranks s" "view s1 = snd (spec_transfer (ranks s) (view s) t)"
    using act_refines [of s t] by auto
  with Cons.prems obtain s2 where
    "run_transfers act s1 ts = Some (fst (spec_transfers (ranks s) (view s1) ts), s2)" "wf s2" "ranks s2 = ranks s"
    "view s2 = snd (spec_transfers (ranks s) (view s1) ts)"
    using Cons.IH [of s1] by auto
  with s1 show ?case by (auto simp: case_prod_beta Let_def)
qed

end

section \<open>Order on a channel\<close>

text \<open>
  What was there and what was sent is what was received and what is left, in order, unless a receive
  failed because it asked for the wrong length; what such a receive takes is received by nobody.
\<close>

lemma spec_transfers_ConsE:
  assumes "spec_transfers n f (t # ts) = (rs, f')"
  obtains r f1 rs' where "spec_transfer n f t = (r, f1)" "spec_transfers n f1 ts = (rs', f')" "rs = r # rs'"
  using assms
  by (cases "spec_transfer n f t"; cases "spec_transfers n (snd (spec_transfer n f t)) ts") auto

lemma spec_transfers_fifo:
  assumes "spec_transfers n f ts = (rs, f')" "Failed Recv_Size_Mismatch \<notin> set rs"
  shows "f a b @ sent_on a b ts rs = received_on a b ts rs @ f' a b"
  using assms
proof (induction ts arbitrary: f rs)
  case Nil
  then show ?case by simp
next
  case (Cons t ts)
  from Cons.prems(1) obtain r f1 rs' where
    1: "spec_transfer n f t = (r, f1)" "spec_transfers n f1 ts = (rs', f')" "rs = r # rs'"
    by (rule spec_transfers_ConsE)
  with Cons have IH: "f1 a b @ sent_on a b ts rs' = received_on a b ts rs' @ f' a b" and r: "r \<noteq> Failed Recv_Size_Mismatch"
    by auto
  show ?case
  proof (cases t)
    case (Send c d m)
    with 1 IH show ?thesis by (auto simp: set_channel_def split: if_splits)
  next
    case (Recv c d len)
    with 1 IH r show ?thesis by (auto simp: set_channel_def split: if_splits list.splits)
  qed
qed

lemma spec_transfers_subseq:
  assumes "spec_transfers n f ts = (rs, f')"
  shows "subseq (received_on a b ts rs @ f' a b) (f a b @ sent_on a b ts rs)"
  using assms
proof (induction ts arbitrary: f rs)
  case Nil
  then show ?case by simp
next
  case (Cons t ts)
  from Cons.prems(1) obtain r f1 rs' where
    1: "spec_transfer n f t = (r, f1)" "spec_transfers n f1 ts = (rs', f')" "rs = r # rs'"
    by (rule spec_transfers_ConsE)
  with Cons have IH: "subseq (received_on a b ts rs' @ f' a b) (f1 a b @ sent_on a b ts rs')" by auto
  show ?case
  proof (cases t)
    case (Send c d m)
    with 1 IH show ?thesis by (auto simp: set_channel_def split: if_splits)
  next
    case (Recv c d len)
    with 1 IH show ?thesis by (auto simp: set_channel_def split: if_splits list.splits)
  qed
qed

section \<open>The grid implements the contract\<close>

lemma channel_index_range:
  assumes "grid_wf g" "rank_ok (gr_n g) a" "rank_ok (gr_n g) b"
  shows "channel_index (gr_n g) a b = Some (a * gr_n g + b)" "has_channel g (a * gr_n g + b)"
proof -
  let ?n = "gr_n g"
  have r: "0 \<le> a" "a \<le> ?n - 1" "0 \<le> b" "b < ?n" using assms(2,3) by (auto simp: rank_ok_def)
  then have "a * ?n \<le> (?n - 1) * ?n" by (intro mult_right_mono) auto
  then have le: "a * ?n + b < ?n * ?n" using r by (simp add: algebra_simps)
  define z where "z = a * ?n"
  have ge: "0 \<le> z" using r by (simp add: z_def)
  have n: "?n * ?n < 2 ^ 31" and len: "length (gr_q g) = nat (?n * ?n)"
    using assms(1) by (simp_all add: grid_wf_def int32_ok_def)
  show "channel_index ?n a b = Some (a * ?n + b)"
    using le ge n r(3) unfolding channel_index_def int32_ok_def z_def [symmetric] by simp
  show "has_channel g (a * ?n + b)"
    using le ge r(3) len unfolding has_channel_def z_def [symmetric] by (simp add: nat_less_eq_zless)
qed

text \<open>Different pairs of ranks have different queues.\<close>

lemma channel_index_inj:
  assumes "rank_ok n a" "rank_ok n b" "rank_ok n c" "rank_ok n d" "nat (a * n + b) = nat (c * n + d)"
  shows "a = c \<and> b = d"
proof -
  have r: "0 \<le> a" "0 \<le> b" "b < n" "0 \<le> c" "0 \<le> d" "d < n" using assms by (auto simp: rank_ok_def)
  then have e: "a * n + b = c * n + d" using assms(5) by (simp add: eq_nat_nat_iff)
  have "(a * n + b) div n = a" "(c * n + d) div n = c" using r by simp_all
  with e have "a = c" by simp
  with e show ?thesis by simp
qed

lemma grid_view_update:
  assumes wf: "grid_wf g" and a: "rank_ok (gr_n g) a" and b: "rank_ok (gr_n g) b"
  shows "grid_view (g\<lparr>gr_q := (gr_q g)[nat (a * gr_n g + b) := ms]\<rparr>) = set_channel (grid_view g) a b ms"
proof (intro ext)
  fix c d
  have lt: "nat (a * gr_n g + b) < length (gr_q g)"
    using channel_index_range(2) [OF wf a b] by (simp add: has_channel_def)
  show "grid_view (g\<lparr>gr_q := (gr_q g)[nat (a * gr_n g + b) := ms]\<rparr>) c d = set_channel (grid_view g) a b ms c d"
  proof (cases "rank_ok (gr_n g) c \<and> rank_ok (gr_n g) d")
    case True
    then show ?thesis
      using lt channel_index_inj [OF a b, of c d]
      by (cases "c = a \<and> d = b") (auto simp: grid_view_def channel_def set_channel_def nth_list_update)
  next
    case False
    with a b show ?thesis by (auto simp: grid_view_def set_channel_def)
  qed
qed

lemma grid_wf_update:
  assumes "grid_wf g" "\<forall>m \<in> set ms. message_ok m"
  shows "grid_wf (g\<lparr>gr_q := (gr_q g)[i := ms]\<rparr>)"
  using assms set_update_subset_insert [of "gr_q g" i ms] by (auto simp: grid_wf_def)

lemma grid_wf_message:
  assumes "grid_wf g" "rank_ok (gr_n g) a" "rank_ok (gr_n g) b" "m \<in> set (channel g a b)"
  shows "message_ok m"
proof -
  have "channel g a b \<in> set (gr_q g)"
    using channel_index_range(2) [OF assms(1-3)] by (simp add: channel_def has_channel_def)
  with assms(1,4) show ?thesis by (auto simp: grid_wf_def)
qed

lemma vec_memcpy_whole:
  "n \<noteq> 0 \<Longrightarrow> n \<le> length src \<Longrightarrow> length dst = n \<Longrightarrow> vec_memcpy dst src n = Some (take n src)"
  by (simp add: vec_memcpy_def memcpy_def)

lemma inproc_send_effect:
  assumes "grid_wf g" "transport_ok x g" "rank_ok (gr_n g) dst" "len \<noteq> 0" "unat len \<le> length buf"
  shows "inproc_send x True True dst buf len g =
    Returns () (g\<lparr>gr_q := (gr_q g)[nat (xt_my_rank x * gr_n g + dst) :=
      channel g (xt_my_rank x) dst @ [take (unat len) buf]]\<rparr>)"
  using assms channel_index_range [OF assms(1), of "xt_my_rank x" dst]
  by (auto simp: inproc_send_def transport_ok_def rank_ok_def vec_memcpy_whole channel_def unat_eq_0)

lemma inproc_recv_effect:
  assumes wf: "grid_wf g" and x: "transport_ok x g" and src: "rank_ok (gr_n g) src" and buf: "unat len \<le> length buf"
    and ch: "channel g src (xt_my_rank x) = m # ms"
  defines "g' \<equiv> g\<lparr>gr_q := (gr_q g)[nat (src * gr_n g + xt_my_rank x) := ms]\<rparr>"
  shows "inproc_recv x src buf len g =
    (if length m = unat len then Returns (m @ drop (unat len) buf) g' else Throws Recv_Size_Mismatch g')"
proof -
  have r: "rank_ok (gr_n g) (xt_my_rank x)" using x by (simp add: transport_ok_def rank_ok_def)
  have m: "message_ok m" by (rule grid_wf_message [OF wf src r]) (simp add: ch)
  then have "of_nat (length m) = len \<longleftrightarrow> length m = unat len"
    by (simp add: word_unat_eq_iff unat_of_nat)
  with channel_index_range [OF wf src r] x src buf ch m show ?thesis
    by (auto simp: inproc_recv_def transport_ok_def rank_ok_def channel_def g'_def vec_memcpy_def memcpy_def Let_def)
qed

lemma create_wf:
  assumes "inproc_grid_create n = Some g" "0 \<le> n"
  shows "grid_wf g" "gr_n g = n" "grid_view g = (\<lambda>_ _. [])"
proof -
  have g: "g = \<lparr>gr_n = n, gr_q = replicate (nat (n * n)) []\<rparr>" "int32_ok (n * n)"
    using assms by (auto simp: inproc_grid_create_def split: if_splits)
  then show wf: "grid_wf g" and n: "gr_n g = n" using assms(2) by (auto simp: grid_wf_def)
  have "channel g a b = []" if "rank_ok n a" "rank_ok n b" for a b
    using channel_index_range(2) [OF wf, of a b] that n by (simp add: channel_def has_channel_def g)
  then show "grid_view g = (\<lambda>_ _. [])" by (auto simp: grid_view_def n intro!: ext)
qed

text \<open>What a transfer that goes through does to the grid.\<close>

lemma impl_send_effect:
  assumes wf: "grid_wf g" and r: "rank_ok (gr_n g) a" "rank_ok (gr_n g) b" and m: "m \<noteq> []" "length m < 2 ^ 64"
  shows "impl_transfer g (Send a b m) =
    Some (Sent, g\<lparr>gr_q := (gr_q g)[nat (a * gr_n g + b) := channel g a b @ [m]]\<rparr>)"
proof -
  have x: "transport_ok (inproc_transport_create (gr_n g) a) g" "xt_my_rank (inproc_transport_create (gr_n g) a) = a"
    using r by (simp_all add: inproc_transport_create_def transport_ok_def rank_ok_def)
  have len: "unat (of_nat (length m) :: size_t) = length m" using m(2) by (simp add: unat_of_nat)
  then have "(of_nat (length m) :: size_t) \<noteq> 0" using m(1) by (metis length_0_conv unsigned_0)
  then show ?thesis using inproc_send_effect [OF wf x(1) r(2), of "of_nat (length m)" m] x(2) len by simp
qed

lemma impl_recv_effect:
  assumes wf: "grid_wf g" and r: "rank_ok (gr_n g) a" "rank_ok (gr_n g) b" and ch: "channel g a b = m # ms"
  shows "impl_transfer g (Recv a b len) =
    Some (if length m = unat len then Received m else Failed Recv_Size_Mismatch,
          g\<lparr>gr_q := (gr_q g)[nat (a * gr_n g + b) := ms]\<rparr>)"
proof -
  have x: "transport_ok (inproc_transport_create (gr_n g) b) g" "xt_my_rank (inproc_transport_create (gr_n g) b) = b"
    using r by (simp_all add: inproc_transport_create_def transport_ok_def rank_ok_def)
  show ?thesis using inproc_recv_effect [OF wf x(1) r(1), of len "replicate (unat len) 0" m ms] x(2) ch by simp
qed

interpretation inproc: transport grid_wf gr_n grid_view impl_transfer
proof unfold_locales
  fix g a b and m :: block
  assume wf: "grid_wf g" and a: "rank_ok (gr_n g) a" and b: "rank_ok (gr_n g) b" and m: "m \<noteq> []" "length m < 2 ^ 64"
  have "grid_wf (g\<lparr>gr_q := (gr_q g)[nat (a * gr_n g + b) := channel g a b @ [m]]\<rparr>)"
    using grid_wf_message [OF wf a b] m by (intro grid_wf_update [OF wf]) auto
  then show "\<exists>g'. impl_transfer g (Send a b m) = Some (Sent, g') \<and> grid_wf g' \<and> gr_n g' = gr_n g \<and>
      grid_view g' = set_channel (grid_view g) a b (grid_view g a b @ [m])"
    using impl_send_effect [OF wf a b m] grid_view_update [OF wf a b] a b by (simp add: grid_view_def [of g])
next
  fix g a b and m :: block and ms len
  assume wf: "grid_wf g" and a: "rank_ok (gr_n g) a" and b: "rank_ok (gr_n g) b" and v: "grid_view g a b = m # ms"
  have ch: "channel g a b = m # ms" using v a b by (simp add: grid_view_def)
  then have "grid_wf (g\<lparr>gr_q := (gr_q g)[nat (a * gr_n g + b) := ms]\<rparr>)"
    using grid_wf_message [OF wf a b] by (intro grid_wf_update [OF wf]) auto
  then show "\<exists>g'. impl_transfer g (Recv a b len) =
        Some (if length m = unat len then Received m else Failed Recv_Size_Mismatch, g') \<and>
      grid_wf g' \<and> gr_n g' = gr_n g \<and> grid_view g' = set_channel (grid_view g) a b ms"
    using impl_recv_effect [OF wf a b ch, of len] grid_view_update [OF wf a b] by simp
next
  fix g a b and len :: size_t
  assume wf: "grid_wf g" and a: "rank_ok (gr_n g) a" and b: "rank_ok (gr_n g) b" and v: "grid_view g a b = []"
  then have "channel g a b = []" by (simp add: grid_view_def)
  with a show "impl_transfer g (Recv a b len) = Some (Blocked, g)"
    using channel_index_range [OF wf a b]
    by (simp add: inproc_recv_def inproc_transport_create_def rank_ok_def channel_def)
qed (auto simp: inproc_send_def inproc_recv_def inproc_transport_create_def rank_ok_def)

end
