(* ===== verification/Inproc_Threads.thy ===== *)
theory Inproc_Threads
  imports Inproc_Transport
begin

text \<open>
  The calls of the in-process transport as thread programs: any number of threads, each calling \<^verbatim>\<open>send\<close> or
  \<^verbatim>\<open>recv\<close> on any transport of the grid, interleaved at every operation on a mutex or a condition
  variable. A mutex has an owner or none; locking is a step that is enabled when there is none. Waiting
  on a condition variable releases the mutex and joins the wait set in one step; \<^verbatim>\<open>notify_one\<close> moves
  one member of the wait set, if there is one, to those that lock the mutex again; a member may also
  leave it spuriously. What a thread does while it owns the mutex is one step, since nothing else can
  touch the queue then: that at most one thread is there is part of what is proved.

  A call that would be undefined has no step (\<open>None\<close>), as has a thread that is blocked; that an undefined copy
  cannot come up inside a call is part of the invariant.

  \<open>th_pushed\<close> and \<open>th_taken\<close> (per queue) are observers. Memory exhaustion is left to \<open>Inproc_Transport\<close>.
\<close>

section \<open>Definitions\<close>

datatype tpc =
    T_Idle
  | T_Send_Lock nat block
  | T_Send_Push nat block
  | T_Notify nat
  | T_Recv_Lock nat size_t
  | T_Recv_Check nat size_t
  | T_Recv_Wait nat size_t

record tstate =
  th_grid :: inproc_grid
  th_owner :: "nat \<Rightarrow> nat option"
  th_pc :: "tpc list"
  th_ret :: "nat \<Rightarrow> transfer_result option"
  th_pushed :: "nat \<Rightarrow> block list"
  th_taken :: "nat \<Rightarrow> block list"

abbreviation queue :: "tstate \<Rightarrow> nat \<Rightarrow> block list" where
  "queue s i \<equiv> gr_q (th_grid s) ! i"

definition set_queue :: "nat \<Rightarrow> block list \<Rightarrow> tstate \<Rightarrow> tstate" where
  "set_queue i ms s = s\<lparr>th_grid := (th_grid s)\<lparr>gr_q := (gr_q (th_grid s))[i := ms]\<rparr>\<rparr>"

fun waits_on :: "nat \<Rightarrow> tpc \<Rightarrow> bool" where
  "waits_on i (T_Recv_Wait j len) = (j = i)"
| "waits_on i _ = False"

text \<open>The beginning of \<^verbatim>\<open>send\<close>: the test of the rank, the index and the copy of the message.\<close>

definition enter_send :: "nat \<Rightarrow> inproc_transport \<Rightarrow> int \<Rightarrow> block \<Rightarrow> size_t \<Rightarrow> tstate \<Rightarrow> tstate option" where
  "enter_send t x dst_rank buf len s =
     (if dst_rank < 0 \<or> dst_rank \<ge> xt_world_size x
      then Some (s\<lparr>th_ret := (th_ret s)(t := Some (Failed Send_Dst_Out_Of_Range))\<rparr>)
      else do { idx \<leftarrow> channel_index (xt_world_size x) (xt_my_rank x) dst_rank;
                bytes \<leftarrow> vec_memcpy (replicate (unat len) 0) buf (unat len);
                if has_channel (th_grid s) idx
                then Some (s\<lparr>th_pc := (th_pc s)[t := T_Send_Lock (nat idx) bytes]\<rparr>) else None })"

definition enter_recv :: "nat \<Rightarrow> inproc_transport \<Rightarrow> int \<Rightarrow> size_t \<Rightarrow> tstate \<Rightarrow> tstate option" where
  "enter_recv t x src_rank len s =
     (if src_rank < 0 \<or> src_rank \<ge> xt_world_size x
      then Some (s\<lparr>th_ret := (th_ret s)(t := Some (Failed Recv_Src_Out_Of_Range))\<rparr>)
      else do { idx \<leftarrow> channel_index (xt_world_size x) src_rank (xt_my_rank x);
                if has_channel (th_grid s) idx
                then Some (s\<lparr>th_pc := (th_pc s)[t := T_Recv_Lock (nat idx) len]\<rparr>) else None })"

definition lock_then :: "nat \<Rightarrow> nat \<Rightarrow> tpc \<Rightarrow> tstate \<Rightarrow> tstate option" where
  "lock_then t i pc s =
     (if th_owner s i = None
      then Some (s\<lparr>th_owner := (th_owner s)(i := Some t), th_pc := (th_pc s)[t := pc]\<rparr>) else None)"

text \<open>\<^verbatim>\<open>q[idx].push(...)\<close>, and the end of the scope of the lock.\<close>

definition push_unlock :: "nat \<Rightarrow> nat \<Rightarrow> block \<Rightarrow> tstate \<Rightarrow> tstate" where
  "push_unlock t i bytes s =
     (set_queue i (queue s i @ [bytes]) s)\<lparr>th_owner := (th_owner s)(i := None),
        th_pc := (th_pc s)[t := T_Notify i], th_pushed := (th_pushed s)(i := th_pushed s i @ [bytes])\<rparr>"

text \<open>\<^verbatim>\<open>cv[idx].notify_one()\<close>: thread \<open>w\<close>, if any waits, goes back to locking the mutex.\<close>

definition notify :: "nat \<Rightarrow> nat \<Rightarrow> nat \<Rightarrow> tstate \<Rightarrow> tstate option" where
  "notify t i w s =
     (let fin = s\<lparr>th_pc := (th_pc s)[t := T_Idle], th_ret := (th_ret s)(t := Some Sent)\<rparr> in
      if \<not> (\<exists>pc \<in> set (th_pc s). waits_on i pc) then Some fin
      else if w < length (th_pc s)
           then case th_pc s ! w of
                  T_Recv_Wait j len \<Rightarrow> if j = i then Some (fin\<lparr>th_pc := (th_pc fin)[w := T_Recv_Lock i len]\<rparr>) else None
                | _ \<Rightarrow> None
           else None)"

text \<open>
  The predicate of \<^verbatim>\<open>cv[idx].wait\<close>: when the queue is empty the mutex is released and the thread waits;
  otherwise the oldest message is taken, the mutex released, the size compared and the message copied.
\<close>

definition check_take :: "nat \<Rightarrow> nat \<Rightarrow> size_t \<Rightarrow> tstate \<Rightarrow> tstate option" where
  "check_take t i len s =
     (case queue s i of
        [] \<Rightarrow> Some (s\<lparr>th_owner := (th_owner s)(i := None), th_pc := (th_pc s)[t := T_Recv_Wait i len]\<rparr>)
      | m # ms \<Rightarrow>
          let s = (set_queue i ms s)\<lparr>th_owner := (th_owner s)(i := None), th_pc := (th_pc s)[t := T_Idle],
                    th_taken := (th_taken s)(i := th_taken s i @ [m])\<rparr> in
          if of_nat (length m) \<noteq> len then Some (s\<lparr>th_ret := (th_ret s)(t := Some (Failed Recv_Size_Mismatch))\<rparr>)
          else do { buf \<leftarrow> vec_memcpy (replicate (unat len) 0) m (unat len);
                    Some (s\<lparr>th_ret := (th_ret s)(t := Some (Received buf))\<rparr>) })"

definition thread_step :: "nat \<Rightarrow> nat \<Rightarrow> tstate \<Rightarrow> tstate option" where
  "thread_step t w s =
     (case th_pc s ! t of
        T_Idle \<Rightarrow> None
      | T_Send_Lock i bytes \<Rightarrow> lock_then t i (T_Send_Push i bytes) s
      | T_Send_Push i bytes \<Rightarrow> Some (push_unlock t i bytes s)
      | T_Notify i \<Rightarrow> notify t i w s
      | T_Recv_Lock i len \<Rightarrow> lock_then t i (T_Recv_Check i len) s
      | T_Recv_Check i len \<Rightarrow> check_take t i len s
      | T_Recv_Wait i len \<Rightarrow> None)"

definition spurious_wakeup :: "nat \<Rightarrow> tstate \<Rightarrow> tstate option" where
  "spurious_wakeup t s =
     (case th_pc s ! t of T_Recv_Wait i len \<Rightarrow> Some (s\<lparr>th_pc := (th_pc s)[t := T_Recv_Lock i len]\<rparr>) | _ \<Rightarrow> None)"

datatype taction =
    Enter_Send nat inproc_transport int block size_t
  | Enter_Recv nat inproc_transport int size_t
  | Step nat nat
  | Spurious nat

fun taction_step :: "taction \<Rightarrow> tstate \<Rightarrow> tstate option" where
  "taction_step (Enter_Send t x dst buf len) s =
     (if t < length (th_pc s) \<and> th_pc s ! t = T_Idle then enter_send t x dst buf len s else None)"
| "taction_step (Enter_Recv t x src len) s =
     (if t < length (th_pc s) \<and> th_pc s ! t = T_Idle then enter_recv t x src len s else None)"
| "taction_step (Step t w) s = (if t < length (th_pc s) then thread_step t w s else None)"
| "taction_step (Spurious t) s = (if t < length (th_pc s) then spurious_wakeup t s else None)"

fun taction_run :: "taction list \<Rightarrow> tstate \<Rightarrow> tstate option" where
  "taction_run [] s = Some s"
| "taction_run (a # as) s = (case taction_step a s of None \<Rightarrow> None | Some s' \<Rightarrow> taction_run as s')"

definition threads_start :: "inproc_grid \<Rightarrow> nat \<Rightarrow> tstate" where
  "threads_start g k = \<lparr>th_grid = g, th_owner = (\<lambda>_. None), th_pc = replicate k T_Idle, th_ret = (\<lambda>_. None),
     th_pushed = (\<lambda>_. []), th_taken = (\<lambda>_. [])\<rparr>"

inductive threads_reachable :: "tstate \<Rightarrow> bool" where
  created: "inproc_grid_create n = Some g \<Longrightarrow> threads_reachable (threads_start g k)"
| acted: "threads_reachable s \<Longrightarrow> taction_step a s = Some s' \<Longrightarrow> threads_reachable s'"

subsection \<open>The invariant\<close>

fun inside :: "nat \<Rightarrow> tpc \<Rightarrow> bool" where
  "inside i (T_Send_Push j bytes) = (j = i)"
| "inside i (T_Recv_Check j len) = (j = i)"
| "inside i _ = False"

text \<open>Threads that will see to it that a message in queue \<open>i\<close> is looked at.\<close>

fun attends :: "nat \<Rightarrow> tpc \<Rightarrow> bool" where
  "attends i (T_Notify j) = (j = i)"
| "attends i (T_Recv_Lock j len) = (j = i)"
| "attends i (T_Recv_Check j len) = (j = i)"
| "attends i _ = False"

fun index_of :: "tpc \<Rightarrow> nat option" where
  "index_of (T_Send_Lock i bytes) = Some i"
| "index_of (T_Send_Push i bytes) = Some i"
| "index_of (T_Notify i) = Some i"
| "index_of (T_Recv_Lock i len) = Some i"
| "index_of (T_Recv_Check i len) = Some i"
| "index_of (T_Recv_Wait i len) = Some i"
| "index_of T_Idle = None"

fun carries_ok :: "tpc \<Rightarrow> bool" where
  "carries_ok (T_Send_Lock i bytes) = message_ok bytes"
| "carries_ok (T_Send_Push i bytes) = message_ok bytes"
| "carries_ok _ = True"

definition idx_ok :: "nat \<Rightarrow> tpc list \<Rightarrow> bool" where
  "idx_ok n pcs \<longleftrightarrow> (\<forall>pc \<in> set pcs. carries_ok pc \<and> (\<forall>i. index_of pc = Some i \<longrightarrow> i < n))"

definition owner_ok :: "(nat \<Rightarrow> nat option) \<Rightarrow> tpc list \<Rightarrow> bool" where
  "owner_ok owner pcs \<longleftrightarrow> (\<forall>i t. owner i = Some t \<longleftrightarrow> t < length pcs \<and> inside i (pcs ! t))"

text \<open>While somebody waits, there are at least as many attending threads as messages.\<close>

definition wake_ok :: "nat \<Rightarrow> block list \<Rightarrow> tpc list \<Rightarrow> bool" where
  "wake_ok i ms pcs \<longleftrightarrow> ((\<exists>pc \<in> set pcs. waits_on i pc) \<longrightarrow> length ms \<le> length (filter (attends i) pcs))"

definition threads_inv :: "tstate \<Rightarrow> bool" where
  "threads_inv s \<longleftrightarrow> idx_ok (length (gr_q (th_grid s))) (th_pc s) \<and> owner_ok (th_owner s) (th_pc s) \<and>
     (\<forall>i < length (gr_q (th_grid s)). th_pushed s i = th_taken s i @ queue s i \<and> (\<forall>m \<in> set (queue s i). message_ok m) \<and>
        wake_ok i (queue s i) (th_pc s))"

section \<open>One thread moves\<close>

lemma idx_ok_update: "idx_ok n pcs \<Longrightarrow> carries_ok v \<Longrightarrow> (\<And>i. index_of v = Some i \<Longrightarrow> i < n) \<Longrightarrow> idx_ok n (pcs[t := v])"
  using set_update_subset_insert [of pcs t v] by (auto simp: idx_ok_def)

lemma owner_ok_keep:
  "owner_ok owner pcs \<Longrightarrow> (\<And>i. inside i v = inside i (pcs ! t)) \<Longrightarrow> owner_ok owner (pcs[t := v])"
  by (cases "t < length pcs") (auto simp: owner_ok_def nth_list_update)

lemma owner_okD: "owner_ok owner pcs \<Longrightarrow> owner i = Some t \<longleftrightarrow> t < length pcs \<and> inside i (pcs ! t)"
  by (simp add: owner_ok_def)

lemma owner_ok_lock:
  assumes ok: "owner_ok owner pcs" and t: "t < length pcs" and free: "owner i = None"
    and old: "\<And>j. \<not> inside j (pcs ! t)" and new: "\<And>j. inside j v \<longleftrightarrow> j = i"
  shows "owner_ok (owner(i := Some t)) (pcs[t := v])"
  unfolding owner_ok_def
proof (intro allI)
  fix j u
  have "\<not> (u < length pcs \<and> inside i (pcs ! u))" using owner_okD [OF ok, of i u] free by simp
  then show "(owner(i := Some t)) j = Some u \<longleftrightarrow> u < length (pcs[t := v]) \<and> inside j (pcs[t := v] ! u)"
    using owner_okD [OF ok, of j u] t old new by (cases "u = t"; cases "j = i") auto
qed

lemma owner_ok_unlock:
  assumes ok: "owner_ok owner pcs" and t: "t < length pcs"
    and old: "\<And>j. inside j (pcs ! t) \<longleftrightarrow> j = i" and new: "\<And>j. \<not> inside j v"
  shows "owner_ok (owner(i := None)) (pcs[t := v])"
  unfolding owner_ok_def
proof (intro allI)
  fix j u
  show "(owner(i := None)) j = Some u \<longleftrightarrow> u < length (pcs[t := v]) \<and> inside j (pcs[t := v] ! u)"
  proof (cases "u = t")
    case True
    then show ?thesis using owner_okD [OF ok, of j t] old [of j] new [of j] t by simp
  next
    case False
    have "owner i = Some t" using owner_okD [OF ok, of i t] old [of i] t by simp
    with False show ?thesis using owner_okD [OF ok, of j u] by (cases "j = i") simp_all
  qed
qed

lemma waits_update:
  "\<exists>pc \<in> set (pcs[t := v]). waits_on i pc \<Longrightarrow> \<not> waits_on i v \<Longrightarrow> \<exists>pc \<in> set pcs. waits_on i pc"
  using set_update_subset_insert [of pcs t v] by auto

lemma wake_ok_update:
  assumes "wake_ok i ms pcs" "t < length pcs" "waits_on i v \<Longrightarrow> ms' = []"
    "length ms' + of_bool (attends i (pcs ! t)) \<le> length ms + of_bool (attends i v)"
  shows "wake_ok i ms' (pcs[t := v])"
proof -
  have "length ms' \<le> length (filter (attends i) (pcs[t := v]))" if "length ms \<le> length (filter (attends i) pcs)"
    using that assms(4) filter_update_count [OF assms(2), of "attends i" v] by linarith
  then show ?thesis
    using assms(1,3) waits_update [of pcs t v i] unfolding wake_ok_def by (cases "waits_on i v") (simp, metis)
qed

lemma inside_iff: "inside j (T_Send_Push i b) \<longleftrightarrow> j = i" "inside j (T_Recv_Check i len) \<longleftrightarrow> j = i"
  by auto

lemma threads_invD:
  assumes "threads_inv s"
  shows "idx_ok (length (gr_q (th_grid s))) (th_pc s)" "owner_ok (th_owner s) (th_pc s)"
    "i < length (gr_q (th_grid s)) \<Longrightarrow> th_pushed s i = th_taken s i @ queue s i"
    "i < length (gr_q (th_grid s)) \<Longrightarrow> wake_ok i (queue s i) (th_pc s)"
    "t < length (th_pc s) \<Longrightarrow> index_of (th_pc s ! t) = Some i \<Longrightarrow> i < length (gr_q (th_grid s))"
    "t < length (th_pc s) \<Longrightarrow> carries_ok (th_pc s ! t)"
    "i < length (gr_q (th_grid s)) \<Longrightarrow> \<forall>m \<in> set (queue s i). message_ok m"
  using assms by (auto simp: threads_inv_def idx_ok_def)

text \<open>A step of thread \<open>t\<close> that leaves the queues alone.\<close>

lemma quiet_step_inv:
  assumes inv: "threads_inv s" and t: "t < length (th_pc s)"
    and same: "th_grid s' = th_grid s" "th_pushed s' = th_pushed s" "th_taken s' = th_taken s"
    and pc: "th_pc s' = (th_pc s)[t := v]"
    and bytes: "carries_ok v"
    and idx: "\<And>i. index_of v = Some i \<Longrightarrow> i < length (gr_q (th_grid s))"
    and own: "owner_ok (th_owner s') ((th_pc s)[t := v])"
    and att: "\<And>i. i < length (gr_q (th_grid s)) \<Longrightarrow> attends i (th_pc s ! t) \<Longrightarrow> attends i v \<or> queue s i = []"
    and wait: "\<And>i. i < length (gr_q (th_grid s)) \<Longrightarrow> waits_on i v \<Longrightarrow> queue s i = []"
  shows "threads_inv s'"
proof -
  note D = threads_invD [OF inv]
  have "wake_ok i (queue s i) ((th_pc s)[t := v])" if "i < length (gr_q (th_grid s))" for i
  proof (cases "queue s i = []")
    case False
    with that att wait D(4) t show ?thesis by (intro wake_ok_update [of i "queue s i"]) auto
  qed (simp add: wake_ok_def)
  then show ?thesis using idx_ok_update [OF D(1) bytes] idx own D(3,7) by (simp add: threads_inv_def same pc)
qed

section \<open>Every step keeps the invariant\<close>

lemma vec_memcpy_ok:
  assumes "vec_memcpy (replicate (unat (len :: size_t)) 0) buf (unat len) = Some bytes"
  shows "message_ok bytes"
proof -
  have "unat len < 2 ^ LENGTH(64)" by (rule unsigned_less)
  with assms show ?thesis by (auto simp: vec_memcpy_def memcpy_def split: if_splits)
qed

lemma enter_send_inv:
  assumes inv: "threads_inv s" and t: "t < length (th_pc s)" "th_pc s ! t = T_Idle"
    and st: "enter_send t x dst buf len s = Some s'"
  shows "threads_inv s'"
proof (cases "dst < 0 \<or> dst \<ge> xt_world_size x")
  case True
  then show ?thesis using st inv by (fastforce simp: enter_send_def threads_inv_def)
next
  case False
  then obtain i bytes where "i < length (gr_q (th_grid s))" "s' = s\<lparr>th_pc := (th_pc s)[t := T_Send_Lock i bytes]\<rparr>"
    "message_ok bytes"
    using st vec_memcpy_ok by (auto simp: enter_send_def has_channel_def split: Option.bind_splits if_splits)
  then show ?thesis
    by (intro quiet_step_inv [OF inv t(1), where v = "T_Send_Lock i bytes"])
      (use t owner_ok_keep [OF threads_invD(2) [OF inv]] in auto)
qed

lemma enter_recv_inv:
  assumes inv: "threads_inv s" and t: "t < length (th_pc s)" "th_pc s ! t = T_Idle"
    and st: "enter_recv t x src len s = Some s'"
  shows "threads_inv s'"
proof (cases "src < 0 \<or> src \<ge> xt_world_size x")
  case True
  then show ?thesis using st inv by (fastforce simp: enter_recv_def threads_inv_def)
next
  case False
  then obtain i where "i < length (gr_q (th_grid s))" "s' = s\<lparr>th_pc := (th_pc s)[t := T_Recv_Lock i len]\<rparr>"
    using st by (auto simp: enter_recv_def has_channel_def split: Option.bind_splits if_splits)
  then show ?thesis
    by (intro quiet_step_inv [OF inv t(1), where v = "T_Recv_Lock i len"])
      (use t owner_ok_keep [OF threads_invD(2) [OF inv]] in auto)
qed

lemma lock_then_inv:
  assumes inv: "threads_inv s" and t: "t < length (th_pc s)" and st: "lock_then t i v s = Some s'"
    and pc: "th_pc s ! t = T_Send_Lock i bytes \<and> v = T_Send_Push i bytes \<or> th_pc s ! t = T_Recv_Lock i len \<and> v = T_Recv_Check i len"
  shows "threads_inv s'"
proof -
  have free: "th_owner s i = None" and s': "s' = s\<lparr>th_owner := (th_owner s)(i := Some t), th_pc := (th_pc s)[t := v]\<rparr>"
    using st by (auto simp: lock_then_def split: if_splits)
  have "owner_ok (th_owner s') ((th_pc s)[t := v])"
    unfolding s' using pc by (simp, intro owner_ok_lock [OF threads_invD(2) [OF inv] t free]) auto
  moreover have "i < length (gr_q (th_grid s))" "carries_ok v"
    using threads_invD(5) [OF inv t, of i] threads_invD(6) [OF inv t] pc by auto
  ultimately show ?thesis
    by (intro quiet_step_inv [OF inv t, of s' v]) (use pc in \<open>auto simp: s'\<close>)
qed

lemma push_unlock_inv:
  assumes inv: "threads_inv s" and t: "t < length (th_pc s)" and pc: "th_pc s ! t = T_Send_Push i bytes"
  shows "threads_inv (push_unlock t i bytes s)"
proof -
  note D = threads_invD [OF inv]
  have i: "i < length (gr_q (th_grid s))" and m: "message_ok bytes" using D(5) [OF t, of i] D(6) [OF t] pc by simp_all
  have "owner_ok ((th_owner s)(i := None)) ((th_pc s)[t := T_Notify i])"
    by (rule owner_ok_unlock [OF D(2) t]) (auto simp: pc)
  moreover have "idx_ok (length (gr_q (th_grid s))) ((th_pc s)[t := T_Notify i])"
    by (rule idx_ok_update [OF D(1)]) (use i in simp_all)
  moreover have "wake_ok i (queue s i @ [bytes]) ((th_pc s)[t := T_Notify i])"
    by (rule wake_ok_update [OF D(4) [OF i] t]) (auto simp: pc)
  moreover have "wake_ok j (queue s j) ((th_pc s)[t := T_Notify i])"
    if "j < length (gr_q (th_grid s))" "i \<noteq> j" for j
    by (rule wake_ok_update [OF D(4) [OF that(1)] t]) (use that in \<open>auto simp: pc\<close>)
  ultimately show ?thesis
    using i m D(3,7) by (auto simp: threads_inv_def push_unlock_def set_queue_def nth_list_update)
qed

lemma check_take_message:
  assumes "queue s i = m # ms" "message_ok m"
  shows "check_take t i len s = Some ((set_queue i ms s)\<lparr>th_owner := (th_owner s)(i := None), th_pc := (th_pc s)[t := T_Idle],
    th_taken := (th_taken s)(i := th_taken s i @ [m]),
    th_ret := (th_ret s)(t := Some (if of_nat (length m) \<noteq> len then Failed Recv_Size_Mismatch else Received m))\<rparr>)"
proof -
  have "vec_memcpy (replicate (length m) 0) m (length m) = Some m"
    using assms(2) vec_memcpy_whole [of "length m" m "replicate (length m) 0"] by simp
  moreover have "unat (of_nat (length m) :: size_t) = length m" using assms(2) by (simp add: unat_of_nat)
  ultimately show ?thesis using assms(1) by (auto simp: check_take_def set_queue_def)
qed

lemma check_take_inv:
  assumes inv: "threads_inv s" and t: "t < length (th_pc s)" and pc: "th_pc s ! t = T_Recv_Check i len"
  shows "\<exists>s'. check_take t i len s = Some s' \<and> threads_inv s'"
proof -
  note D = threads_invD [OF inv]
  have i: "i < length (gr_q (th_grid s))" using D(5) [OF t, of i] pc by simp
  show ?thesis
  proof (cases "queue s i")
    case Nil
    have "owner_ok ((th_owner s)(i := None)) ((th_pc s)[t := T_Recv_Wait i len])"
      by (rule owner_ok_unlock [OF D(2) t]) (auto simp: pc)
    then have "threads_inv (s\<lparr>th_owner := (th_owner s)(i := None), th_pc := (th_pc s)[t := T_Recv_Wait i len]\<rparr>)"
      by (intro quiet_step_inv [OF inv t, where v = "T_Recv_Wait i len"]) (use i pc Nil in auto)
    with Nil show ?thesis by (simp add: check_take_def)
  next
    case (Cons m ms)
    have "owner_ok ((th_owner s)(i := None)) ((th_pc s)[t := T_Idle])"
      by (rule owner_ok_unlock [OF D(2) t]) (auto simp: pc)
    moreover have "idx_ok (length (gr_q (th_grid s))) ((th_pc s)[t := T_Idle])"
      by (rule idx_ok_update [OF D(1)]) simp_all
    moreover have "wake_ok i ms ((th_pc s)[t := T_Idle])"
      by (rule wake_ok_update [OF D(4) [OF i] t]) (auto simp: pc Cons)
    moreover have "wake_ok j (queue s j) ((th_pc s)[t := T_Idle])"
      if "j < length (gr_q (th_grid s))" "i \<noteq> j" for j
      by (rule wake_ok_update [OF D(4) [OF that(1)] t]) (use that in \<open>auto simp: pc\<close>)
    ultimately show ?thesis
      using i D(3,7) Cons check_take_message [OF Cons] by (fastforce simp: threads_inv_def set_queue_def nth_list_update)
  qed
qed

text \<open>A wake-up moves one thread from the waiting to the attending ones; the notifier leaves them.\<close>

lemma notify_inv:
  assumes inv: "threads_inv s" and t: "t < length (th_pc s)" and pc: "th_pc s ! t = T_Notify i"
    and st: "notify t i w s = Some s'"
  shows "threads_inv s'"
proof -
  note D = threads_invD [OF inv]
  define fin where "fin = s\<lparr>th_pc := (th_pc s)[t := T_Idle], th_ret := (th_ret s)(t := Some Sent)\<rparr>"
  have own: "owner_ok (th_owner s) ((th_pc s)[t := T_Idle])" by (rule owner_ok_keep [OF D(2)]) (simp add: pc)
  have idx: "idx_ok (length (gr_q (th_grid s))) ((th_pc s)[t := T_Idle])" by (rule idx_ok_update [OF D(1)]) simp_all
  show ?thesis
  proof (cases "\<exists>pc \<in> set (th_pc s). waits_on i pc")
    case False
    then have s': "s' = fin" using st by (simp add: notify_def fin_def)
    have nowait: "\<not> waits_on i pc" if "pc \<in> set ((th_pc s)[t := T_Idle])" for pc
      using that False waits_update [of "th_pc s" t T_Idle i] by auto
    have "wake_ok j (queue s j) ((th_pc s)[t := T_Idle])" if "j < length (gr_q (th_grid s))" for j
    proof (cases "j = i")
      case False
      then show ?thesis by (intro wake_ok_update [OF D(4) [OF that] t]) (simp_all add: pc)
    qed (use nowait in \<open>simp add: wake_ok_def\<close>)
    with own idx D(3,7) show ?thesis by (simp add: s' fin_def threads_inv_def)
  next
    case True
    then obtain len where w: "w < length (th_pc s)" "th_pc s ! w = T_Recv_Wait i len"
      and s': "s' = fin\<lparr>th_pc := (th_pc s)[t := T_Idle, w := T_Recv_Lock i len]\<rparr>"
      using st by (auto simp: notify_def fin_def Let_def split: if_splits tpc.splits)
    have wt: "w \<noteq> t" using w pc by auto
    define pcs where "pcs = (th_pc s)[w := T_Recv_Lock i len]"
    have swap: "(th_pc s)[t := T_Idle, w := T_Recv_Lock i len] = pcs[t := T_Idle]"
      unfolding pcs_def using wt by (metis list_update_swap)
    have i: "i < length (gr_q (th_grid s))" using D(5) [OF t, of i] pc by simp
    have "wake_ok j (queue s j) (pcs[t := T_Idle])" if j: "j < length (gr_q (th_grid s))" for j
    proof -
      have "\<exists>pc \<in> set (th_pc s). waits_on j pc" if "\<exists>pc \<in> set (pcs[t := T_Idle]). waits_on j pc"
        using waits_update [OF that] waits_update [of "th_pc s" w "T_Recv_Lock i len" j] by (simp add: pcs_def)
      moreover have "length (filter (attends j) (pcs[t := T_Idle])) = length (filter (attends j) (th_pc s))"
        using filter_update_count [of w "th_pc s" "attends j" "T_Recv_Lock i len"]
          filter_update_count [of t pcs "attends j" T_Idle] w t wt pc by (auto simp: pcs_def)
      ultimately show ?thesis using D(4) [OF j] by (simp add: wake_ok_def)
    qed
    moreover have "owner_ok (th_owner s) (pcs[t := T_Idle])" "idx_ok (length (gr_q (th_grid s))) (pcs[t := T_Idle])"
      using owner_ok_keep [OF own, of "T_Recv_Lock i len" w] idx_ok_update [OF idx, of "T_Recv_Lock i len" w] w wt i
      by (simp_all add: swap)
    ultimately show ?thesis using D(3,7) by (simp add: s' fin_def swap threads_inv_def)
  qed
qed

lemma spurious_inv:
  assumes inv: "threads_inv s" and t: "t < length (th_pc s)" and st: "spurious_wakeup t s = Some s'"
  shows "threads_inv s'"
proof -
  obtain i len where pc: "th_pc s ! t = T_Recv_Wait i len" and s': "s' = s\<lparr>th_pc := (th_pc s)[t := T_Recv_Lock i len]\<rparr>"
    using st by (auto simp: spurious_wakeup_def split: tpc.splits)
  have "i < length (gr_q (th_grid s))" using threads_invD(5) [OF inv t, of i] pc by simp
  then show ?thesis
    by (intro quiet_step_inv [OF inv t, where v = "T_Recv_Lock i len"])
      (use pc owner_ok_keep [OF threads_invD(2) [OF inv]] in \<open>auto simp: s'\<close>)
qed

lemma taction_step_inv:
  assumes inv: "threads_inv s" and st: "taction_step a s = Some s'"
  shows "threads_inv s'"
proof (cases a)
  case (Step t w)
  then have t: "t < length (th_pc s)" and "thread_step t w s = Some s'" using st by (auto split: if_splits)
  then show ?thesis
    using lock_then_inv [OF inv t] push_unlock_inv [OF inv t] notify_inv [OF inv t] check_take_inv [OF inv t]
    by (cases "th_pc s ! t") (force simp: thread_step_def)+
qed (use st enter_send_inv [OF inv] enter_recv_inv [OF inv] spurious_inv [OF inv] in \<open>auto split: if_splits\<close>)

lemma threads_reachable_inv: "threads_reachable s \<Longrightarrow> threads_inv s"
proof (induction rule: threads_reachable.induct)
  case (created n g k)
  then show ?case
    by (auto simp: threads_inv_def threads_start_def idx_ok_def owner_ok_def wake_ok_def inproc_grid_create_def
        split: if_splits)
next
  case (acted s a s')
  then show ?case by (blast intro: taction_step_inv)
qed

lemma taction_run_reachable:
  "taction_run as s = Some s' \<Longrightarrow> threads_reachable s \<Longrightarrow> threads_reachable s'"
  by (induction as arbitrary: s) (auto split: option.splits intro: threads_reachable.acted)

section \<open>Somebody can go on\<close>

lemma lock_holder_moves:
  assumes "threads_inv s" "th_owner s i = Some u"
  shows "\<exists>s'. taction_step (Step u w) s = Some s'"
proof -
  have "u < length (th_pc s)" "inside i (th_pc s ! u)"
    using owner_okD [OF threads_invD(2) [OF assms(1)], of i u] assms(2) by simp_all
  then show ?thesis using check_take_inv [OF assms(1), of u] by (cases "th_pc s ! u") (force simp: thread_step_def)+
qed

lemma some_thread_moves:
  assumes inv: "threads_inv s" and t: "t < length (th_pc s)"
    and busy: "th_pc s ! t \<noteq> T_Idle" "\<And>i len. th_pc s ! t \<noteq> T_Recv_Wait i len"
  shows "\<exists>u w s'. taction_step (Step u w) s = Some s'"
proof -
  have lock: "\<exists>u w s'. taction_step (Step u w) s = Some s'"
    if "th_pc s ! t = T_Send_Lock i b \<or> th_pc s ! t = T_Recv_Lock i len" for i b len
  proof (cases "th_owner s i")
    case None
    with that t show ?thesis by (intro exI [of _ t]) (auto simp: thread_step_def lock_then_def)
  qed (use lock_holder_moves [OF inv] in blast)
  have inside: "\<exists>u w s'. taction_step (Step u w) s = Some s'" if "inside i (th_pc s ! t)" for i
    using lock_holder_moves [OF inv, of i t] owner_okD [OF threads_invD(2) [OF inv], of i t] t that by blast
  show ?thesis
  proof (cases "th_pc s ! t")
    case (T_Notify i)
    show ?thesis
    proof (cases "\<exists>pc \<in> set (th_pc s). waits_on i pc")
      case True
      then obtain w where w: "w < length (th_pc s)" "waits_on i (th_pc s ! w)" by (metis in_set_conv_nth)
      then obtain len where "th_pc s ! w = T_Recv_Wait i len" by (cases "th_pc s ! w") auto
      with True w T_Notify t show ?thesis
        by (intro exI [of _ t] exI [of _ w]) (auto simp: thread_step_def notify_def Let_def)
    next
      case False
      with T_Notify t show ?thesis by (intro exI [of _ t]) (auto simp: thread_step_def notify_def Let_def)
    qed
  qed (use busy lock inside in auto)
qed

text \<open>No wake-up is lost: when nothing moves, those who wait do so on empty queues.\<close>

lemma stuck_waits_empty:
  assumes inv: "threads_inv s" and stuck: "\<forall>u w. taction_step (Step u w) s = None"
    and t: "t < length (th_pc s)" "th_pc s ! t = T_Recv_Wait i len"
  shows "queue s i = []"
proof -
  note D = threads_invD [OF inv]
  have "\<not> attends i pc" if "pc \<in> set (th_pc s)" for pc
  proof -
    from that obtain u where u: "u < length (th_pc s)" "th_pc s ! u = pc" by (metis in_set_conv_nth)
    then have "pc = T_Idle \<or> (\<exists>j len. pc = T_Recv_Wait j len)"
      using some_thread_moves [OF inv u(1)] stuck by (metis option.distinct(1))
    then show ?thesis by auto
  qed
  then have "filter (attends i) (th_pc s) = []" by (simp add: filter_empty_conv)
  moreover have "\<exists>pc \<in> set (th_pc s). waits_on i pc" using t by (metis nth_mem waits_on.simps(1))
  ultimately show ?thesis using D(4) [of i] D(5) [OF t(1), of i] t(2) by (auto simp: wake_ok_def)
qed

end
