(* ===== verification/Inproc_Properties.thy ===== *)
theory Inproc_Properties
  imports Inproc_Threads
begin

text \<open>
  The claims about the in-process transport: the grid is a set of independent FIFO channels (C36), what
  each call does in every case (C37), its well-formedness and the absence of undefined behaviour (C35),
  and, for overlapping calls, mutual exclusion, order, progress and no lost wake-up (C22).
\<close>

section \<open>One call at a time\<close>

text \<open>
  C36: on a new grid of \<open>n\<close> ranks, any sequence of receives and of sends of at least one byte by the ranks
  returns what \<open>n\<close> times \<open>n\<close> separate queues return, with no undefined behaviour. Between two ranks, what was sent is what was
  received and what is still queued, in that order, unless a receive asked for a wrong length; in any
  case what is received was sent, in the same order.
\<close>

theorem inproc_channels_fifo:
  assumes "inproc_grid_create n = Some g" "0 \<le> n" "\<forall>t \<in> set ts. transfer_ok n t"
  shows "\<exists>rs g'. run_transfers impl_transfer g ts = Some (rs, g') \<and>
    rs = fst (spec_transfers n (\<lambda>_ _. []) ts) \<and>
    (\<forall>a b. rank_ok n a \<longrightarrow> rank_ok n b \<longrightarrow>
       channel g' a b = snd (spec_transfers n (\<lambda>_ _. []) ts) a b \<and>
       (Failed Recv_Size_Mismatch \<notin> set rs \<longrightarrow> sent_on a b ts rs = received_on a b ts rs @ channel g' a b) \<and>
       subseq (received_on a b ts rs @ channel g' a b) (sent_on a b ts rs))"
proof -
  note W = create_wf [OF assms(1,2)]
  obtain rs f where rf: "spec_transfers n (\<lambda>_ _. []) ts = (rs, f)" by fastforce
  obtain g' where g': "run_transfers impl_transfer g ts = Some (rs, g')" "gr_n g' = n" "grid_view g' = f"
    using inproc.run_refines [OF W(1), of ts] assms(3) by (auto simp: W rf)
  then have "channel g' a b = f a b" if "rank_ok n a" "rank_ok n b" for a b
    using that by (auto simp: grid_view_def)
  with g' rf show ?thesis
    using spec_transfers_fifo [OF rf] spec_transfers_subseq [OF rf] by (intro exI [of _ rs] exI [of _ g']) auto
qed

theorem inproc_channels_fifo_witness:
  "\<exists>g rs g'. inproc_grid_create 2 = Some g \<and>
     run_transfers impl_transfer g [Send 0 1 [7], Send 0 1 [8, 9], Send 1 0 [5], Recv 0 1 1, Recv 1 0 1, Recv 0 1 2, Recv 0 1 1, Send 0 2 []]
       = Some (rs, g') \<and> rs = [Sent, Sent, Sent, Received [7], Received [5], Received [8, 9], Blocked, Failed Send_Dst_Out_Of_Range]"
proof -
  define g where "g = \<lparr>gr_n = 2, gr_q = replicate 4 []\<rparr>"
  have g: "inproc_grid_create 2 = Some g" by (simp add: inproc_grid_create_def int32_ok_def g_def)
  show ?thesis
    using inproc_channels_fifo [OF g, of "[Send 0 1 [7], Send 0 1 [8, 9], Send 1 0 [5], Recv 0 1 1, Recv 1 0 1, Recv 0 1 2, Recv 0 1 1, Send 0 2 []]"] g
    by (auto simp: rank_ok_def set_channel_def)
qed

text \<open>
  C37: what each call does, case by case. A peer outside the grid is reported and nothing changes. A send
  of no bytes is undefined behaviour (the copy goes through the null pointer of an empty vector). Any other send
  appends exactly the \<open>len\<close> bytes at the buffer to the channel to its peer and changes no other; when
  memory runs out it changes nothing. A receive blocks exactly when its channel is empty; otherwise it
  removes the oldest message, and copies it when it has the length asked for. When it has not, the call
  throws and the message is lost.
\<close>

theorem inproc_call_outcomes:
  assumes "grid_wf g" "transport_ok x g" "unat len \<le> length buf"
  defines "me \<equiv> xt_my_rank x"
  shows "(\<not> rank_ok (gr_n g) peer \<longrightarrow>
      inproc_send x vec_ok queue_ok peer buf len g = Throws Send_Dst_Out_Of_Range g \<and>
      inproc_recv x peer buf len g = Throws Recv_Src_Out_Of_Range g) \<and>
    (rank_ok (gr_n g) peer \<longrightarrow>
      (if len = 0 then inproc_send x vec_ok queue_ok peer buf len g = Undefined
       else if vec_ok \<and> queue_ok
       then \<exists>g'. inproc_send x vec_ok queue_ok peer buf len g = Returns () g' \<and>
              grid_view g' = set_channel (grid_view g) me peer (channel g me peer @ [take (unat len) buf])
       else inproc_send x vec_ok queue_ok peer buf len g = Throws No_Memory g) \<and>
      (case channel g peer me of
         [] \<Rightarrow> inproc_recv x peer buf len g = Waits
       | m # ms \<Rightarrow> \<exists>g'. grid_view g' = set_channel (grid_view g) peer me ms \<and>
           inproc_recv x peer buf len g =
             (if length m = unat len then Returns (m @ drop (unat len) buf) g' else Throws Recv_Size_Mismatch g')))"
proof -
  have me: "rank_ok (gr_n g) me" and ws: "xt_world_size x = gr_n g"
    using assms(2) by (simp_all add: transport_ok_def rank_ok_def me_def)
  have send: "\<exists>g'. inproc_send x True True peer buf len g = Returns () g' \<and>
      grid_view g' = set_channel (grid_view g) me peer (channel g me peer @ [take (unat len) buf])"
    if "rank_ok (gr_n g) peer" "len \<noteq> 0"
    using inproc_send_effect [OF assms(1,2) that assms(3)] grid_view_update [OF assms(1) me that(1)]
    by (auto simp: me_def)
  have none: "inproc_send x vec_ok queue_ok peer buf len g = Undefined" if "rank_ok (gr_n g) peer" "len = 0"
    using that channel_index_range [OF assms(1) me that(1)] ws
    by (auto simp: inproc_send_def rank_ok_def me_def vec_memcpy_def)
  have oom: "inproc_send x vec_ok queue_ok peer buf len g = Throws No_Memory g"
    if "rank_ok (gr_n g) peer" "len \<noteq> 0" "\<not> (vec_ok \<and> queue_ok)"
    using that channel_index_range [OF assms(1) me that(1)] assms(3) ws
    by (auto simp: inproc_send_def rank_ok_def me_def vec_memcpy_whole unat_eq_0)
  have wait: "inproc_recv x peer buf len g = Waits" if "rank_ok (gr_n g) peer" "channel g peer me = []"
    using that channel_index_range [OF assms(1) that(1) me] ws
    by (auto simp: inproc_recv_def rank_ok_def me_def channel_def)
  have take: "\<exists>g'. grid_view g' = set_channel (grid_view g) peer me ms \<and> inproc_recv x peer buf len g =
      (if length m = unat len then Returns (m @ drop (unat len) buf) g' else Throws Recv_Size_Mismatch g')"
    if "rank_ok (gr_n g) peer" "channel g peer me = m # ms" for m ms
    using inproc_recv_effect [OF assms(1,2) that(1) assms(3), of m ms] that grid_view_update [OF assms(1) that(1) me]
    by (auto simp: me_def)
  show ?thesis
    using send none oom wait take ws by (auto simp: inproc_send_def inproc_recv_def rank_ok_def split: list.splits)
qed

text \<open>A message of two bytes; the receiver asks for three: the exception, and the message is gone.\<close>

theorem inproc_call_outcomes_witness:
  "\<exists>g'. inproc_recv (inproc_transport_create 1 0) 0 [0, 0, 0] 3 \<lparr>gr_n = 1, gr_q = [[[1, 2], [3]]]\<rparr> = Throws Recv_Size_Mismatch g' \<and>
     grid_view g' 0 0 = [[3]]"
proof -
  define g where "g = \<lparr>gr_n = 1, gr_q = [[[1, 2], [3]]]\<rparr>"
  have w: "grid_wf g" "transport_ok (inproc_transport_create 1 0) g" "channel g 0 0 = [[1, 2], [3]]"
    by (simp_all add: g_def grid_wf_def int32_ok_def transport_ok_def inproc_transport_create_def channel_def)
  have "rank_ok (gr_n g) 0" "xt_my_rank (inproc_transport_create 1 0) = 0"
    by (simp_all add: g_def rank_ok_def inproc_transport_create_def)
  with inproc_call_outcomes [OF w(1,2), of 3 "[0, 0, 0]" 0 True True] w(3) show ?thesis
    by (auto simp: g_def set_channel_def)
qed

text \<open>
  C35: a new grid is well-formed. On a transport whose rank belongs to the grid, whatever the peer and whether or
  not memory is available, a receive whose buffer holds \<open>len\<close> bytes is free of undefined behaviour, and a send is
  undefined in exactly one case: no bytes for a peer of the grid. In every other case the call leaves a
  well-formed grid of the same size, also when it throws. The rank itself is not checked anywhere: on a transport
  made for rank \<open>n\<close> every send to a valid peer is undefined (unless it throws for lack of memory first).
\<close>

theorem inproc_grid_typed:
  assumes "inproc_grid_create n = Some g0" "0 \<le> n"
    and "grid_wf g" "gr_n g = n" "0 \<le> r" "r < n" "unat len \<le> length buf"
  defines "x \<equiv> inproc_transport_create n r"
  shows "grid_wf g0 \<and> gr_n g0 = n \<and> transport_ok x g \<and>
    (case inproc_send x vec_ok queue_ok peer buf len g of
       Returns u g' \<Rightarrow> grid_wf g' \<and> gr_n g' = n | Throws e g' \<Rightarrow> grid_wf g' \<and> gr_n g' = n | Waits \<Rightarrow> False
     | Undefined \<Rightarrow> rank_ok n peer \<and> len = 0) \<and>
    (rank_ok n peer \<longrightarrow> len = 0 \<longrightarrow> inproc_send x vec_ok queue_ok peer buf len g = Undefined) \<and>
    (case inproc_recv x peer buf len g of
       Returns b g' \<Rightarrow> grid_wf g' \<and> gr_n g' = n \<and> length b = length buf
     | Throws e g' \<Rightarrow> grid_wf g' \<and> gr_n g' = n | Waits \<Rightarrow> True | Undefined \<Rightarrow> False) \<and>
    (rank_ok n peer \<longrightarrow> inproc_send (inproc_transport_create n n) True True peer buf len g = Undefined)"
proof -
  have x: "transport_ok x g" "xt_my_rank x = r" "xt_world_size x = n" and r: "rank_ok (gr_n g) r"
    using assms by (simp_all add: x_def transport_ok_def inproc_transport_create_def rank_ok_def)
  have ok: "grid_wf (g\<lparr>gr_q := (gr_q g)[i := ms]\<rparr>)" if "\<And>m. m \<in> set ms \<Longrightarrow> message_ok m" for i ms
    using that by (intro grid_wf_update [OF assms(3)]) auto
  have "unat len < 2 ^ LENGTH(64)" by (rule unsigned_less)
  then have len: "unat len < 2 ^ 64" by simp
  have none: "inproc_send x vec_ok queue_ok peer buf len g = Undefined" if "rank_ok n peer" "len = 0"
    using that channel_index_range [OF assms(3) r, of peer] assms(4) x
    by (auto simp: inproc_send_def rank_ok_def vec_memcpy_def)
  have send: "case inproc_send x vec_ok queue_ok peer buf len g of
       Returns u g' \<Rightarrow> grid_wf g' \<and> gr_n g' = n | Throws e g' \<Rightarrow> grid_wf g' \<and> gr_n g' = n | Waits \<Rightarrow> False
     | Undefined \<Rightarrow> rank_ok n peer \<and> len = 0"
  proof (cases "rank_ok (gr_n g) peer \<and> len \<noteq> 0")
    case True
    then have l: "len \<noteq> 0" and peer: "rank_ok (gr_n g) peer" by simp_all
    from l have "unat len \<noteq> 0" by (simp add: unat_eq_0)
    then have "take (unat len) buf \<noteq> []" using assms(7) by auto
    then have "grid_wf (g\<lparr>gr_q := (gr_q g)[nat (r * n + peer) := channel g r peer @ [take (unat len) buf]]\<rparr>)"
      using grid_wf_message [OF assms(3) r peer] len assms(7) by (intro ok) auto
    then show ?thesis
      using channel_index_range [OF assms(3) r peer] assms(3,4,7) x True \<open>unat len \<noteq> 0\<close>
      by (auto simp: inproc_send_def rank_ok_def vec_memcpy_whole channel_def)
  qed (use assms(3,4) x none in \<open>auto simp: inproc_send_def rank_ok_def\<close>)
  have recv: "case inproc_recv x peer buf len g of
       Returns b g' \<Rightarrow> grid_wf g' \<and> gr_n g' = n \<and> length b = length buf
     | Throws e g' \<Rightarrow> grid_wf g' \<and> gr_n g' = n | Waits \<Rightarrow> True | Undefined \<Rightarrow> False"
  proof (cases "rank_ok (gr_n g) peer")
    case True
    show ?thesis
    proof (cases "channel g peer r")
      case Nil
      then show ?thesis
        using channel_index_range [OF assms(3) True r] assms(4) x True
        by (simp add: inproc_recv_def rank_ok_def channel_def)
    next
      case (Cons m ms)
      have "grid_wf (g\<lparr>gr_q := (gr_q g)[nat (peer * gr_n g + r) := ms]\<rparr>)"
        using grid_wf_message [OF assms(3) True r] Cons by (intro ok) auto
      then show ?thesis
        using inproc_recv_effect [OF assms(3) x(1) True assms(7), of m ms] Cons x(2) assms(4,7) by simp
    qed
  qed (use assms(3,4) x in \<open>auto simp: inproc_recv_def rank_ok_def\<close>)
  have "\<not> has_channel g (n * n + peer)" if "rank_ok n peer"
    using assms(3,4) that by (auto simp: has_channel_def grid_wf_def rank_ok_def)
  then have "inproc_send (inproc_transport_create n n) True True peer buf len g = Undefined" if "rank_ok n peer"
    using that
    by (auto simp: inproc_send_def inproc_transport_create_def channel_index_def rank_ok_def split: option.split)
  with send none recv x show ?thesis using create_wf [OF assms(1,2)] by blast
qed

theorem inproc_grid_typed_witness:
  "\<exists>g. inproc_grid_create 2 = Some g \<and> grid_wf g \<and>
     inproc_send (inproc_transport_create 2 2) True True 1 [4] 1 g = Undefined \<and>
     inproc_send (inproc_transport_create 2 0) True True 1 [4] 0 g = Undefined"
proof -
  define g where "g = \<lparr>gr_n = 2, gr_q = replicate 4 []\<rparr>"
  have g: "inproc_grid_create 2 = Some g" by (simp add: inproc_grid_create_def int32_ok_def g_def)
  have w: "grid_wf g" "gr_n g = 2" by (simp_all add: g_def grid_wf_def int32_ok_def)
  show ?thesis
    using inproc_grid_typed [OF g _ w, where r = 0 and len = 1 and buf = "[4]" and peer = 1]
      inproc_grid_typed [OF g _ w, where r = 0 and len = 0 and buf = "[4]" and peer = 1 and vec_ok = True and queue_ok = True] g by (simp add: rank_ok_def)
qed

section \<open>Overlapping calls\<close>

text \<open>
  C22: with any number of threads in calls on any transports, at most one thread is inside the critical
  section of a queue; every queue holds what was pushed and not taken, in order; unless every thread is
  idle or waits for a message, some thread can go on; and no wake-up is lost: when nothing moves any
  more, every thread that waits does so on an empty queue.
\<close>

theorem inproc_threads_sound:
  assumes "threads_reachable s"
  shows "(\<forall>i t u. t < length (th_pc s) \<longrightarrow> u < length (th_pc s) \<longrightarrow>
      inside i (th_pc s ! t) \<longrightarrow> inside i (th_pc s ! u) \<longrightarrow> t = u) \<and>
    (\<forall>i < length (gr_q (th_grid s)). th_pushed s i = th_taken s i @ gr_q (th_grid s) ! i) \<and>
    ((\<exists>t < length (th_pc s). th_pc s ! t \<noteq> T_Idle \<and> (\<forall>i len. th_pc s ! t \<noteq> T_Recv_Wait i len)) \<longrightarrow>
      (\<exists>u w s'. taction_step (Step u w) s = Some s')) \<and>
    ((\<forall>u w. taction_step (Step u w) s = None) \<longrightarrow>
      (\<forall>t i len. t < length (th_pc s) \<longrightarrow> th_pc s ! t = T_Recv_Wait i len \<longrightarrow> gr_q (th_grid s) ! i = []))"
proof -
  have inv: "threads_inv s" using assms by (rule threads_reachable_inv)
  note D = threads_invD [OF inv]
  have mutex: "t = u" if "t < length (th_pc s)" "u < length (th_pc s)" "inside i (th_pc s ! t)" "inside i (th_pc s ! u)" for i t u
    using owner_okD [OF D(2), of i t] owner_okD [OF D(2), of i u] that by simp
  show ?thesis using mutex D(3) some_thread_moves [OF inv] stuck_waits_empty [OF inv] by blast
qed

text \<open>One rank waits, another sends: the waiting thread is woken and both finish.\<close>

theorem inproc_threads_sound_witness:
  "\<exists>s. taction_run [Enter_Recv 1 (inproc_transport_create 2 1) 0 1, Step 1 0, Step 1 0,
         Enter_Send 0 (inproc_transport_create 2 0) 1 [9] 1, Step 0 0, Step 0 0, Step 0 1, Step 1 0, Step 1 0]
       (threads_start \<lparr>gr_n = 2, gr_q = replicate 4 []\<rparr> 2) = Some s \<and>
     th_ret s 1 = Some (Received [9]) \<and> th_pushed s 1 = th_taken s 1 @ gr_q (th_grid s) ! 1"
proof -
  define g where "g = \<lparr>gr_n = 2, gr_q = replicate 4 []\<rparr>"
  define as where "as = [Enter_Recv 1 (inproc_transport_create 2 1) 0 1, Step 1 0, Step 1 0,
         Enter_Send 0 (inproc_transport_create 2 0) 1 [9] 1, Step 0 0, Step 0 0, Step 0 1, Step 1 0, Step 1 0]"
  have "inproc_grid_create 2 = Some g" by (simp add: inproc_grid_create_def int32_ok_def g_def)
  then have start: "threads_reachable (threads_start g 2)" by (rule threads_reachable.created)
  have "\<exists>s. taction_run as (threads_start g 2) = Some s \<and> th_ret s 1 = Some (Received [9]) \<and> length (gr_q (th_grid s)) = 4"
    by (simp add: as_def g_def threads_start_def enter_recv_def enter_send_def inproc_transport_create_def
        channel_index_def int32_ok_def has_channel_def thread_step_def lock_then_def check_take_def vec_memcpy_def memcpy_def
        push_unlock_def notify_def set_queue_def numeral_eq_Suc)
  then obtain s where s: "taction_run as (threads_start g 2) = Some s" "th_ret s 1 = Some (Received [9])"
    "length (gr_q (th_grid s)) = 4" by blast
  have "threads_reachable s" using taction_run_reachable [OF s(1) start] .
  from inproc_threads_sound [OF this] s show ?thesis unfolding as_def g_def by auto
qed

end
