(* ===== verification/Rank_Programs.thy ===== *)
theory Rank_Programs
  imports Inproc_Transport
begin

text \<open>
  Ranks that run programs over the in-process transport. The class \<^verbatim>\<open>Transport\<close> is there for collectives, in which
  what a rank sends to whom and receives from whom does not depend on the data: a program is a list of calls,
  each with what the code around it does to the rank's buffer. A turn of a rank is one whole call of \<^verbatim>\<open>send\<close> or
  \<^verbatim>\<open>recv\<close> that returns; a rank whose call would block, throw or be undefined has no turn.

  Turns of different ranks commute, since a channel has one sender and one receiver. The locale \<open>diamond\<close> is what
  follows from that alone: when some order of the turns comes to an end, every order comes to the same end.
\<close>

section \<open>Definitions\<close>

datatype 'd action = To int "'d \<Rightarrow> block" | From int size_t "'d \<Rightarrow> block \<Rightarrow> 'd"

type_synonym 'd programs = "int \<Rightarrow> 'd action list"

record 'd group =
  grp_net :: inproc_grid
  grp_pc :: "int \<Rightarrow> nat"
  grp_data :: "int \<Rightarrow> 'd"

fun transfer_of :: "int \<Rightarrow> 'd \<Rightarrow> 'd action \<Rightarrow> transfer" where
  "transfer_of r d (To b f) = Send r b (f d)"
| "transfer_of r d (From a len u) = Recv a r len"

fun absorb :: "'d action \<Rightarrow> transfer_result \<Rightarrow> 'd \<Rightarrow> 'd" where
  "absorb (From a len u) (Received m) d = u d m"
| "absorb _ _ d = d"

fun completes :: "transfer_result \<Rightarrow> bool" where
  "completes Sent = True"
| "completes (Received m) = True"
| "completes _ = False"

definition call_turn :: "int \<Rightarrow> 'd programs \<Rightarrow> int \<Rightarrow> 'd group \<Rightarrow> 'd group option" where
  "call_turn N prog r w =
     (let a = prog r ! grp_pc w r; t = transfer_of r (grp_data w r) a in
      if \<not> rank_ok N r \<or> length (prog r) \<le> grp_pc w r \<or> \<not> transfer_ok N t then None
      else case impl_transfer (grp_net w) t of
        Some (res, s) \<Rightarrow>
          if completes res
          then Some (w\<lparr>grp_net := s, grp_pc := (grp_pc w)(r := Suc (grp_pc w r)),
                       grp_data := (grp_data w)(r := absorb a res (grp_data w r))\<rparr>)
          else None
      | None \<Rightarrow> None)"

fun run_turns :: "('r \<Rightarrow> 'w \<Rightarrow> 'w option) \<Rightarrow> 'r list \<Rightarrow> 'w \<Rightarrow> 'w option" where
  "run_turns turn [] w = Some w"
| "run_turns turn (r # rs) w = do { w \<leftarrow> turn r w; run_turns turn rs w }"

definition group_start :: "inproc_grid \<Rightarrow> (int \<Rightarrow> 'd) \<Rightarrow> 'd group" where
  "group_start g x = \<lparr>grp_net = g, grp_pc = (\<lambda>_. 0), grp_data = x\<rparr>"

text \<open>
  The end of a run: every rank has made all its calls, or would block for ever in a \<^verbatim>\<open>recv\<close> from a rank of the grid
  on an empty channel.
\<close>

definition settled :: "int \<Rightarrow> 'd programs \<Rightarrow> 'd group \<Rightarrow> bool" where
  "settled N prog w \<longleftrightarrow> (\<forall>r. rank_ok N r \<longrightarrow> grp_pc w r = length (prog r) \<or>
     grp_pc w r < length (prog r) \<and>
     (\<exists>a len u. prog r ! grp_pc w r = From a len u \<and> rank_ok N a \<and> channel (grp_net w) a r = []))"

definition group_ok :: "int \<Rightarrow> 'd group \<Rightarrow> bool" where
  "group_ok N w \<longleftrightarrow> grid_wf (grp_net w) \<and> gr_n (grp_net w) = N"

section \<open>Turns that commute\<close>

locale diamond =
  fixes ok :: "'w \<Rightarrow> bool" and turn :: "'r \<Rightarrow> 'w \<Rightarrow> 'w option"
  assumes turn_ok: "ok w \<Longrightarrow> turn r w = Some u \<Longrightarrow> ok u"
    and commute: "ok w \<Longrightarrow> r \<noteq> q \<Longrightarrow> turn r w = Some u \<Longrightarrow> turn q w = Some v \<Longrightarrow>
      \<exists>z. turn q u = Some z \<and> turn r v = Some z"
begin

text \<open>
  A turn that is possible now will be taken in every run that ends where it is no longer possible, and may as well
  be taken at once.
\<close>

lemma turn_first:
  assumes "ok w" "turn r w = Some u" "run_turns turn rs w = Some z" "turn r z = None"
  shows "run_turns turn (remove1 r rs) u = Some z"
  using assms
proof (induction rs arbitrary: w u)
  case (Cons q rs)
  then obtain v where v: "turn q w = Some v" "run_turns turn rs v = Some z" by (auto split: Option.bind_splits)
  show ?case
  proof (cases "q = r")
    case False
    then obtain y where y: "turn q u = Some y" "turn r v = Some y" using commute [of w r q u v] Cons.prems v(1) by blast
    then have "run_turns turn (remove1 r rs) y = Some z"
      using Cons.IH [OF turn_ok [OF Cons.prems(1) v(1)] y(2) v(2)] Cons.prems(4) by blast
    with False y(1) show ?thesis by simp
  qed (use v Cons.prems(2) in simp)
qed simp

lemma run_ok: "ok w \<Longrightarrow> run_turns turn rs w = Some z \<Longrightarrow> ok z"
  by (induction rs arbitrary: w) (auto split: Option.bind_splits intro: turn_ok)

end

section \<open>A transfer acts on its channel\<close>

fun on_channel :: "transfer \<Rightarrow> block list \<Rightarrow> (transfer_result \<times> block list) option" where
  "on_channel (Send a b m) ms = Some (Sent, ms @ [m])"
| "on_channel (Recv a b len) [] = None"
| "on_channel (Recv a b len) (m # ms) = (if length m = unat len then Some (Received m, ms) else None)"

fun ends_of :: "transfer \<Rightarrow> int \<times> int" where
  "ends_of (Send a b m) = (a, b)"
| "ends_of (Recv a b len) = (a, b)"

text \<open>The place of the channel in the grid, and the grid with its messages replaced.\<close>

definition place :: "int \<Rightarrow> transfer \<Rightarrow> nat" where
  "place n t = nat (fst (ends_of t) * n + snd (ends_of t))"

definition put_queue :: "nat \<Rightarrow> block list \<Rightarrow> inproc_grid \<Rightarrow> inproc_grid" where
  "put_queue i ms g = g\<lparr>gr_q := (gr_q g)[i := ms]\<rparr>"

definition peers_ok :: "int \<Rightarrow> transfer \<Rightarrow> bool" where
  "peers_ok n t \<longleftrightarrow> rank_ok n (fst (ends_of t)) \<and> rank_ok n (snd (ends_of t))"

lemma transfer_completes:
  assumes wf: "grid_wf g" and t: "transfer_ok (gr_n g) t"
  shows "impl_transfer g t = Some (res, g') \<and> completes res \<longleftrightarrow>
    peers_ok (gr_n g) t \<and> (\<exists>ms. on_channel t (gr_q g ! place (gr_n g) t) = Some (res, ms) \<and> g' = put_queue (place (gr_n g) t) ms g)"
proof (cases t)
  case (Send a b m)
  show ?thesis
  proof (cases "rank_ok (gr_n g) b")
    case True
    with Send t show ?thesis using impl_send_effect [OF wf, of a b m]
      by (auto simp: peers_ok_def put_queue_def place_def channel_def)
  qed (use Send inproc.send_rejects [OF wf] in \<open>auto simp: peers_ok_def\<close>)
next
  case (Recv a b len)
  show ?thesis
  proof (cases "rank_ok (gr_n g) a")
    case True
    with Recv t show ?thesis using impl_recv_effect [OF wf, of a b _ _ len] inproc.recv_blocks [OF wf, of a b len]
      by (cases "channel g a b") (auto simp: peers_ok_def put_queue_def place_def channel_def grid_view_def)
  qed (use Recv inproc.recv_rejects [OF wf] in \<open>auto simp: peers_ok_def\<close>)
qed

text \<open>Two transfers that different ranks can make: neither gets in the way of the other.\<close>

fun caller :: "transfer \<Rightarrow> int" where
  "caller (Send a b m) = a"
| "caller (Recv a b len) = b"

lemma caller_transfer_of [simp]: "caller (transfer_of r d a) = r"
  by (cases a) simp_all

lemma on_channel_commute:
  assumes "caller t \<noteq> caller t'" "ends_of t = ends_of t'" "on_channel t ms = Some (res, us)" "on_channel t' ms = Some (res', vs)"
  shows "\<exists>zs. on_channel t' us = Some (res', zs) \<and> on_channel t vs = Some (res, zs)"
  using assms by (cases t; cases t'; cases ms) (auto split: if_splits)+

lemma place_inj: "peers_ok n t \<Longrightarrow> peers_ok n t' \<Longrightarrow> place n t = place n t' \<Longrightarrow> ends_of t = ends_of t'"
  using channel_index_inj [of n "fst (ends_of t)" "snd (ends_of t)" "fst (ends_of t')" "snd (ends_of t')"]
  by (auto simp: peers_ok_def place_def prod_eq_iff)

lemma place_less: "grid_wf g \<Longrightarrow> peers_ok (gr_n g) t \<Longrightarrow> place (gr_n g) t < length (gr_q g)"
  using channel_index_range(2) by (auto simp: peers_ok_def place_def has_channel_def)

section \<open>Turns of ranks\<close>

definition next_transfer :: "'d programs \<Rightarrow> int \<Rightarrow> 'd group \<Rightarrow> transfer" where
  "next_transfer prog r w = transfer_of r (grp_data w r) (prog r ! grp_pc w r)"

definition advanced :: "'d programs \<Rightarrow> int \<Rightarrow> transfer_result \<Rightarrow> 'd group \<Rightarrow> 'd group" where
  "advanced prog r res w = w\<lparr>grp_pc := (grp_pc w)(r := Suc (grp_pc w r)),
     grp_data := (grp_data w)(r := absorb (prog r ! grp_pc w r) res (grp_data w r))\<rparr>"

abbreviation can_call :: "int \<Rightarrow> 'd programs \<Rightarrow> int \<Rightarrow> 'd group \<Rightarrow> bool" where
  "can_call N prog r w \<equiv> rank_ok N r \<and> grp_pc w r < length (prog r) \<and>
     transfer_ok N (next_transfer prog r w) \<and> peers_ok N (next_transfer prog r w)"

lemma call_turn_iff:
  fixes prog :: "'d programs" and r :: int
  assumes "group_ok N w"
  defines "i \<equiv> place N (next_transfer prog r w)"
  shows "call_turn N prog r w = Some w' \<longleftrightarrow> can_call N prog r w \<and>
    (\<exists>res ms. on_channel (next_transfer prog r w) (gr_q (grp_net w) ! i) = Some (res, ms) \<and>
       w' = advanced prog r res (w\<lparr>grp_net := put_queue i ms (grp_net w)\<rparr>))"
    (is "?l \<longleftrightarrow> ?r")
proof -
  have wf: "grid_wf (grp_net w)" and N: "gr_n (grp_net w) = N" using assms(1) by (simp_all add: group_ok_def)
  define t where "t = next_transfer prog r w"
  have "?l \<longleftrightarrow> rank_ok N r \<and> grp_pc w r < length (prog r) \<and> transfer_ok N t \<and>
    (\<exists>res s. impl_transfer (grp_net w) t = Some (res, s) \<and> completes res \<and> w' = advanced prog r res (w\<lparr>grp_net := s\<rparr>))"
    by (auto simp: call_turn_def t_def next_transfer_def advanced_def Let_def split: option.splits if_splits)
  also have "\<dots> \<longleftrightarrow> ?r"
  proof (cases "transfer_ok N t")
    case True
    show ?thesis unfolding i_def t_def [symmetric] conj_assoc [symmetric] ex_simps [symmetric]
      using True transfer_completes [OF wf, unfolded N, OF True] by auto
  qed (simp add: t_def)
  finally show ?thesis .
qed

lemma on_channel_ok:
  assumes "group_ok N w" "transfer_ok N t" "peers_ok N t" "on_channel t (gr_q (grp_net w) ! place N t) = Some (res, ms)"
  shows "group_ok N (w\<lparr>grp_net := put_queue (place N t) ms (grp_net w)\<rparr>)"
proof -
  have wf: "grid_wf (grp_net w)" and N: "gr_n (grp_net w) = N" using assms(1) by (simp_all add: group_ok_def)
  have "\<forall>m \<in> set (gr_q (grp_net w) ! place N t). message_ok m"
    using wf place_less [OF wf, of t] assms(3) N by (auto simp: grid_wf_def)
  then have "\<forall>m \<in> set ms. message_ok m"
    using assms(2-4) by (cases t; cases "gr_q (grp_net w) ! place N t") (auto simp: peers_ok_def split: if_splits)
  then show ?thesis using grid_wf_update [OF wf] N by (simp add: group_ok_def put_queue_def)
qed

lemma advanced_net [simp]:
  "grp_net (advanced prog r res w) = grp_net w" "group_ok N (advanced prog r res w) = group_ok N w"
  "q \<noteq> r \<Longrightarrow> grp_pc (advanced prog r res w) q = grp_pc w q" "q \<noteq> r \<Longrightarrow> next_transfer prog q (advanced prog r res w) = next_transfer prog q w"
  "next_transfer prog q (w\<lparr>grp_net := g\<rparr>) = next_transfer prog q w"
  by (simp_all add: advanced_def group_ok_def next_transfer_def)

interpretation calls: diamond "group_ok N" "call_turn N prog" for N and prog :: "'d programs"
proof unfold_locales
  fix w u :: "'d group" and r
  assume w: "group_ok N w" and u: "call_turn N prog r w = Some u"
  then show "group_ok N u" using on_channel_ok [OF w] call_turn_iff [OF w] by auto
next
  fix w u v :: "'d group" and r q
  assume w: "group_ok N w" and ne: "r \<noteq> q" and u: "call_turn N prog r w = Some u" and v: "call_turn N prog q w = Some v"
  define t t' where "t = next_transfer prog r w" and "t' = next_transfer prog q w"
  from u obtain res us where 1: "can_call N prog r w" "on_channel t (gr_q (grp_net w) ! place N t) = Some (res, us)"
    "u = advanced prog r res (w\<lparr>grp_net := put_queue (place N t) us (grp_net w)\<rparr>)" using call_turn_iff [OF w] by (auto simp: t_def)
  from v obtain res' vs where 2: "can_call N prog q w" "on_channel t' (gr_q (grp_net w) ! place N t') = Some (res', vs)"
    "v = advanced prog q res' (w\<lparr>grp_net := put_queue (place N t') vs (grp_net w)\<rparr>)" using call_turn_iff [OF w] by (auto simp: t'_def)
  have ok: "group_ok N u" "group_ok N v" using on_channel_ok [OF w] 1 2 by (auto simp: t_def t'_def)
  have t: "next_transfer prog q u = t'" "next_transfer prog r v = t" using ne by (simp_all add: 1 2 t_def t'_def)
  have len: "place N t < length (gr_q (grp_net w))"
    using place_less [of "grp_net w" t] w 1(1) by (simp add: group_ok_def t_def)
  have call: "can_call N prog q u" "can_call N prog r v" using 1 2 t ne by (auto simp: t_def t'_def)
  have swap: "advanced prog q res' (u\<lparr>grp_net := g\<rparr>) = advanced prog r res (v\<lparr>grp_net := g\<rparr>)" for g
    using ne by (simp add: 1(3) 2(3) advanced_def fun_upd_twist [of r q])
  show "\<exists>z. call_turn N prog q u = Some z \<and> call_turn N prog r v = Some z"
  proof (cases "place N t = place N t'")
    case True
    then have "ends_of t = ends_of t'" using place_inj [of N t t'] 1(1) 2(1) by (simp add: t_def t'_def)
    moreover have "caller t \<noteq> caller t'" using ne by (simp add: t_def t'_def next_transfer_def)
    ultimately obtain zs where zs: "on_channel t' us = Some (res', zs)" "on_channel t vs = Some (res, zs)"
      using on_channel_commute 1(2) 2(2) True by metis
    define g where "g = put_queue (place N t) zs (grp_net w)"
    have "call_turn N prog q u = Some (advanced prog q res' (u\<lparr>grp_net := g\<rparr>))"
      "call_turn N prog r v = Some (advanced prog r res (v\<lparr>grp_net := g\<rparr>))"
      using call zs True len unfolding call_turn_iff [OF ok(1)] call_turn_iff [OF ok(2)] t by (auto simp: 1(3) 2(3) put_queue_def g_def)
    then show ?thesis using swap by simp
  next
    case False
    define g where "g = put_queue (place N t) us (put_queue (place N t') vs (grp_net w))"
    have g: "g = put_queue (place N t') vs (put_queue (place N t) us (grp_net w))"
      using False by (simp add: g_def put_queue_def list_update_swap)
    have "call_turn N prog q u = Some (advanced prog q res' (u\<lparr>grp_net := g\<rparr>))"
      using call(1) 2(2) False unfolding call_turn_iff [OF ok(1)] t g by (auto simp: 1(3) put_queue_def)
    moreover have "call_turn N prog r v = Some (advanced prog r res (v\<lparr>grp_net := g\<rparr>))"
      using call(2) 1(2) False unfolding call_turn_iff [OF ok(2)] t g_def by (auto simp: 2(3) put_queue_def)
    ultimately show ?thesis using swap by simp
  qed
qed

section \<open>Groups on the way to an end\<close>

definition leads_to :: "int \<Rightarrow> 'd programs \<Rightarrow> 'd group \<Rightarrow> 'd group \<Rightarrow> bool" where
  "leads_to N prog z w \<longleftrightarrow> group_ok N w \<and> (\<exists>rs. run_turns (call_turn N prog) rs w = Some z)"

lemma settled_no_turn:
  assumes "group_ok N z" "settled N prog z"
  shows "call_turn N prog r z = None"
proof (rule ccontr)
  assume "call_turn N prog r z \<noteq> None"
  then have c: "can_call N prog r z"
    "on_channel (next_transfer prog r z) (gr_q (grp_net z) ! place N (next_transfer prog r z)) \<noteq> None"
    using call_turn_iff [OF assms(1), of prog r] by auto
  then obtain a len u where "prog r ! grp_pc z r = From a len u" "channel (grp_net z) a r = []"
    using assms(2) by (auto simp: settled_def)
  then show False using c(2) assms(1) by (simp add: next_transfer_def place_def channel_def group_ok_def)
qed

lemma leads_to_turn:
  assumes "settled N prog z" "leads_to N prog z w" "call_turn N prog r w = Some u"
  shows "leads_to N prog z u"
proof -
  obtain rs where rs: "group_ok N w" "run_turns (call_turn N prog) rs w = Some z" using assms(2) by (auto simp: leads_to_def)
  have "call_turn N prog r z = None" by (rule settled_no_turn [OF calls.run_ok [OF rs] assms(1)])
  then show ?thesis using calls.turn_first [OF rs(1) assms(3) rs(2)] calls.turn_ok [OF rs(1) assms(3)]
    by (auto simp: leads_to_def)
qed

lemma leads_to_end: "leads_to N prog z w \<Longrightarrow> (\<And>r. call_turn N prog r w = None) \<Longrightarrow> w = z"
  by (auto simp: leads_to_def elim: run_turns.elims)

text \<open>What another rank does leaves the next call of rank \<open>r\<close> as it is, and the messages it may receive in place.\<close>

lemma other_turn:
  assumes w: "group_ok N w" and q: "call_turn N prog q w = Some u" "q \<noteq> r"
  shows "grp_pc u r = grp_pc w r" "next_transfer prog r u = next_transfer prog r w"
    "rank_ok N a \<Longrightarrow> rank_ok N r \<Longrightarrow> \<exists>ys. channel (grp_net u) a r = channel (grp_net w) a r @ ys"
proof -
  define t where "t = next_transfer prog q w"
  obtain res ms where c: "can_call N prog q w" "on_channel t (gr_q (grp_net w) ! place N t) = Some (res, ms)"
    "u = advanced prog q res (w\<lparr>grp_net := put_queue (place N t) ms (grp_net w)\<rparr>)"
    using q(1) call_turn_iff [OF w] by (auto simp: t_def)
  show "grp_pc u r = grp_pc w r" "next_transfer prog r u = next_transfer prog r w" using q(2) by (simp_all add: c(3))
  show "\<exists>ys. channel (grp_net u) a r = channel (grp_net w) a r @ ys" if "rank_ok N a" "rank_ok N r"
  proof (cases "place N t = nat (a * N + r)")
    case True
    then have "ends_of t = (a, r)" using place_inj [of N t "Recv a r 0"] c(1) that by (simp add: t_def place_def peers_ok_def)
    moreover have "caller t = q" by (simp add: t_def next_transfer_def)
    ultimately obtain m where "t = Send a r m" using q(2) by (cases t) auto
    then show ?thesis using c(2) w True place_less [of "grp_net w" t] c(1)
      by (auto simp: c(3) channel_def put_queue_def group_ok_def t_def)
  next
    case False
    then show ?thesis using w by (simp add: c(3) channel_def put_queue_def group_ok_def)
  qed
qed

text \<open>
  The next call of a rank is in order, and what it receives, when there is something already, has the length
  it asks for.
\<close>

lemma leads_to_next:
  assumes z: "settled N prog z" and w: "leads_to N prog z w" and r: "rank_ok N r" "grp_pc w r < length (prog r)"
  shows "can_call N prog r w \<and>
    (\<forall>a len u m ms. prog r ! grp_pc w r = From a len u \<longrightarrow> channel (grp_net w) a r = m # ms \<longrightarrow> length m = unat len)"
proof -
  obtain rs where "group_ok N w" "run_turns (call_turn N prog) rs w = Some z" using w by (auto simp: leads_to_def)
  then show ?thesis using r(2)
  proof (induction rs arbitrary: w)
    case Nil
    then show ?case using z r(1) by (auto simp: settled_def next_transfer_def peers_ok_def)
  next
    case (Cons q rs)
    then obtain v where v: "call_turn N prog q w = Some v" "run_turns (call_turn N prog) rs v = Some z"
      by (auto split: Option.bind_splits)
    show ?case
    proof (cases "q = r")
      case True
      then show ?thesis using v(1) call_turn_iff [OF Cons.prems(1), of prog r v] Cons.prems(1)
        by (auto simp: next_transfer_def place_def channel_def group_ok_def split: if_splits)
    next
      case False
      note o = other_turn [OF Cons.prems(1) v(1) False]
      have IH: "can_call N prog r v \<and>
          (\<forall>a len u m ms. prog r ! grp_pc v r = From a len u \<longrightarrow> channel (grp_net v) a r = m # ms \<longrightarrow> length m = unat len)"
        using Cons.IH [OF calls.turn_ok [OF Cons.prems(1) v(1)] v(2)] Cons.prems(3) o(1) by simp
      have "length m = unat len" if a: "prog r ! grp_pc w r = From a len u" "channel (grp_net w) a r = m # ms" for a len u m ms
      proof -
        have "rank_ok N a" using IH o(2) a(1) by (simp add: next_transfer_def peers_ok_def)
        then show ?thesis using IH o(1) o(3) [of a] a r(1) by auto
      qed
      with IH o(1,2) show ?thesis by auto
    qed
  qed
qed

lemma start_group_ok: "inproc_grid_create N = Some g \<Longrightarrow> 0 \<le> N \<Longrightarrow> group_ok N (group_start g x)"
  using create_wf by (simp add: group_ok_def group_start_def)

end
