(* ===== verification/Threaded_Group.thy ===== *)
theory Threaded_Group
  imports Rank_Programs Inproc_Threads
begin

text \<open>
  The ranks of \<open>Rank_Programs\<close> as threads: rank \<open>r\<close> is thread \<open>r\<close> of \<open>Inproc_Threads\<close>, and its calls of \<^verbatim>\<open>send\<close> and
  \<^verbatim>\<open>recv\<close> are taken apart at every operation on a mutex or a condition variable. A thread that waits for a mutex
  or on a condition variable has no step.

  The critical section of a call is where it takes effect: there, and only there, a step is a turn of the rank in
  \<open>Rank_Programs\<close> (\<open>as_group\<close>). Since turns of different ranks commute, and no wake-up is lost, every run ends, however
  the threads are scheduled, and always in the same state (C12).
\<close>

section \<open>Definitions\<close>

record 'd team =
  tm_threads :: tstate
  tm_pc :: "int \<Rightarrow> nat"
  tm_data :: "int \<Rightarrow> 'd"
  tm_thrown :: bool

text \<open>What a rank does when a call has returned to it; an exception is not caught.\<close>

definition after_call :: "'d programs \<Rightarrow> int \<Rightarrow> tstate \<Rightarrow> 'd team \<Rightarrow> 'd team" where
  "after_call prog r s t =
     (if th_pc s ! nat r \<noteq> T_Idle then t\<lparr>tm_threads := s\<rparr>
      else case (th_ret s (nat r), prog r ! tm_pc t r) of
        (Some Sent, To b f) \<Rightarrow> t\<lparr>tm_threads := s, tm_pc := (tm_pc t)(r := Suc (tm_pc t r))\<rparr>
      | (Some (Received m), From a len u) \<Rightarrow>
          t\<lparr>tm_threads := s, tm_pc := (tm_pc t)(r := Suc (tm_pc t r)), tm_data := (tm_data t)(r := u (tm_data t r) m)\<rparr>
      | _ \<Rightarrow> t\<lparr>tm_threads := s, tm_thrown := True\<rparr>)"

text \<open>One step of rank \<open>r\<close>: it makes its next call, or goes on with the call it is in.\<close>

definition team_step :: "int \<Rightarrow> 'd programs \<Rightarrow> int \<Rightarrow> nat \<Rightarrow> 'd team \<Rightarrow> 'd team option" where
  "team_step N prog r w t =
     (let x = inproc_transport_create N r; s = tm_threads t in
      if \<not> rank_ok N r \<or> tm_thrown t then None
      else map_option (\<lambda>s. after_call prog r s t)
        (if th_pc s ! nat r \<noteq> T_Idle then taction_step (Step (nat r) w) s
         else if length (prog r) \<le> tm_pc t r then None
         else case prog r ! tm_pc t r of
                To b f \<Rightarrow> let m = f (tm_data t r) in taction_step (Enter_Send (nat r) x b m (of_nat (length m))) s
              | From a len u \<Rightarrow> taction_step (Enter_Recv (nat r) x a len) s))"

datatype team_action = Go int nat | Wake_Spuriously int

fun team_act :: "int \<Rightarrow> 'd programs \<Rightarrow> team_action \<Rightarrow> 'd team \<Rightarrow> 'd team option" where
  "team_act N prog (Go r w) t = team_step N prog r w t"
| "team_act N prog (Wake_Spuriously r) t =
     (if rank_ok N r then map_option (\<lambda>s. t\<lparr>tm_threads := s\<rparr>) (taction_step (Spurious (nat r)) (tm_threads t)) else None)"

fun team_run :: "int \<Rightarrow> 'd programs \<Rightarrow> team_action list \<Rightarrow> 'd team \<Rightarrow> 'd team option" where
  "team_run N prog [] t = Some t"
| "team_run N prog (a # as) t = do { t \<leftarrow> team_act N prog a t; team_run N prog as t }"

definition team_start :: "inproc_grid \<Rightarrow> int \<Rightarrow> (int \<Rightarrow> 'd) \<Rightarrow> 'd team" where
  "team_start g N x = \<lparr>tm_threads = threads_start g (nat N), tm_pc = (\<lambda>_. 0), tm_data = x, tm_thrown = False\<rparr>"

definition team_stuck :: "int \<Rightarrow> 'd programs \<Rightarrow> 'd team \<Rightarrow> bool" where
  "team_stuck N prog t \<longleftrightarrow> (\<forall>r w. team_step N prog r w t = None)"

fun is_go :: "team_action \<Rightarrow> bool" where
  "is_go (Go r w) = True"
| "is_go (Wake_Spuriously r) = False"

abbreviation steps :: "team_action list \<Rightarrow> nat" where "steps as \<equiv> length (filter is_go as)"
abbreviation wake_ups :: "team_action list \<Rightarrow> nat" where "wake_ups as \<equiv> length (filter (\<lambda>a. \<not> is_go a) as)"

text \<open>
  However the threads are scheduled, no call throws, spurious wake-ups apart there are no more than \<open>bound\<close> steps,
  and the run can be brought to an end; where no thread can go on any more, every rank has made the calls it has
  made in \<open>w\<close> and has the data it has there, and the queues of the grid are those of \<open>w\<close>.
\<close>

definition always_ends_in :: "int \<Rightarrow> 'd programs \<Rightarrow> inproc_grid \<Rightarrow> (int \<Rightarrow> 'd) \<Rightarrow> nat \<Rightarrow> 'd group \<Rightarrow> bool" where
  "always_ends_in N prog g x bound w \<longleftrightarrow>
     (\<forall>as t. team_run N prog as (team_start g N x) = Some t \<longrightarrow>
        \<not> tm_thrown t \<and> steps as \<le> bound + 2 * wake_ups as \<and>
        (\<exists>bs t'. team_run N prog bs t = Some t' \<and> team_stuck N prog t') \<and>
        (team_stuck N prog t \<longrightarrow> th_grid (tm_threads t) = grp_net w \<and>
          (\<forall>r. rank_ok N r \<longrightarrow> tm_pc t r = grp_pc w r \<and> tm_data t r = grp_data w r)))"

section \<open>The invariant\<close>

text \<open>
  Own steps a rank needs at most in the rest of its call, the one or two a notified thread takes again being
  charged to the notifier; six are enough for a whole call.
\<close>

fun call_work :: "tpc \<Rightarrow> nat" where
  "call_work (T_Send_Lock i m) = 5"
| "call_work (T_Send_Push i m) = 4"
| "call_work (T_Notify i) = 3"
| "call_work (T_Recv_Lock i len) = 2"
| "call_work (T_Recv_Check i len) = 1"
| "call_work (T_Recv_Wait i len) = 0"
| "call_work T_Idle = 6"

fun notifying :: "tpc \<Rightarrow> bool" where
  "notifying (T_Notify i) = True"
| "notifying _ = False"

text \<open>The group a team stands for: a send counts from the moment the message is in the queue.\<close>

definition as_group :: "int \<Rightarrow> 'd team \<Rightarrow> 'd group" where
  "as_group N t = \<lparr>grp_net = th_grid (tm_threads t),
     grp_pc = (\<lambda>r. tm_pc t r + of_bool (rank_ok N r \<and> notifying (th_pc (tm_threads t) ! nat r))),
     grp_data = tm_data t\<rparr>"

text \<open>The call a rank is in is that of its next action, number \<open>k\<close>, with its buffer \<open>d\<close>.\<close>

definition sending_to :: "int \<Rightarrow> 'd programs \<Rightarrow> nat \<Rightarrow> 'd \<Rightarrow> int \<Rightarrow> nat \<Rightarrow> block \<Rightarrow> bool" where
  "sending_to N prog k d r i m \<longleftrightarrow> k < length (prog r) \<and> (\<exists>b f. prog r ! k = To b f \<and> rank_ok N b \<and> i = nat (r * N + b) \<and> m = f d)"

definition receiving_from :: "int \<Rightarrow> 'd programs \<Rightarrow> nat \<Rightarrow> int \<Rightarrow> nat \<Rightarrow> size_t \<Rightarrow> bool" where
  "receiving_from N prog k r i len \<longleftrightarrow> k < length (prog r) \<and> (\<exists>a u. prog r ! k = From a len u \<and> rank_ok N a \<and> i = nat (a * N + r))"

fun in_call :: "int \<Rightarrow> 'd programs \<Rightarrow> nat \<Rightarrow> 'd \<Rightarrow> int \<Rightarrow> tpc \<Rightarrow> bool" where
  "in_call N prog k d r T_Idle = True"
| "in_call N prog k d r (T_Send_Lock i m) = sending_to N prog k d r i m"
| "in_call N prog k d r (T_Send_Push i m) = sending_to N prog k d r i m"
| "in_call N prog k d r (T_Notify i) = (\<exists>m. sending_to N prog k d r i m)"
| "in_call N prog k d r (T_Recv_Lock i len) = receiving_from N prog k r i len"
| "in_call N prog k d r (T_Recv_Check i len) = receiving_from N prog k r i len"
| "in_call N prog k d r (T_Recv_Wait i len) = receiving_from N prog k r i len"

text \<open>The invariant of a team whose group is on the way to the end \<open>z\<close>.\<close>

definition team_inv :: "int \<Rightarrow> 'd programs \<Rightarrow> 'd group \<Rightarrow> 'd team \<Rightarrow> bool" where
  "team_inv N prog z t \<longleftrightarrow> threads_inv (tm_threads t) \<and> length (th_pc (tm_threads t)) = nat N \<and> \<not> tm_thrown t \<and>
     settled N prog z \<and> leads_to N prog z (as_group N t) \<and>
     (\<forall>r. rank_ok N r \<longrightarrow> in_call N prog (tm_pc t r) (tm_data t r) r (th_pc (tm_threads t) ! nat r))"

text \<open>The steps that are left: six for each action not begun, and those of the calls under way.\<close>

definition rank_work :: "'d programs \<Rightarrow> 'd team \<Rightarrow> int \<Rightarrow> nat" where
  "rank_work prog t r = (if length (prog r) \<le> tm_pc t r then 0
     else 6 * (length (prog r) - Suc (tm_pc t r)) + call_work (th_pc (tm_threads t) ! nat r))"

definition team_work :: "int \<Rightarrow> 'd programs \<Rightarrow> 'd team \<Rightarrow> nat" where
  "team_work N prog t = (\<Sum>r\<in>{0..<N}. rank_work prog t r)"

lemma team_invD:
  assumes "team_inv N prog z t"
  shows "threads_inv (tm_threads t)" "length (th_pc (tm_threads t)) = nat N" "\<not> tm_thrown t" "leads_to N prog z (as_group N t)"
    "rank_ok N r \<Longrightarrow> in_call N prog (tm_pc t r) (tm_data t r) r (th_pc (tm_threads t) ! nat r)" "rank_ok N r \<Longrightarrow> nat r < length (th_pc (tm_threads t))"
    "grid_wf (th_grid (tm_threads t))" "gr_n (th_grid (tm_threads t)) = N" "settled N prog z"
proof -
  show inv: "threads_inv (tm_threads t)" "length (th_pc (tm_threads t)) = nat N" "\<not> tm_thrown t" "leads_to N prog z (as_group N t)"
    "settled N prog z" "rank_ok N r \<Longrightarrow> in_call N prog (tm_pc t r) (tm_data t r) r (th_pc (tm_threads t) ! nat r)"
    using assms by (auto simp: team_inv_def)
  show "rank_ok N r \<Longrightarrow> nat r < length (th_pc (tm_threads t))" using inv(2) by (simp add: rank_ok_def)
  show "grid_wf (th_grid (tm_threads t))" "gr_n (th_grid (tm_threads t)) = N"
    using inv(4) by (simp_all add: leads_to_def group_ok_def as_group_def)
qed

text \<open>The next call of a rank that has not yet had its effect.\<close>

lemma next_call:
  assumes inv: "team_inv N prog z t" and r: "rank_ok N r" and k: "tm_pc t r < length (prog r)"
    and q: "\<not> notifying (th_pc (tm_threads t) ! nat r)"
  shows "prog r ! tm_pc t r = To b f \<Longrightarrow> rank_ok N b \<and> message_ok (f (tm_data t r))"
    "prog r ! tm_pc t r = From a len u \<Longrightarrow> rank_ok N a"
    "prog r ! tm_pc t r = From a len u \<Longrightarrow> channel (th_grid (tm_threads t)) a r = m # ms \<Longrightarrow> length m = unat len"
  using leads_to_next [OF team_invD(9,4) [OF inv] r] k q
  by (auto simp: as_group_def next_transfer_def peers_ok_def)

lemma other_thread:
  assumes "rank_ok N r" "rank_ok N q" "q \<noteq> r"
  shows "((pcs :: tpc list)[nat r := v]) ! nat q = pcs ! nat q"
  using assms by (simp add: rank_ok_def eq_nat_nat_iff)

text \<open>A step in which only rank \<open>r\<close> moves.\<close>

lemma as_group_sel [simp]:
  "grp_net (as_group N t) = th_grid (tm_threads t)" "grp_data (as_group N t) = tm_data t"
  "\<not> notifying (th_pc (tm_threads t) ! nat r) \<Longrightarrow> grp_pc (as_group N t) r = tm_pc t r"
  by (simp_all add: as_group_def)

lemma own_step:
  assumes inv: "team_inv N prog z t" and r: "rank_ok N r" and thr: "threads_inv (tm_threads t')" "\<not> tm_thrown t'"
    and pcs: "th_pc (tm_threads t') = (th_pc (tm_threads t))[nat r := v]"
    and others: "\<And>q. q \<noteq> r \<Longrightarrow> tm_pc t' q = tm_pc t q" "\<And>q. q \<noteq> r \<Longrightarrow> tm_data t' q = tm_data t q"
    and call: "in_call N prog (tm_pc t' r) (tm_data t' r) r v" and grp: "leads_to N prog z (as_group N t')"
  shows "team_inv N prog z t' \<and> team_work N prog t' + rank_work prog t r = team_work N prog t + rank_work prog t' r"
proof -
  note I = team_invD [OF inv]
  have "in_call N prog (tm_pc t' q) (tm_data t' q) q (th_pc (tm_threads t') ! nat q)" if "rank_ok N q" for q
  proof (cases "q = r")
    case True
    with call I(6) [OF r] show ?thesis by (simp add: pcs)
  next
    case False
    with I(5) [OF that] others [OF False] show ?thesis by (simp add: pcs other_thread [OF r that])
  qed
  then have "team_inv N prog z t'" using thr grp I(2,9) by (simp add: team_inv_def pcs)
  moreover have "rank_work prog t' q = rank_work prog t q" if "q \<in> {0..<N} - {r}" for q
    using that others [of q] other_thread [OF r, of q] by (simp add: rank_work_def pcs rank_ok_def)
  then have "sum (rank_work prog t') ({0..<N} - {r}) = sum (rank_work prog t) ({0..<N} - {r})" by (intro sum.cong) auto
  moreover have "r \<in> {0..<N}" using r by (simp add: rank_ok_def)
  ultimately show ?thesis by (simp add: team_work_def sum.remove [of "{0..<N}" r])
qed

lemma as_group_own:
  assumes inv: "team_inv N prog z t" and r: "rank_ok N r" and pcs: "th_pc (tm_threads t') = (th_pc (tm_threads t))[nat r := v]"
    and k: "tm_pc t' = (tm_pc t)(r := k)"
  shows "as_group N t' = \<lparr>grp_net = th_grid (tm_threads t'),
    grp_pc = (grp_pc (as_group N t))(r := k + of_bool (notifying v)), grp_data = tm_data t'\<rparr>"
proof -
  have "rank_ok N q \<and> notifying (th_pc (tm_threads t') ! nat q) \<longleftrightarrow>
      (if q = r then notifying v else rank_ok N q \<and> notifying (th_pc (tm_threads t) ! nat q))" for q
    using r team_invD(6) [OF inv r] other_thread [OF r, of q] by (auto simp: pcs)
  then show ?thesis by (auto simp: as_group_def k fun_eq_iff)
qed

text \<open>A step of a call that has no effect on the queues.\<close>

lemma quiet_team_step:
  assumes inv: "team_inv N prog z t" and r: "rank_ok N r" and thr: "threads_inv s"
    and pcs: "th_pc s = (th_pc (tm_threads t))[nat r := v]" and grid: "th_grid s = th_grid (tm_threads t)"
    and call: "in_call N prog (tm_pc t r) (tm_data t r) r v" and quiet: "\<not> notifying v" "\<not> notifying (th_pc (tm_threads t) ! nat r)"
  shows "team_inv N prog z (t\<lparr>tm_threads := s\<rparr>) \<and>
    team_work N prog (t\<lparr>tm_threads := s\<rparr>) + rank_work prog t r = team_work N prog t + rank_work prog (t\<lparr>tm_threads := s\<rparr>) r"
proof (rule own_step [OF inv r, where v = v])
  have "as_group N (t\<lparr>tm_threads := s\<rparr>) = as_group N t"
    using as_group_own [OF inv r, of "t\<lparr>tm_threads := s\<rparr>" v "tm_pc t r"] pcs grid quiet
    by (auto simp: as_group_def fun_eq_iff)
  then show "leads_to N prog z (as_group N (t\<lparr>tm_threads := s\<rparr>))" using team_invD(4) [OF inv] by simp
qed (use call thr pcs team_invD(3) [OF inv] in simp_all)

lemma grid_index:
  assumes "team_inv N prog z t" "rank_ok N a" "rank_ok N b"
  shows "channel_index N a b = Some (a * N + b)" "has_channel (th_grid (tm_threads t)) (a * N + b)"
    "channel (th_grid (tm_threads t)) a b = queue (tm_threads t) (nat (a * N + b))"
    "grid_view (th_grid (tm_threads t)) a b = queue (tm_threads t) (nat (a * N + b))"
  using channel_index_range [of "th_grid (tm_threads t)" a b] team_invD(7,8) [OF assms(1)] assms(2,3)
  by (simp_all add: channel_def grid_view_def)

text \<open>A rank between two calls enters the next one.\<close>

lemma enter_call:
  assumes inv: "team_inv N prog z t" and r: "rank_ok N r" and idle: "th_pc (tm_threads t) ! nat r = T_Idle"
    and k: "tm_pc t r < length (prog r)"
  shows "\<exists>s v. (\<forall>w. team_step N prog r w t = Some (t\<lparr>tm_threads := s\<rparr>)) \<and> threads_inv s \<and>
    s = (tm_threads t)\<lparr>th_pc := (th_pc (tm_threads t))[nat r := v]\<rparr> \<and> in_call N prog (tm_pc t r) (tm_data t r) r v \<and>
    \<not> notifying v \<and> call_work v < 6"
proof (cases "prog r ! tm_pc t r")
  case (To b f)
  note I = team_invD [OF inv]
  define m where "m = f (tm_data t r)"
  have b: "rank_ok N b" and m: "message_ok m" using next_call(1) [OF inv r k _ To] idle by (simp_all add: m_def)
  define v where "v = T_Send_Lock (nat (r * N + b)) m"
  define s where "s = (tm_threads t)\<lparr>th_pc := (th_pc (tm_threads t))[nat r := v]\<rparr>"
  have "unat (of_nat (length m) :: size_t) = length m" using m by (simp add: unat_of_nat)
  then have st: "taction_step (Enter_Send (nat r) (inproc_transport_create N r) b m (of_nat (length m))) (tm_threads t) = Some s"
    using I(6) [OF r] idle b vec_memcpy_whole [of "length m" m] m grid_index [OF inv r b]
    by (simp add: enter_send_def inproc_transport_create_def rank_ok_def s_def v_def)
  moreover have "th_pc s ! nat r = v" using I(6) [OF r] by (simp add: s_def)
  ultimately have "team_step N prog r w t = Some (t\<lparr>tm_threads := s\<rparr>)" for w
    using r I(3) idle k To by (simp add: team_step_def after_call_def v_def m_def Let_def)
  moreover have "threads_inv s" using taction_step_inv [OF I(1) st] .
  ultimately show ?thesis using k b To
    by (intro exI [of _ s] exI [of _ v]) (auto simp: v_def s_def sending_to_def m_def)
next
  case (From a len u)
  note I = team_invD [OF inv]
  have a: "rank_ok N a" using next_call(2) [OF inv r k _ From] idle by simp
  define v where "v = T_Recv_Lock (nat (a * N + r)) len"
  define s where "s = (tm_threads t)\<lparr>th_pc := (th_pc (tm_threads t))[nat r := v]\<rparr>"
  have st: "taction_step (Enter_Recv (nat r) (inproc_transport_create N r) a len) (tm_threads t) = Some s"
    using I(6) [OF r] idle a grid_index [OF inv a r]
    by (simp add: enter_recv_def inproc_transport_create_def rank_ok_def s_def v_def)
  moreover have "th_pc s ! nat r = v" using I(6) [OF r] by (simp add: s_def)
  ultimately have "team_step N prog r w t = Some (t\<lparr>tm_threads := s\<rparr>)" for w
    using r I(3) idle k From by (simp add: team_step_def after_call_def v_def)
  moreover have "threads_inv s" using taction_step_inv [OF I(1) st] .
  ultimately show ?thesis using k a From
    by (intro exI [of _ s] exI [of _ v]) (auto simp: v_def s_def receiving_from_def)
qed

text \<open>Work left in the call that rank \<open>r\<close> is in.\<close>

lemma rank_work_in_call:
  "tm_pc t r < length (prog r) \<Longrightarrow>
     rank_work prog t r = 6 * (length (prog r) - Suc (tm_pc t r)) + call_work (th_pc (tm_threads t) ! nat r)"
  by (simp add: rank_work_def)

lemma rank_work_returned:
  "tm_pc t r = Suc k \<Longrightarrow> k < length (prog r) \<Longrightarrow> th_pc (tm_threads t) ! nat r = T_Idle \<Longrightarrow>
     rank_work prog t r = 6 * (length (prog r) - Suc k)"
  by (auto simp: rank_work_def)

lemma lock_step:
  assumes inv: "team_inv N prog z t" and r: "rank_ok N r" and st: "lock_then (nat r) i v (tm_threads t) = Some s"
    and pc: "th_pc (tm_threads t) ! nat r = T_Send_Lock i m \<and> v = T_Send_Push i m \<or>
             th_pc (tm_threads t) ! nat r = T_Recv_Lock i len \<and> v = T_Recv_Check i len"
  shows "after_call prog r s t = t\<lparr>tm_threads := s\<rparr> \<and> team_inv N prog z (t\<lparr>tm_threads := s\<rparr>) \<and>
    team_work N prog (t\<lparr>tm_threads := s\<rparr>) < team_work N prog t"
proof -
  note I = team_invD [OF inv]
  have s: "th_pc s = (th_pc (tm_threads t))[nat r := v]" "th_grid s = th_grid (tm_threads t)"
    using st by (auto simp: lock_then_def split: if_splits)
  have k: "tm_pc t r < length (prog r)" using pc I(5) [OF r] by (auto simp: sending_to_def receiving_from_def)
  have v: "th_pc s ! nat r = v" using I(6) [OF r] by (simp add: s)
  have "team_inv N prog z (t\<lparr>tm_threads := s\<rparr>) \<and>
      team_work N prog (t\<lparr>tm_threads := s\<rparr>) + rank_work prog t r = team_work N prog t + rank_work prog (t\<lparr>tm_threads := s\<rparr>) r"
    using pc I(5) [OF r] by (intro quiet_team_step [OF inv r lock_then_inv [OF I(1) I(6) [OF r] st] s]) auto
  then show ?thesis using pc v k by (auto simp: after_call_def rank_work_in_call)
qed

lemma push_step:
  assumes inv: "team_inv N prog z t" and r: "rank_ok N r" and pc: "th_pc (tm_threads t) ! nat r = T_Send_Push i m"
  defines "t' \<equiv> t\<lparr>tm_threads := push_unlock (nat r) i m (tm_threads t)\<rparr>"
  shows "after_call prog r (push_unlock (nat r) i m (tm_threads t)) t = t' \<and> team_inv N prog z t' \<and> team_work N prog t' < team_work N prog t"
proof -
  note I = team_invD [OF inv]
  have pcs: "th_pc (tm_threads t') = (th_pc (tm_threads t))[nat r := T_Notify i]" by (simp add: t'_def push_unlock_def set_queue_def)
  then have v: "th_pc (tm_threads t') ! nat r = T_Notify i" using I(6) [OF r] by simp
  have call: "sending_to N prog (tm_pc t r) (tm_data t r) r i m" using I(5) [OF r] pc by simp
  then obtain b f where k: "tm_pc t r < length (prog r)" and b: "prog r ! tm_pc t r = To b f" "rank_ok N b"
    and i: "i = nat (r * N + b)" and m: "m = f (tm_data t r)" by (auto simp: sending_to_def)
  have g: "grp_pc (as_group N t) r = tm_pc t r" by (simp add: pc)
  have ok: "message_ok m" using next_call(1) [OF inv r k _ b(1)] pc by (simp add: m)
  then have "impl_transfer (th_grid (tm_threads t)) (Send r b m) = Some (Sent, th_grid (tm_threads t'))"
    using impl_send_effect [OF I(7), of r b m] grid_index(3) [OF inv r b(2)] r b(2) I(8)
    by (simp add: t'_def push_unlock_def set_queue_def i)
  moreover have "(as_group N t)\<lparr>grp_net := th_grid (tm_threads t'), grp_pc := (grp_pc (as_group N t))(r := Suc (tm_pc t r)), grp_data := tm_data t\<rparr> = as_group N t'"
    using as_group_own [OF inv r pcs, of "tm_pc t r"] by (intro group.equality) (simp_all add: t'_def)
  ultimately have "call_turn N prog r (as_group N t) = Some (as_group N t')"
    using r k b m ok by (simp add: call_turn_def g)
  then have grp: "leads_to N prog z (as_group N t')" by (rule leads_to_turn [OF I(9,4)])
  have "team_inv N prog z t' \<and> team_work N prog t' + rank_work prog t r = team_work N prog t + rank_work prog t' r"
    using push_unlock_inv [OF I(1) I(6) [OF r] pc] I(3) call grp
    by (intro own_step [OF inv r _ _ pcs]) (auto simp: t'_def)
  then show ?thesis using v k pc by (auto simp: after_call_def rank_work_in_call t'_def)
qed

lemma wake_step:
  assumes inv: "team_inv N prog z t" and q: "rank_ok N q" and pc: "th_pc (tm_threads t) ! nat q = T_Recv_Wait i len"
  defines "t' \<equiv> t\<lparr>tm_threads := (tm_threads t)\<lparr>th_pc := (th_pc (tm_threads t))[nat q := T_Recv_Lock i len]\<rparr>\<rparr>"
  shows "team_inv N prog z t' \<and> team_work N prog t' = team_work N prog t + 2"
proof -
  note I = team_invD [OF inv]
  have "threads_inv (tm_threads t')" using pc by (intro spurious_inv [OF I(1) I(6) [OF q]]) (simp add: t'_def spurious_wakeup_def)
  then have "team_inv N prog z t' \<and> team_work N prog t' + rank_work prog t q = team_work N prog t + rank_work prog t' q"
    unfolding t'_def using I(5) [OF q] pc by (intro quiet_team_step [OF inv q]) auto
  moreover have "tm_pc t q < length (prog q)" using I(5) [OF q] pc by (simp add: receiving_from_def)
  ultimately show ?thesis using pc I(6) [OF q] by (auto simp: rank_work_in_call t'_def)
qed

lemma return_from_send:
  assumes inv: "team_inv N prog z t" and r: "rank_ok N r" and pc: "th_pc (tm_threads t) ! nat r = T_Notify i"
    and s: "threads_inv s" "th_pc s = (th_pc (tm_threads t))[nat r := T_Idle]" "th_grid s = th_grid (tm_threads t)"
  defines "t' \<equiv> t\<lparr>tm_threads := s, tm_pc := (tm_pc t)(r := Suc (tm_pc t r))\<rparr>"
  shows "team_inv N prog z t' \<and> team_work N prog t' + 3 = team_work N prog t"
proof -
  note I = team_invD [OF inv]
  have k: "tm_pc t r < length (prog r)" using I(5) [OF r] pc by (auto simp: sending_to_def)
  have v: "th_pc (tm_threads t') ! nat r = T_Idle" using I(6) [OF r] by (simp add: t'_def s)
  have "grp_pc (as_group N t) r = Suc (tm_pc t r)" using r by (simp add: as_group_def pc)
  then have "as_group N t' = as_group N t"
    using as_group_own [OF inv r, of t' T_Idle "Suc (tm_pc t r)"] s
    by (intro group.equality) (auto simp: t'_def)
  then have "team_inv N prog z t' \<and> team_work N prog t' + rank_work prog t r = team_work N prog t + rank_work prog t' r"
    using s I(3,4) by (intro own_step [OF inv r, where v = T_Idle]) (simp_all add: t'_def)
  then show ?thesis
    using k pc rank_work_in_call [of t r prog] rank_work_returned [of t' r "tm_pc t r" prog] v by (simp add: t'_def)
qed

lemma notify_step:
  assumes inv: "team_inv N prog z t" and r: "rank_ok N r" and pc: "th_pc (tm_threads t) ! nat r = T_Notify i"
    and st: "notify (nat r) i w (tm_threads t) = Some s"
  shows "team_inv N prog z (after_call prog r s t) \<and> team_work N prog (after_call prog r s t) < team_work N prog t"
proof -
  note I = team_invD [OF inv]
  have thr: "threads_inv s" by (rule notify_inv [OF I(1) I(6) [OF r] pc st])
  obtain b f where "prog r ! tm_pc t r = To b f" using I(5) [OF r] pc by (auto simp: sending_to_def)
  moreover have idle: "th_pc s ! nat r = T_Idle" "th_ret s (nat r) = Some Sent" and grid: "th_grid s = th_grid (tm_threads t)"
    using st pc I(6) [OF r] by (auto simp: notify_def Let_def nth_list_update split: if_splits tpc.splits)
  ultimately have t': "after_call prog r s t = t\<lparr>tm_threads := s, tm_pc := (tm_pc t)(r := Suc (tm_pc t r))\<rparr>"
    by (simp add: after_call_def)
  show ?thesis
  proof (cases "\<exists>pc \<in> set (th_pc (tm_threads t)). waits_on i pc")
    case False
    then have "th_pc s = (th_pc (tm_threads t))[nat r := T_Idle]" using st by (auto simp: notify_def)
    then show ?thesis using return_from_send [OF inv r pc thr _ grid] t' by simp
  next
    case True
    then obtain len where w: "w < length (th_pc (tm_threads t))" "th_pc (tm_threads t) ! w = T_Recv_Wait i len"
      and s: "th_pc s = (th_pc (tm_threads t))[nat r := T_Idle, w := T_Recv_Lock i len]"
      using st by (auto simp: notify_def Let_def split: if_splits tpc.splits)
    define q where "q = int w"
    have q: "rank_ok N q" "nat q = w" using w(1) I(2) by (auto simp: q_def rank_ok_def)
    have ne: "w \<noteq> nat r" using w(2) pc by auto
    define t1 where "t1 = t\<lparr>tm_threads := (tm_threads t)\<lparr>th_pc := (th_pc (tm_threads t))[w := T_Recv_Lock i len]\<rparr>\<rparr>"
    have t1: "team_inv N prog z t1" "team_work N prog t1 = team_work N prog t + 2" using wake_step [OF inv q(1)] w(2) q(2) by (auto simp: t1_def)
    have "th_pc s = (th_pc (tm_threads t1))[nat r := T_Idle]" using s ne by (simp add: t1_def list_update_swap)
    then show ?thesis
      using return_from_send [OF t1(1) r _ thr, of i] ne pc grid t1(2) t' by (simp add: t1_def)
  qed
qed

text \<open>A receive that finds its queue empty waits; otherwise it takes the message it was meant to get.\<close>

lemma wait_step:
  assumes inv: "team_inv N prog z t" and r: "rank_ok N r" and pc: "th_pc (tm_threads t) ! nat r = T_Recv_Check i len"
    and empty: "queue (tm_threads t) i = []" and st: "check_take (nat r) i len (tm_threads t) = Some s"
  shows "team_inv N prog z (after_call prog r s t) \<and> team_work N prog (after_call prog r s t) < team_work N prog t"
proof -
  note I = team_invD [OF inv]
  have thr: "threads_inv s" using check_take_inv [OF I(1) I(6) [OF r] pc] st by simp
  have s: "th_pc s = (th_pc (tm_threads t))[nat r := T_Recv_Wait i len]" "th_grid s = th_grid (tm_threads t)"
    using empty st by (auto simp: check_take_def)
  have t': "after_call prog r s t = t\<lparr>tm_threads := s\<rparr>" using I(6) [OF r] by (simp add: after_call_def s)
  have "tm_pc t r < length (prog r)" using I(5) [OF r] pc by (simp add: receiving_from_def)
  moreover have "team_inv N prog z (t\<lparr>tm_threads := s\<rparr>) \<and>
      team_work N prog (t\<lparr>tm_threads := s\<rparr>) + rank_work prog t r = team_work N prog t + rank_work prog (t\<lparr>tm_threads := s\<rparr>) r"
    using I(5) [OF r] pc thr s by (intro quiet_team_step [OF inv r]) auto
  ultimately show ?thesis using pc I(6) [OF r] by (auto simp: rank_work_in_call t' s)
qed

lemma take_step:
  assumes inv: "team_inv N prog z t" and r: "rank_ok N r" and pc: "th_pc (tm_threads t) ! nat r = T_Recv_Check i len"
    and q: "queue (tm_threads t) i = m # ms" and st: "check_take (nat r) i len (tm_threads t) = Some s"
  shows "team_inv N prog z (after_call prog r s t) \<and> team_work N prog (after_call prog r s t) < team_work N prog t"
proof -
  note I = team_invD [OF inv]
  obtain a u where k: "tm_pc t r < length (prog r)" and a: "prog r ! tm_pc t r = From a len u" "rank_ok N a"
    and i: "i = nat (a * N + r)" using I(5) [OF r] pc by (auto simp: receiving_from_def)
  have thr: "threads_inv s" using check_take_inv [OF I(1) I(6) [OF r] pc] st by simp
  have ch: "channel (th_grid (tm_threads t)) a r = m # ms" using grid_index(3) [OF inv a(2) r] q by (simp add: i)
  then have "message_ok m" using grid_wf_message [OF I(7), of a r m] I(8) a(2) r by simp
  note take = check_take_message [OF q this, of "nat r" len]
  have len: "length m = unat len" using next_call(3) [OF inv r k _ a(1) ch] pc by simp
  then have s: "th_pc s = (th_pc (tm_threads t))[nat r := T_Idle]" "th_ret s (nat r) = Some (Received m)"
    "th_grid s = (th_grid (tm_threads t))\<lparr>gr_q := (gr_q (th_grid (tm_threads t)))[i := ms]\<rparr>"
    using st take by (auto simp: set_queue_def)
  define t' where "t' = t\<lparr>tm_threads := s, tm_pc := (tm_pc t)(r := Suc (tm_pc t r)), tm_data := (tm_data t)(r := u (tm_data t r) m)\<rparr>"
  have t': "after_call prog r s t = t'" using I(6) [OF r] a by (simp add: t'_def after_call_def s)
  have g: "grp_pc (as_group N t) r = tm_pc t r" by (simp add: pc)
  have "call_turn N prog r (as_group N t) = Some (as_group N t')"
    using impl_recv_effect [OF I(7), unfolded I(8), OF a(2) r ch, of len] len r k a as_group_own [OF inv r, of t' T_Idle "Suc (tm_pc t r)"]
    by (auto simp: call_turn_def g t'_def s i intro!: group.equality)
  then have "leads_to N prog z (as_group N t')" by (rule leads_to_turn [OF I(9,4)])
  then have "team_inv N prog z t' \<and> team_work N prog t' + rank_work prog t r = team_work N prog t + rank_work prog t' r"
    using thr I(3) by (intro own_step [OF inv r, where v = T_Idle]) (auto simp: t'_def s)
  then show ?thesis unfolding t'
    using k pc rank_work_in_call [of t r prog] rank_work_returned [of t' r "tm_pc t r" prog] I(6) [OF r] by (simp add: t'_def s)
qed

section \<open>Runs\<close>

lemma team_step_inv:
  assumes inv: "team_inv N prog z t" and st: "team_step N prog r w t = Some t'"
  shows "team_inv N prog z t' \<and> team_work N prog t' < team_work N prog t"
proof -
  have r: "rank_ok N r" using st by (auto simp: team_step_def Let_def split: if_splits)
  note I = team_invD [OF inv]
  show ?thesis
  proof (cases "th_pc (tm_threads t) ! nat r = T_Idle")
    case True
    have k: "tm_pc t r < length (prog r)" using st True by (auto simp: team_step_def Let_def split: if_splits)
    then obtain s v where t': "t' = t\<lparr>tm_threads := s\<rparr>" and s: "threads_inv s"
      "s = (tm_threads t)\<lparr>th_pc := (th_pc (tm_threads t))[nat r := v]\<rparr>"
      and v: "in_call N prog (tm_pc t r) (tm_data t r) r v" "\<not> notifying v" "call_work v < 6"
      using enter_call [OF inv r True] st by (metis option.inject)
    have "team_inv N prog z t' \<and> team_work N prog t' + rank_work prog t r = team_work N prog t + rank_work prog t' r"
      unfolding t' by (rule quiet_team_step [OF inv r s(1)]) (use s(2) v True in auto)
    then show ?thesis using k v(3) True I(6) [OF r] by (auto simp: rank_work_in_call t' s(2))
  next
    case False
    then obtain s where s: "thread_step (nat r) w (tm_threads t) = Some s" and t': "t' = after_call prog r s t"
      using st I(6) [OF r] by (auto simp: team_step_def Let_def split: if_splits)
    show ?thesis
    proof (cases "th_pc (tm_threads t) ! nat r")
      case (T_Recv_Check i len)
      then show ?thesis using wait_step [OF inv r] take_step [OF inv r] s t'
        by (cases "queue (tm_threads t) i") (auto simp: thread_step_def)
    qed (use False s t' lock_step [OF inv r] push_step [OF inv r] notify_step [OF inv r] in \<open>auto simp: thread_step_def\<close>)
  qed
qed

lemma team_run_inv:
  "team_inv N prog z t \<Longrightarrow> team_run N prog as t = Some t' \<Longrightarrow>
     team_inv N prog z t' \<and> steps as + team_work N prog t' \<le> team_work N prog t + 2 * wake_ups as"
proof (induction as arbitrary: t)
  case (Cons a as)
  obtain t1 where a: "team_act N prog a t = Some t1" and as: "team_run N prog as t1 = Some t'"
    using Cons.prems(2) by (auto split: Option.bind_splits)
  have "team_inv N prog z t1 \<and> (if is_go a then team_work N prog t1 < team_work N prog t else team_work N prog t1 \<le> team_work N prog t + 2)"
  proof (cases a)
    case (Go r w)
    then show ?thesis using team_step_inv [OF Cons.prems(1)] a by simp
  next
    case (Wake_Spuriously r)
    then show ?thesis using wake_step [OF Cons.prems(1), of r] a
      by (auto simp: spurious_wakeup_def split: if_splits tpc.splits)
  qed
  with Cons.IH [OF _ as] show ?case by (auto split: if_splits)
qed simp

text \<open>When no rank can go on, the end has been reached.\<close>

lemma stuck_settled:
  assumes inv: "team_inv N prog z t" and stuck: "team_stuck N prog t"
  shows "as_group N t = z" "rank_ok N r \<Longrightarrow> grp_pc (as_group N t) r = tm_pc t r"
proof -
  note I = team_invD [OF inv]
  have no_step: "taction_step (Step u w) (tm_threads t) = None" for u w
  proof (rule ccontr)
    assume c: "\<not> ?thesis"
    then have "rank_ok N (int u)" "th_pc (tm_threads t) ! u \<noteq> T_Idle"
      using I(2) by (auto simp: rank_ok_def thread_step_def split: if_splits)
    then show False using stuck c I(3) by (auto simp: team_stuck_def team_step_def Let_def dest!: spec [of _ "int u"] spec [of _ w])
  qed
  have pc: "th_pc (tm_threads t) ! nat q = T_Idle \<and> length (prog q) \<le> tm_pc t q \<or>
      (\<exists>i len. th_pc (tm_threads t) ! nat q = T_Recv_Wait i len \<and> queue (tm_threads t) i = [])" if q: "rank_ok N q" for q
    using some_thread_moves [OF I(1) I(6) [OF q]] no_step enter_call [OF inv q] stuck
      stuck_waits_empty [OF I(1) _ I(6) [OF q]] by (fastforce simp: team_stuck_def not_le)
  then show g: "grp_pc (as_group N t) q = tm_pc t q" if "rank_ok N q" for q using that by fastforce
  show "as_group N t = z"
  proof (rule leads_to_end [OF I(4)], rule ccontr)
    fix q assume c: "call_turn N prog q (as_group N t) \<noteq> None"
    have G: "group_ok N (as_group N t)" using I(4) by (simp add: leads_to_def)
    have q: "rank_ok N q" "tm_pc t q < length (prog q)" using c g by (auto simp: call_turn_iff [OF G])
    then obtain i len where w: "th_pc (tm_threads t) ! nat q = T_Recv_Wait i len" "queue (tm_threads t) i = []" using pc by fastforce
    then obtain a u where "prog q ! tm_pc t q = From a len u" "i = nat (a * N + q)"
      using I(5) [OF q(1)] by (auto simp: receiving_from_def)
    then show False using c w g [OF q(1)] by (simp add: call_turn_iff [OF G] next_transfer_def place_def)
  qed
qed

lemma start_team_inv:
  assumes g: "inproc_grid_create N = Some g" "0 \<le> N"
    and z: "run_turns (call_turn N prog) rs (group_start g x) = Some z" "settled N prog z"
  shows "team_inv N prog z (team_start g N x)" "team_work N prog (team_start g N x) = 6 * (\<Sum>r\<in>{0..<N}. length (prog r))"
proof -
  have pc: "th_pc (threads_start g (nat N)) ! nat r = T_Idle" if "rank_ok N r" for r
    using that by (simp add: threads_start_def rank_ok_def)
  then have "as_group N (team_start g N x) = group_start g x"
    by (intro group.equality) (auto simp: team_start_def group_start_def as_group_def threads_start_def)
  moreover have "leads_to N prog z (group_start g x)" using start_group_ok [OF g] z(1) by (auto simp: leads_to_def)
  moreover have "threads_inv (threads_start g (nat N))" using threads_reachable_inv threads_reachable.created [OF g(1)] .
  ultimately show "team_inv N prog z (team_start g N x)"
    using pc z(2) by (simp add: team_inv_def team_start_def threads_start_def)
  have "rank_work prog (team_start g N x) r = 6 * length (prog r)" if "r \<in> {0..<N}" for r
    using that pc [of r] by (cases "prog r") (auto simp: rank_work_def team_start_def rank_ok_def)
  then show "team_work N prog (team_start g N x) = 6 * (\<Sum>r\<in>{0..<N}. length (prog r))"
    by (simp add: team_work_def sum_distrib_left)
qed

lemma team_can_end:
  "team_inv N prog z t \<Longrightarrow> \<exists>as t'. team_run N prog as t = Some t' \<and> team_stuck N prog t'"
proof (induction "team_work N prog t" arbitrary: t rule: less_induct)
  case less
  show ?case
  proof (cases "team_stuck N prog t")
    case True
    then show ?thesis by (intro exI [of _ "[]"]) simp
  next
    case False
    then obtain r w t1 where t1: "team_step N prog r w t = Some t1" by (auto simp: team_stuck_def)
    with team_step_inv [OF less.prems t1] less.hyps obtain as t' where "team_run N prog as t1 = Some t'" "team_stuck N prog t'"
      by blast
    with t1 show ?thesis by (intro exI [of _ "Go r w # as"]) simp
  qed
qed

section \<open>Property\<close>

text \<open>
  C12: What the ranks of a group compute over the in-process transport does not depend on how their threads are
  interleaved. Let each of \<open>N\<close> ranks have a program of \<^verbatim>\<open>send\<close> and \<^verbatim>\<open>recv\<close> calls, and let there be one order of whole
  calls that ends in a state \<open>w\<close> in which every rank has finished or is blocked for ever on an empty channel. Then
  with one thread for each rank, interleaved at every operation on a mutex or a condition variable in any order,
  with spurious wake-ups and any choice of whom \<^verbatim>\<open>notify_one\<close> wakes: no call throws, there are at most six steps for
  each call and two for each spurious wake-up, every run can be brought to its end, and at the end every
  rank has made the same calls, has the same data, and every queue holds the same messages as in \<open>w\<close>.
\<close>

theorem interleaving_immaterial:
  assumes g: "inproc_grid_create N = Some g" "0 \<le> N"
    and w: "run_turns (call_turn N prog) rs (group_start g x) = Some w" "settled N prog w"
  shows "always_ends_in N prog g x (6 * (\<Sum>r\<in>{0..<N}. length (prog r))) w"
  unfolding always_ends_in_def
proof (intro allI impI)
  fix as t assume run: "team_run N prog as (team_start g N x) = Some t"
  note S = start_team_inv [OF g w]
  have inv: "team_inv N prog w t" and steps: "steps as \<le> 6 * (\<Sum>r\<in>{0..<N}. length (prog r)) + 2 * wake_ups as"
    using team_run_inv [OF S(1) run] S(2) by auto
  have "th_grid (tm_threads t) = grp_net w \<and> (\<forall>r. rank_ok N r \<longrightarrow> tm_pc t r = grp_pc w r \<and> tm_data t r = grp_data w r)"
    if "team_stuck N prog t"
    using stuck_settled(1) [OF inv that] stuck_settled(2) [OF inv that] by auto
  then show "\<not> tm_thrown t \<and> steps as \<le> 6 * (\<Sum>r\<in>{0..<N}. length (prog r)) + 2 * wake_ups as \<and>
    (\<exists>bs t'. team_run N prog bs t = Some t' \<and> team_stuck N prog t') \<and>
    (team_stuck N prog t \<longrightarrow> th_grid (tm_threads t) = grp_net w \<and>
      (\<forall>r. rank_ok N r \<longrightarrow> tm_pc t r = grp_pc w r \<and> tm_data t r = grp_data w r))"
    using team_invD(3) [OF inv] steps team_can_end [OF inv] by blast
qed

text \<open>Two ranks exchange a byte: rank 0 sends first, rank 1 receives first.\<close>

theorem interleaving_immaterial_witness:
  "\<exists>g w. inproc_grid_create 2 = Some g \<and>
     always_ends_in 2 (\<lambda>r. if r = 0 then [To 1 (take 1), From 1 1 (\<lambda>d m. d @ m)] else [From 0 1 (\<lambda>d m. d @ m), To 0 (take 1)])
       g (\<lambda>r. [of_int (5 + r)]) 24 w \<and>
     grp_pc w 0 = 2 \<and> grp_pc w 1 = 2 \<and> grp_data w 0 = [5, 6] \<and> grp_data w 1 = [6, 5]"
proof -
  define g where "g = \<lparr>gr_n = 2, gr_q = [[], [], [], []]\<rparr>"
  have "replicate 4 ([] :: block list) = [[], [], [], []]" by (simp add: numeral_eq_Suc)
  then have g: "inproc_grid_create 2 = Some g" by (simp add: inproc_grid_create_def int32_ok_def g_def)
  define x where "x r = [of_int (5 + r) :: u8]" for r :: int
  define prog where "prog r = (if r = (0 :: int) then [To 1 (take 1), From 1 1 (\<lambda>d m. d @ m)]
    else [From 0 1 (\<lambda>d m. d @ (m :: block)), To 0 (take 1)])" for r
  have "\<exists>w. run_turns (call_turn 2 prog) [0, 1, 1, 0] (group_start g x) = Some w \<and>
      grp_pc w 0 = 2 \<and> grp_pc w 1 = 2 \<and> grp_data w 0 = [5, 6] \<and> grp_data w 1 = [6, 5]"
    by (simp add: g_def group_start_def call_turn_def prog_def rank_ok_def x_def inproc_send_def inproc_recv_def
        inproc_transport_create_def channel_index_def int32_ok_def has_channel_def vec_memcpy_def memcpy_def)
  then obtain w where w: "run_turns (call_turn 2 prog) [0, 1, 1, 0] (group_start g x) = Some w"
    "grp_pc w 0 = 2" "grp_pc w 1 = 2" "grp_data w 0 = [5, 6]" "grp_data w 1 = [6, 5]" by blast
  have "{0..<2 :: int} = {0, 1}" by auto
  then have count: "(\<Sum>r\<in>{0..<2}. length (prog r)) = 4" by (simp add: prog_def)
  have "grp_pc w r = length (prog r)" if "rank_ok 2 r" for r
  proof -
    have "r = 0 \<or> r = 1" using that by (auto simp: rank_ok_def)
    then show ?thesis using w(2,3) by (auto simp: prog_def)
  qed
  then have "settled 2 prog w" by (simp add: settled_def)
  from interleaving_immaterial [OF g _ w(1) this] have "always_ends_in 2 prog g x 24 w"
    using count by simp
  with g w(2-5) show ?thesis unfolding prog_def [abs_def] x_def [abs_def] by blast
qed

end
