(* ===== verification/Spec2Isabelle.thy ===== *)
theory Spec2Isabelle
  imports Bench_Spsc Test_Spsc Test_Mpmc Nic_Probe Dma_Stream Inproc_Properties Threaded_Group
begin

text \<open>
  A verification development for the repository \<^verbatim>\<open>systems-prep\<close>: the two lock-free queues, the
  DMA engine, the in-process transport, and the test and benchmark programs.

  \<^bold>\<open>The program.\<close> \<^verbatim>\<open>01-spsc-ring-buffer-c\<close> is a bounded ring for one producer and one consumer
  thread. \<^verbatim>\<open>03-userspace-driver-dma-c\<close> is a DMA engine in two halves: a QEMU PCI device
  (\<^verbatim>\<open>vm/dma_engine.c\<close>) and the kernel driver for it (\<^verbatim>\<open>nic.c\<close>, \<^verbatim>\<open>nic.h\<close>). They share guest memory, in
  which the driver writes submission entries and the device completion entries, and a register file:
  the driver programs the rings, rings the doorbell, and reads the device's indices; the device
  defers processing to a timer and raises an interrupt, which the driver acknowledges. The others
  are C++: \<^verbatim>\<open>02-mpmc-ring-buffer-cpp\<close> is a bounded queue for many producers and one consumer, which
  claim cells with a compare-exchange; \<^verbatim>\<open>04-collectives-cpp\<close> has a transport between the threads of one
  process, a queue with a mutex and a condition variable for each ordered pair of ranks. The
  collectives of \<^verbatim>\<open>04\<close> and those of \<^verbatim>\<open>05-collectives-integration-cpp\<close>, and the DMA transport there, have empty
  bodies.

  \<^bold>\<open>The theories.\<close>
  \<^item> \<open>Prelude\<close>: machine integers as words, bounds-checked \<^verbatim>\<open>memcpy\<close>, slots of a byte block, the
    power-of-two test and masking, distances of wrapping counters.
  \<^item> \<open>Ring_Interfaces\<close>: the contracts as locales. \<open>ring_index\<close> is what an index computation owes a
    ring (interpreted for masking with \<^verbatim>\<open>capacity - 1\<close>, and in \<open>Mpsc_Queue\<close> for the remainder by the
    capacity, where it holds as long as the counters do not wrap); \<open>bounded_fifo\<close> is what a queue owes its
    clients, with the lift to arbitrary sequences of operations.
  \<^item> \<open>Spsc_Ring\<close>: \<^verbatim>\<open>spsc_ring.c\<close>, one definition per function (\<open>spsc_ring_create\<close>, \<open>spsc_ring_push\<close>,
    \<open>spsc_ring_push_n\<close>, and so on) over the record \<open>spsc_ring\<close>; the invariant \<open>spsc_inv\<close>, the queued
    elements \<open>spsc_elems\<close>, and per-operation refinement of a bounded list; the interpretation of
    \<open>bounded_fifo\<close>. \<open>Spsc_Properties\<close>: claims C1 to C7.
  \<^item> \<open>Spsc_Concurrent\<close>: the same functions as thread programs (\<open>p_step\<close>, \<open>c_step\<close>), interleaved at
    every atomic access and at every byte of every copy. An acquire load may return any value not older
    than the last one seen; happens-before is tracked with vector clocks, and a conflicting access it
    does not order is a race. \<open>Spsc_Race_Free\<close>: every step keeps the invariant.
    \<open>Spsc_Conc_Properties\<close>: claims C8 to C11 and C13, including that a thread running alone is the sequential
    function, which ties the two models together.
  \<^item> \<open>Fair_Rounds\<close>: schedules as lists of rounds of turns. The locale \<open>helpful_threads\<close> is the argument by which
    threads that wait for each other reach their goal: while it is not reached, some thread brings it nearer and
    no other moves it away.
  \<^item> \<open>Spsc_Loops\<close>: a thread that pushes and a thread that pops until they have moved a number of elements, on the ring
    of \<open>Spsc_Concurrent\<close>; the loops of \<^verbatim>\<open>bench_spsc.c\<close> and of the concurrent test in \<^verbatim>\<open>test_spsc.c\<close> are instances. The
    locale \<open>ring_loops\<close> says what their calls owe the loops; it shows that no turn goes wrong and that what was
    pushed are the bytes of the calls, and gives \<open>helpful_threads\<close>.
  \<^item> \<open>Test_Program\<close>: assertions, calls and exits of a test program. \<open>Bench_Spsc\<close>: \<^verbatim>\<open>bench_spsc.c\<close>, its threads, single
    and batched, and its \<^verbatim>\<open>main\<close>; \<open>ring_loops\<close> is interpreted for each of its three runs (\<open>single_threads\<close>,
    \<open>batch64_threads\<close>, \<open>batch256_threads\<close>); claim C14. \<open>Test_Spsc\<close>: \<^verbatim>\<open>test_spsc.c\<close>, one definition per test, and its
    \<^verbatim>\<open>main\<close>, with the interpretation for the threads of its concurrent test (\<open>test_threads\<close>); claim C4.
  \<^item> \<open>Dma_Layout\<close>: memory, and the packed little-endian descriptors of both sides.
  \<^item> \<open>Dma_Device\<close>: \<^verbatim>\<open>vm/dma_engine.c\<close>; the record \<open>DmaEngineState\<close>, the register file, the doorbell,
    the processing loop (a terminating function: every iteration brings \<^verbatim>\<open>sq_head\<close> nearer to
    \<^verbatim>\<open>sq_tail\<close>), the interrupts, \<^verbatim>\<open>realize\<close>, \<^verbatim>\<open>exit\<close> and the device class.
  \<^item> \<open>Dma_Process\<close>: the locale \<open>guest_ram\<close>, the contract of \<^verbatim>\<open>pci_dma_read\<close> and \<^verbatim>\<open>pci_dma_write\<close>,
    and inside it the refinement of the loop by a list function \<open>complete_all\<close> and the content of the
    completion ring afterwards; interpreted for byte-addressed RAM with unbacked ranges.
  \<^item> \<open>Nic_Registers\<close>: the constants of \<^verbatim>\<open>nic.h\<close> and the PCI table, a second copy of what the device
    declares. \<open>Nic_Driver\<close>: \<^verbatim>\<open>nic.c\<close>; the record \<open>engine_t\<close>, create, destroy, submit, doorbell, drain, wait,
    the interrupt handler, probe and remove, the entry points of the module, with a log of kernel
    resources. What each fallible kernel call returns is a field of the record \<open>answers\<close>.
  \<^item> \<open>Dma_System\<close>: driver and device on one bus and one memory, as a step relation; the queues
    \<open>submitted\<close> and \<open>completed\<close> as the abstract view of the rings; the system invariant.
    \<open>Dma_Properties\<close>: claims C15, C16, C18 to C21, C23 and C24. \<open>Nic_Probe\<close>: the smoke test, the resource balance
    of the probe and the failures it does not check, and the wait with the interrupt that wakes it, claims C25 to
    C28. \<open>Dma_Stream\<close>: runs of any length as lists of actions, and that each accepted
    entry is completed once and in order, claim C17.
  \<^item> \<open>Mpsc_Queue\<close>: \<^verbatim>\<open>mpmc_queue.hpp\<close> call by call, over the record \<open>mpsc_queue\<close>; the invariant
    \<open>mpsc_inv\<close>, the queued elements \<open>mpsc_elems\<close>, and the interpretation of \<open>bounded_fifo\<close>
    (\<open>mpsc_fifo\<close>). \<open>Mpsc_Concurrent\<close>: \<^verbatim>\<open>push\<close> and \<^verbatim>\<open>pop\<close> as thread programs, one step for each atomic access
    and each access to a cell, for any number of producers. \<open>Mpsc_Invariant\<close>: every step keeps the
    invariant. \<open>Mpsc_Properties\<close>: claims C29 to C33 (bounded FIFO, no races, no loss, calls return, the
    tie between the two models). \<open>Mpsc_Client\<close>: producers and a checking consumer on the
    concurrent queue; the locale \<open>checked_load\<close> says what the check owes the test, and gives
    \<open>helpful_threads\<close>. \<open>Test_Mpsc\<close>: \<^verbatim>\<open>test_mpmc.cpp\<close>, with the locale interpreted for its two concurrent tests
    (\<open>spsc_load\<close>, \<open>mpsc_load\<close>); claim C5. \<open>Test_Mpmc\<close>: the test with several consumers in that file, and the
    flaws of the queue; claim C34.
  \<^item> \<open>Inproc_Transport\<close>: \<^verbatim>\<open>transport_inproc.cpp\<close> call by call; the locale \<open>transport\<close> is the contract of
    \<^verbatim>\<open>Transport\<close> in \<^verbatim>\<open>collective.hpp\<close>, with the lift to sequences of calls, interpreted for the grid
    (\<open>inproc\<close>). \<open>Inproc_Threads\<close>: overlapping calls, with the mutexes and condition variables as a step
    relation. \<open>Inproc_Properties\<close>: claims C22 and C35 to C37.
  \<^item> \<open>Rank_Programs\<close>: ranks that run programs of sends and receives over the in-process transport, one whole call at a
    time. The locale \<open>diamond\<close>: where turns commute, every order of them that comes to an end comes to the same end;
    interpreted for the calls of different ranks (\<open>calls\<close>). \<open>Threaded_Group\<close>: the same ranks, each on a thread of
    \<open>Inproc_Threads\<close>, interleaved at every operation on a mutex or condition variable; a simulation by the calls, with a
    measure that bounds the number of steps; claim C12.

  \<^bold>\<open>How the model reads the code.\<close> Integers keep their width and wrap. A function that can leave its
  buffer, or go through a null pointer, returns \<open>None\<close> when it does; ordinary error codes are values.
  The loops are total functions, and what waits for another thread is a step relation. The only
  step bounds are those of \<open>solo_push\<close> and \<open>solo_pop\<close>, which run a thread alone, with newest loads and without spurious
  failures: C32 shows that six and five steps are then enough, and C33 uses these numbers. A turn of a thread of
  the tests and the benchmark is one atomic access or the copy of one byte; a step of a rank in C12 is one operation
  on a mutex or condition variable. The numbers of rounds in C4, C5 and C14 are what is enough for the loops to
  end; a schedule has arbitrarily many other rounds in between. C12 needs no fairness: it bounds the steps of every
  schedule by the number of calls and of spurious wake-ups. Signed overflow in C++, an index outside a vector and
  a division by zero are \<open>Undefined\<close> or \<open>None\<close>.

  In the concurrent models a load may return any value not older than the last one its thread has
  seen; this allows more than the memory model of C11 and C++ does, so what is proved of all runs
  holds of those. Loops that wait for a store end only if stores become visible at some time: in C4, C5 and C14 a
  store is visible from the next round on. The claims about concurrent runs of the multi-producer queue suppose that fewer
  than \<open>2 ^ 64\<close> values have been claimed. Functions of the C library, the kernel and QEMU are arguments of the
  definitions; what is assumed of them is \<open>malloc_sized\<close>, the locale \<open>guest_ram\<close>,
  and the wait predicates of \<open>Nic_Probe\<close>, and each has an instance. A CPU pointer to memory shared with
  the device is represented by the bus address of the byte it points to.

  \<^bold>\<open>What does not hold.\<close> C7: \<^verbatim>\<open>spsc_ring_create\<close> accepts sizes whose product overflows. C13: a
  concurrent \<^verbatim>\<open>spsc_ring_size\<close> can wrap, or exceed the capacity. C21: the device's test for a full completion ring never
  fires, so completions the driver has not drained are overwritten. C27: a mapping at bus address 0
  leaks on the error path of the probe, and failures of the kernel's calls in \<^verbatim>\<open>engine_create\<close> and in the probe are not
  noticed. C34: \<^verbatim>\<open>push\<close> of the multi-producer queue can report a full queue
  that is empty; and with a capacity that is not a power of two, which the constructor accepts, the
  queue loses an element when its counters wrap; and \<^verbatim>\<open>test_concurrent_mpmc\<close>, which uses several consumers, can take
  an element twice. C35: a transport made for a rank outside the grid indexes it out of range, and a send of no bytes
  copies through a null pointer. C37: a receive with the wrong length throws and loses the message.

  \<^bold>\<open>Not modelled.\<close> \<^verbatim>\<open>test_dma.c\<close>, \<^verbatim>\<open>test_collectives.cpp\<close>, \<^verbatim>\<open>test_integration.cpp\<close> and
  \<^verbatim>\<open>bench_collectives.cpp\<close>, which only print a line; the scripts that build and boot the virtual machine; the
  registration of the device type with QEMU, which is declarative; printing, error messages and the clock of the
  benchmark; the variable \<^verbatim>\<open>done\<close> of the concurrent test of the ring, which the consumer sets when it leaves its loop
  and which is checked after the join, when it has; memory barriers \<^verbatim>\<open>wmb\<close> and \<^verbatim>\<open>rmb\<close>, since driver and device are interleaved over one coherent
  memory. The four collectives and the DMA transport, whose bodies are empty: what they are to do is written in
  comments only. Any plan for them that is a list of \<^verbatim>\<open>send\<close> and \<^verbatim>\<open>recv\<close> calls is a program in the sense of
  \<open>Rank_Programs\<close>.
\<close>

end
